(* ===== verification/Prelude.thy ===== *)
theory Prelude
  imports Main "HOL-Library.Word" "HOL-Library.Signed_Division" "HOL-Library.Monad_Syntax"
begin

text \<open>
  Shared vocabulary of the development: names for the C integer types, and the generic
  lemmas about lists, options and words that the component theories use.

  A partial C operation (a read outside a buffer, a failed \<^verbatim>\<open>assert\<close>, an overflow of a
  signed counter) is a value of an \<^verbatim>\<open>option\<close> type throughout: \<^const>\<open>None\<close> is "the program
  has no defined behaviour from here", and a theorem that an operation is safe shows that
  the result is \<^const>\<open>Some\<close>.
\<close>

unbundle bit_operations_syntax

section \<open>Machine integers\<close>

type_synonym int32 = "32 word"
type_synonym uint32 = "32 word"
type_synonym uint64 = "64 word"

abbreviation INT_MAX :: int where "INT_MAX \<equiv> 2147483647"
abbreviation INT_MIN :: int where "INT_MIN \<equiv> - 2147483648"

subsection \<open>Signed readings of 32-bit words\<close>

lemma sint_bounds: "- 2147483648 \<le> sint (x::int32)" "sint x < 2147483648"
  using sint_ge [of x] sint_lt [of x] by simp_all

lemma sign_bit: "bit (x::int32) 31 \<longleftrightarrow> sint x < 0"
  using bit_last_iff [of x] by simp

lemma sar_31: "signed_drop_bit 31 (x::int32) = (if sint x < 0 then -1 else 0)"
proof (rule bit_word_eqI)
  fix n assume "n < LENGTH(32)"
  then show "bit (signed_drop_bit 31 x) n = bit (if sint x < 0 then -1 else 0 :: int32) n"
    by (cases n) (auto simp: bit_signed_drop_bit_iff sign_bit)
qed

lemma sint_add_mod: "sint (x + y :: int32) = (sint x + sint y + 2147483648) mod 4294967296 - 2147483648"
  by (simp add: sint_word_add signed_take_bit_eq_take_bit_shift take_bit_eq_mod)

lemma sint_add_cases:
  "sint (x + y :: int32) =
     (let s = sint x + sint y
      in if s < - 2147483648 then s + 4294967296
         else if s < 2147483648 then s else s - 4294967296)"
proof -
  let ?s = "sint x + sint y + 2147483648"
  have b: "- 4294967296 \<le> ?s" "?s < 8589934592"
    using sint_bounds [of x] sint_bounds [of y] by linarith+
  consider "?s < 0" | "0 \<le> ?s \<and> ?s < 4294967296" | "4294967296 \<le> ?s" by linarith
  then show ?thesis
  proof cases
    case 1
    then have "?s mod 4294967296 = ?s + 4294967296"
      using b mod_pos_pos_trivial [of "?s + 4294967296" 4294967296] mod_add_self2 [of ?s 4294967296] by linarith
    with 1 show ?thesis by (simp add: sint_add_mod)
  next
    case 2
    then show ?thesis by (simp add: sint_add_mod)
  next
    case 3
    then have "?s mod 4294967296 = ?s - 4294967296"
      using b mod_pos_pos_trivial [of "?s - 4294967296" 4294967296] minus_mod_self2 [of ?s 4294967296] by linarith
    with 3 show ?thesis by (simp add: sint_add_mod)
  qed
qed

lemma sint_of_int_id: "- 2147483648 \<le> i \<Longrightarrow> i \<le> 2147483647 \<Longrightarrow> sint (word_of_int i :: int32) = i"
  by (simp add: sint_sbintrunc' signed_take_bit_int_eq_self)

lemma sar_word: "signed_drop_bit n (x::int32) = word_of_int (sint x div 2 ^ n)"
  by (simp add: scast_id flip: drop_bit_eq_div sint_signed_drop_bit_eq)

lemma pow2_le: "n \<le> 30 \<Longrightarrow> (2::int) ^ n \<le> 1073741824"
  using power_increasing [of n 30 "2::int"] by simp

lemma pow2_pos: "- 2147483648 < (2::int) ^ n" "- 2147483648 \<le> (2::int) ^ n"
  using zero_less_power [of "2::int" n] by linarith+

lemma pow2_word: "n \<le> 30 \<Longrightarrow> sint (2 ^ n :: int32) = 2 ^ n" 
  using sint_of_int_id [of "2 ^ n"] pow2_le [of n] pow2_pos [of n] by simp

lemma pow2_m1: "n \<le> 30 \<Longrightarrow> sint (2 ^ n - 1 :: int32) = 2 ^ n - 1" 
  using sint_of_int_id [of "2 ^ n - 1"] pow2_le [of n] pow2_pos [of n] by simp

lemma div_round_up_neg:
  assumes "0 < (d::int)"
  shows "(x + (d - 1)) div d = - ((- x) div d)"
proof (rule int_div_pos_eq)
  show "x + (d - 1) = d * - (- x div d) + (d - 1 - (- x) mod d)"
    using mult_div_mod_eq [of d "- x"] by (simp add: algebra_simps)
  show "0 \<le> d - 1 - (- x) mod d" "d - 1 - (- x) mod d < d"
    using assms pos_mod_bound [of d "- x"] pos_mod_sign [of d "- x"] by linarith+
qed

lemma sdiv_between:
  fixes lo hi v d :: int
  assumes "0 < d" "lo * d \<le> v" "v \<le> hi * d"
  shows "lo \<le> v sdiv d" "v sdiv d \<le> hi"
proof -
  have q: "lo \<le> v div d" "v div d \<le> hi"
    using assms zdiv_mono1 [of "lo * d" v d] zdiv_mono1 [of v "hi * d" d] by simp_all
  have c: "- (hi * d) div d = - hi" "- (lo * d) div d = - lo"
    using assms(1) nonzero_mult_div_cancel_right [of d "- hi"]
      nonzero_mult_div_cancel_right [of d "- lo"] by simp_all
  have q': "- hi \<le> - v div d" "- v div d \<le> - lo"
    using assms zdiv_mono1 [of "- (hi * d)" "- v" d] zdiv_mono1 [of "- v" "- (lo * d)" d] c
    by linarith+
  show "lo \<le> v sdiv d" "v sdiv d \<le> hi"
    using assms q q' by (cases "v = 0"; cases "0 < v"; simp add: signed_divide_int_def)+
qed

lemma sint_of_nat_small: "k < 2097152 \<Longrightarrow> sint (of_nat k :: int32) = int k"
  using sint_of_int_id [of "int k"] by simp

lemma sint_minus_of_nat: "k < 2097152 \<Longrightarrow> sint (- of_nat k :: int32) = - int k"
  using sint_of_int_id [of "- int k"] by simp

lemma sint_diff_id:
  "INT_MIN \<le> sint x - sint y \<Longrightarrow> sint x - sint y \<le> INT_MAX \<Longrightarrow>
   sint (x - y :: int32) = sint x - sint y"
  using sint_of_int_id [of "sint x - sint y"] by (simp add: scast_id)

section \<open>Character arrays and C strings\<close>

text \<open>
  A \<^verbatim>\<open>char *\<close> that is only read is the list of characters from the pointer to the end of
  the array it points into, so \<^verbatim>\<open>s[i]\<close> is a read at index \<open>i\<close> and \<^verbatim>\<open>s + i\<close> is
  \<open>drop i s\<close>. Reading past the end of the array has no value.
\<close>

abbreviation NUL :: char where "NUL \<equiv> CHR 0x00"

definition rd :: "'a list \<Rightarrow> nat \<Rightarrow> 'a option" where
  "rd xs i = (if i < length xs then Some (xs ! i) else None)"

definition cstr :: "char list \<Rightarrow> string" where
  "cstr s = takeWhile (\<lambda>c. c \<noteq> NUL) s"

definition terminated :: "char list \<Rightarrow> bool" where
  "terminated s \<longleftrightarrow> NUL \<in> set s"

text \<open>The value of a (signed) \<^verbatim>\<open>char\<close> after promotion to \<^verbatim>\<open>int\<close>.\<close>

definition schar :: "char \<Rightarrow> int" where
  "schar c = (let n = of_char c in if n < 128 then n else n - 256)"

text \<open>Incrementing an \<^verbatim>\<open>int\<close> index: undefined past \<^verbatim>\<open>INT_MAX\<close>.\<close>

definition inc_int :: "nat \<Rightarrow> nat option" where
  "inc_int i = (if int i < INT_MAX then Some (Suc i) else None)"

definition small_str :: "char list \<Rightarrow> bool" where
  "small_str s \<longleftrightarrow> terminated s \<and> int (length (cstr s)) \<le> INT_MAX"

lemma cstr_Nil [simp]: "cstr [] = []"
  and cstr_Cons [simp]: "cstr (c # s) = (if c = NUL then [] else c # cstr s)"
  by (simp_all add: cstr_def)

lemma terminated_Nil [simp]: "\<not> terminated []"
  and terminated_Cons [simp]: "terminated (c # s) \<longleftrightarrow> c = NUL \<or> terminated s"
  by (auto simp: terminated_def)

lemma cstr_no_NUL [simp]: "NUL \<notin> set (cstr s)"
  by (auto simp: cstr_def dest: set_takeWhileD)

lemma cstr_split: "terminated s \<Longrightarrow> s = cstr s @ NUL # drop (Suc (length (cstr s))) s"
  by (induction s) auto

lemma cstr_less: "terminated s \<Longrightarrow> length (cstr s) < length s"
  by (induction s) auto

lemma cstr_nth: "i < length (cstr s) \<Longrightarrow> s ! i = cstr s ! i"
  by (simp add: cstr_def takeWhile_nth)

lemma cstr_nth_NUL: "terminated s \<Longrightarrow> s ! length (cstr s) = NUL"
  using nth_length_takeWhile [of "\<lambda>c. c \<noteq> NUL" s] cstr_less [of s] by (simp add: cstr_def)

lemma cstr_nth_not_NUL: "i < length (cstr s) \<Longrightarrow> s ! i \<noteq> NUL"
  using cstr_no_NUL [of s] by (metis cstr_nth nth_mem)

lemma cstr_char_not_NUL [simp]: "i < length (cstr s) \<Longrightarrow> cstr s ! i \<noteq> NUL"
  using cstr_no_NUL [of s] by (metis nth_mem)

lemma cstr_drop: "i \<le> length (cstr s) \<Longrightarrow> cstr (drop i s) = drop i (cstr s)"
  by (induction s arbitrary: i) (auto simp: drop_Cons' split: if_splits)

lemma terminated_drop: "terminated s \<Longrightarrow> i \<le> length (cstr s) \<Longrightarrow> terminated (drop i s)"
  by (induction s arbitrary: i) (auto simp: drop_Cons' split: if_splits)

lemma rd_cstr: "terminated s \<Longrightarrow> i \<le> length (cstr s) \<Longrightarrow>
    rd s i = Some (if i < length (cstr s) then cstr s ! i else NUL)"
  using cstr_less [of s] cstr_nth [of i s] cstr_nth_NUL [of s] by (auto simp: rd_def)

lemma small_str_drop: "small_str s \<Longrightarrow> i \<le> length (cstr s) \<Longrightarrow> small_str (drop i s)"
  by (simp add: small_str_def terminated_drop cstr_drop)

lemma of_char_bounds: "0 \<le> (of_char c :: int)" "(of_char c :: int) < 256"
  using of_char_mod_256 [of c, where 'a = int] pos_mod_sign [of 256 "of_char c"]
    pos_mod_bound [of 256 "of_char c"] by simp_all

lemma schar_eq_iff [simp]: "schar x = schar y \<longleftrightarrow> x = y"
  using of_char_bounds [of x] of_char_bounds [of y] by (auto simp: schar_def Let_def)

lemma schar_NUL [simp]: "schar NUL = 0"
  by (simp add: schar_def)

lemma schar_eq_0_iff [simp]: "schar x = 0 \<longleftrightarrow> x = NUL"
  using schar_eq_iff [of x NUL] by (simp del: schar_eq_iff)

section \<open>Loops and conversions\<close>

text \<open>A \<^verbatim>\<open>for\<close> loop over a known sequence of values whose body may fail.\<close>

primrec foldM :: "('a \<Rightarrow> 's \<Rightarrow> 's option) \<Rightarrow> 'a list \<Rightarrow> 's \<Rightarrow> 's option" where
  "foldM f [] s = Some s"
| "foldM f (x # xs) s = do { s' \<leftarrow> f x s; foldM f xs s' }"

text \<open>An \<^verbatim>\<open>int\<close> result: signed overflow has no value.\<close>

definition c_int :: "int \<Rightarrow> int option" where
  "c_int i = (if INT_MIN \<le> i \<and> i \<le> INT_MAX then Some i else None)"

text \<open>The white space \<^verbatim>\<open>isspace\<close> accepts in the default locale, and decimal digits.\<close>

definition isspace :: "char \<Rightarrow> bool" where
  "isspace c \<longleftrightarrow> c \<in> {CHR '' '', CHR 0x09, CHR 0x0A, CHR 0x0B, CHR 0x0C, CHR 0x0D}"

definition isdigit :: "char \<Rightarrow> bool" where
  "isdigit c \<longleftrightarrow> (48::nat) \<le> of_char c \<and> of_char c \<le> (57::nat)"

primrec digits_val :: "int \<Rightarrow> string \<Rightarrow> int" where
  "digits_val acc [] = acc"
| "digits_val acc (c # cs) = (if isdigit c then digits_val (10 * acc + (of_char c - 48)) cs else acc)"

text \<open>\<^verbatim>\<open>atoi\<close>: a value that is not an \<^verbatim>\<open>int\<close> is undefined.\<close>

definition atoi :: "string \<Rightarrow> int option" where
  "atoi s = (case dropWhile isspace s of
       [] \<Rightarrow> Some 0
     | c # cs \<Rightarrow> c_int (if c = CHR ''-'' then - digits_val 0 cs
                      else if c = CHR ''+'' then digits_val 0 cs
                      else digits_val 0 (c # cs)))"

text \<open>The sign of \<^verbatim>\<open>strcmp\<close>, which is all the standard says: characters compare as unsigned bytes.\<close>

fun strcmp :: "string \<Rightarrow> string \<Rightarrow> int" where
  "strcmp [] [] = 0"
| "strcmp [] (d # ds) = - 1"
| "strcmp (c # cs) [] = 1"
| "strcmp (c # cs) (d # ds) = (if c = d then strcmp cs ds else if of_char c < (of_char d :: nat) then - 1 else 1)"

text \<open>Decimal output, \<^verbatim>\<open>%d\<close>.\<close>

fun decimal :: "nat \<Rightarrow> string" where
  "decimal n = (if n < 10 then [char_of (48 + n)] else decimal (n div 10) @ [char_of (48 + n mod 10)])"

declare decimal.simps [simp del]

abbreviation newline :: char where "newline \<equiv> CHR 0x0A"

definition print_d :: "int \<Rightarrow> string" where
  "print_d i = (if i < 0 then CHR ''-'' # decimal (nat (- i)) else decimal (nat i))"

lemma digit_char: "k < 10 \<Longrightarrow> isdigit (char_of (48 + k)) \<and> (of_char (char_of (48 + k) :: char) :: int) = 48 + int k"
proof -
  assume k: "k < 10"
  then have n: "of_char (char_of (48 + k) :: char) = 48 + k" by (simp add: of_char_of)
  have "(of_char c :: int) = int (of_char c)" for c :: char by (rule of_nat_of_char [symmetric])
  then show ?thesis using k by (simp only: n isdigit_def) simp
qed

lemma digits_val_snoc: "\<forall>c \<in> set ds. isdigit c \<Longrightarrow> isdigit c \<Longrightarrow> digits_val a (ds @ [c]) = 10 * digits_val a ds + (of_char c - 48)"
  by (induction ds arbitrary: a) auto

lemma decimal_digits: "(\<forall>c \<in> set (decimal n). isdigit c) \<and> decimal n \<noteq> [] \<and> digits_val 0 (decimal n) = int n"
proof (induction n rule: decimal.induct)
  case (1 n)
  show ?case
  proof (cases "n < 10")
    case True
    then show ?thesis using digit_char [of n] by (simp add: decimal.simps [of n])
  next
    case False
    then have IH: "\<forall>c \<in> set (decimal (n div 10)). isdigit c" "digits_val 0 (decimal (n div 10)) = int (n div 10)" using 1 by auto
    have d: "isdigit (char_of (48 + n mod 10))" "(of_char (char_of (48 + n mod 10) :: char) :: int) = 48 + int (n mod 10)"
      using digit_char [of "n mod 10"] by simp_all
    have "digits_val 0 (decimal n) = 10 * int (n div 10) + int (n mod 10)"
      using False digits_val_snoc [OF IH(1) d(1), of 0] IH(2) d(2) by (simp add: decimal.simps [of n])
    also have "\<dots> = int n" by (metis mult_div_mod_eq of_nat_add of_nat_mult of_nat_numeral)
    finally show ?thesis using False IH(1) d(1) by (simp add: decimal.simps [of n])
  qed
qed

lemma digit_not_space: "isdigit c \<Longrightarrow> \<not> isspace c \<and> c \<noteq> CHR ''-'' \<and> c \<noteq> CHR ''+''"
  by (auto simp: isdigit_def isspace_def)

lemma those_map_Some: "(\<And>x. x \<in> set xs \<Longrightarrow> f x = Some (g x)) \<Longrightarrow> those (map f xs) = Some (map g xs)"
  by (induction xs) auto

lemma foldM_append: "foldM f (xs @ ys) s = foldM f xs s \<bind> foldM f ys"
  by (induction xs arbitrary: s) (auto split: bind_splits)

text \<open>The invariant rule for \<^const>\<open>foldM\<close>: \<open>I xs s\<close> relates the values done to the state.\<close>

lemma foldM_invariant:
  assumes "I [] s"
    and "\<And>done x rest t. xs = done @ x # rest \<Longrightarrow> I done t \<Longrightarrow> \<exists>t'. f x t = Some t' \<and> I (done @ [x]) t'"
  shows "\<exists>t. foldM f xs s = Some t \<and> I xs t"
  using assms
proof (induction xs rule: rev_induct)
  case (snoc x xs)
  have "\<exists>t. foldM f xs s = Some t \<and> I xs t"
    using snoc.prems by (intro snoc.IH) auto
  then obtain t where t: "foldM f xs s = Some t" "I xs t" by blast
  then show ?case using snoc.prems(2) [of xs x "[]" t] by (auto simp: foldM_append)
qed simp

lemma c_int_id [simp]: "INT_MIN \<le> i \<Longrightarrow> i \<le> INT_MAX \<Longrightarrow> c_int i = Some i"
  by (simp add: c_int_def)

end
