(* ===== verification/Bits.thy ===== *)
theory Bits
  imports Prelude
begin

text \<open>
  The integer puzzles of \<^verbatim>\<open>src/data/bits.c\<close> and their reference solutions in
  \<^verbatim>\<open>src/data/tests.c\<close>. A C \<^verbatim>\<open>int\<close> is a 32-bit word: the file's coding rules fix
  two's complement, 32 bits and an arithmetic right shift, so \<^verbatim>\<open>>>\<close> is
  \<^const>\<open>signed_drop_bit\<close> and \<^verbatim>\<open><<\<close> is \<^const>\<open>push_bit\<close>.
\<close>

unbundle bit_operations_syntax

section \<open>The solutions\<close>

definition c_not :: "int32 \<Rightarrow> int32" where
  "c_not x = (if x = 0 then 1 else 0)"

definition bit_and :: "int32 \<Rightarrow> int32 \<Rightarrow> int32" where
  "bit_and x y = NOT (NOT x OR NOT y)"

definition negate :: "int32 \<Rightarrow> int32" where
  "negate x = NOT x + 1"

definition is_equal :: "int32 \<Rightarrow> int32 \<Rightarrow> int32" where
  "is_equal x y = c_not (x + NOT y + 1)"

definition div_pwr_2 :: "int32 \<Rightarrow> int32 \<Rightarrow> int32" where
  "div_pwr_2 x n =
     (let sign = signed_drop_bit 31 x
      in signed_drop_bit (unat n) (x + (sign AND (push_bit (unat n) 1 + NOT 1 + 1))))"

definition conditional :: "int32 \<Rightarrow> int32 \<Rightarrow> int32 \<Rightarrow> int32" where
  "conditional x y z =
     (let i = NOT (c_not (c_not x)) + 1
      in (NOT i AND z) OR (i AND y))"

definition replaceByte :: "int32 \<Rightarrow> int32 \<Rightarrow> int32 \<Rightarrow> int32" where
  "replaceByte x n c =
     (let i = push_bit 3 n;
          mask = push_bit (unat i) 0xff
      in (x AND NOT mask) OR push_bit (unat i) c)"

definition add_ok :: "int32 \<Rightarrow> int32 \<Rightarrow> int32" where
  "add_ok x y =
     (let signx = signed_drop_bit 31 x;
          signy = signed_drop_bit 31 y;
          signa = signed_drop_bit 31 (x + y)
      in c_not ((signa + NOT signy + 1) AND (signa + NOT signx + 1)))"

definition abs_val :: "int32 \<Rightarrow> int32" where
  "abs_val x =
     (let sign = signed_drop_bit 31 x
      in (x XOR sign) + NOT sign + 1)"

definition bang :: "int32 \<Rightarrow> int32" where
  "bang x =
     (let mask = signed_drop_bit 31 (x OR (NOT x + 1))
      in mask + 1)"

section \<open>The reference functions\<close>

definition test_bit_and :: "int32 \<Rightarrow> int32 \<Rightarrow> int32" where
  "test_bit_and x y = x AND y"

definition test_negate :: "int32 \<Rightarrow> int32" where
  "test_negate x = - x"

definition test_is_equal :: "int32 \<Rightarrow> int32 \<Rightarrow> int32" where
  "test_is_equal x y = (if x = y then 1 else 0)"

definition test_div_pwr_2 :: "int32 \<Rightarrow> int32 \<Rightarrow> int32" where
  "test_div_pwr_2 x n =
     (let p2n = push_bit (unat n) 1 :: int32
      in word_of_int (sint x sdiv sint p2n))"

definition test_conditional :: "int32 \<Rightarrow> int32 \<Rightarrow> int32 \<Rightarrow> int32" where
  "test_conditional x y z = (if x \<noteq> 0 then y else z)"

definition test_replaceByte :: "int32 \<Rightarrow> int32 \<Rightarrow> int32 \<Rightarrow> int32" where
  "test_replaceByte x n c =
     (if n = 0 then (x AND 0xFFFFFF00) OR c
      else if n = 1 then (x AND 0xFFFF00FF) OR push_bit 8 c
      else if n = 2 then (x AND 0xFF00FFFF) OR push_bit 16 c
      else (x AND 0x00FFFFFF) OR push_bit 24 c)"

definition test_add_ok :: "int32 \<Rightarrow> int32 \<Rightarrow> int32" where
  "test_add_ok x y =
     (let lsum = sint x + sint y
      in if lsum = sint (word_of_int lsum :: int32) then 1 else 0)"

definition test_abs_val :: "int32 \<Rightarrow> int32" where
  "test_abs_val x = (if x <s 0 then - x else x)"

definition test_bang :: "int32 \<Rightarrow> int32" where
  "test_bang x = (if x = 0 then 1 else 0)"

section \<open>Each solution against its reference\<close>

lemma not_plus_one: "NOT x + 1 = - (x :: int32)"
  by (simp add: minus_eq_not_plus_1)

lemma bit_and_ok: "bit_and x y = test_bit_and x y"
  by (simp add: bit_and_def test_bit_and_def)

lemma negate_ok: "negate x = test_negate x"
  by (simp add: negate_def test_negate_def not_plus_one)

lemma is_equal_ok: "is_equal x y = test_is_equal x y"
  by (simp add: is_equal_def test_is_equal_def c_not_def not_plus_one add.assoc)

lemma conditional_ok: "conditional x y z = test_conditional x y z"
  by (simp add: conditional_def test_conditional_def c_not_def not_plus_one)

lemma abs_val_ok: "abs_val x = test_abs_val x"
  by (simp add: abs_val_def test_abs_val_def sar_31 not_plus_one word_sless_alt Let_def)

lemma bang_ok: "bang x = test_bang x"
proof -
  have "sint x < 0 \<or> sint (- x) < 0" if "x \<noteq> 0"
  proof -
    have "sint x \<noteq> 0" using that by (simp add: signed_eq_0_iff)
    then show ?thesis
      using sint_add_cases [of x "- x"] sint_bounds [of x] sint_bounds [of "- x"]
      by (auto simp: Let_def split: if_splits)
  qed
  then have "sint (x OR - x) < 0" if "x \<noteq> 0"
    using that by (simp add: bit_or_iff flip: sign_bit)
  then show ?thesis
    by (auto simp: bang_def test_bang_def not_plus_one sar_31 Let_def)
qed

lemma add_ok_ok: "add_ok x y = test_add_ok x y"
proof -
  have "word_of_int (sint x + sint y) = x + y" by simp
  then show ?thesis
    using sint_bounds [of x] sint_bounds [of y]
    by (auto simp: add_ok_def test_add_ok_def sar_31 c_not_def Let_def not_plus_one add.assoc sint_add_cases split: if_splits)
qed

lemma byte_masks: "(-256 :: int32) = 0xFFFFFF00"  "(-65281 :: int32) = 0xFFFF00FF" "(-16711681 :: int32) = 0xFF00FFFF" "(- 4278190081 :: int32) = 0x00FFFFFF"
  by simp_all

lemma replaceByte_ok: "n \<le> 3 \<Longrightarrow>  replaceByte x n c = test_replaceByte x n c"
proof -
  assume "n \<le> 3"
  then have "n = 0 \<or> n = 1 \<or> n = 2 \<or> n = 3" by unat_arith
  then show ?thesis
    by (elim disjE) (simp_all add: replaceByte_def test_replaceByte_def byte_masks)
qed

lemma div_pwr_2_ok: "n \<le> 30 \<Longrightarrow> div_pwr_2 x n = test_div_pwr_2 x n"
proof -
  assume "n \<le> 30"
  then have n: "unat n \<le> 30" by unat_arith
  define d :: int where "d = 2 ^ unat n"
  have d: "1 \<le> d" "d \<le> 1073741824"
    using pow2_le [OF n] by (simp_all add: d_def)
  have p: "sint (2 ^ unat n - 1 :: int32) = d - 1" by (simp add: pow2_m1 n d_def)
  show ?thesis
  proof (cases "sint x < 0")
    case True
    then have s: "sint (x + (2 ^ unat n - 1)) = sint x + (d - 1)"
      using d sint_bounds [of x] by (simp add: sint_add_cases p)
    have "sint x sdiv d = - ((- sint x) div d)"
      using True d by (simp add: signed_divide_int_def)
    also have "\<dots> = (sint x + (d - 1)) div d"
      using True d by (simp add: div_round_up_neg)
    finally show ?thesis using True s
      by (simp add: div_pwr_2_def test_div_pwr_2_def sar_31 pow2_word n not_plus_one d_def sar_word [of "unat n"] add.assoc)
  next
    case False
    then have "sint x sdiv d = sint x div d"
      using d by (cases "sint x = 0") (simp_all add: signed_divide_int_def)
    then show ?thesis using False
      by (simp add: div_pwr_2_def test_div_pwr_2_def sar_31 pow2_word n d_def sar_word [of "unat n"])
  qed
qed

section \<open>What the solutions compute\<close>

text \<open>
  div_pwr_2 divides by a power of two rounding towards zero: for every 32-bit x and every
  shift between 0 and 30 the result, read as a signed number, is the truncated quotient.
\<close>

theorem div_pwr_2_truncates:
  assumes "0 \<le> sint n" and "sint n \<le> 30"
  shows "sint (div_pwr_2 x n) = sint x sdiv 2 ^ nat (sint n)"
proof -
  have u: "unat n = nat (sint n)"
    using assms sint_bounds [of n] by (simp add: unat_eq_nat_uint uint_sint take_bit_int_eq_self)
  then have n: "n \<le> 30" "unat n \<le> 30" using assms by (simp_all add: word_le_nat_alt)
  have d: "1 \<le> (2::int) ^ unat n" "0 < (2::int) ^ unat n" by simp_all
  have "INT_MIN * 2 ^ unat n \<le> sint x" "sint x \<le> INT_MAX * 2 ^ unat n"
    using d sint_bounds [of x] by linarith+
  note sdiv_between [OF d(2) this]
  then show ?thesis
    by (simp add: div_pwr_2_ok n test_div_pwr_2_def pow2_word sint_of_int_id flip: u)
qed

theorem div_pwr_2_truncates_witness:
  "sint (div_pwr_2 (- 33) 4) = - 33 sdiv 2 ^ nat (sint (4 :: int32))"
  using div_pwr_2_truncates [of 4 "- 33"] by simp

text \<open>
  add_ok answers 1 exactly when the mathematical sum of the two signed arguments fits
  into 32 bits, and 0 when it overflows.
\<close>

theorem add_ok_detects_overflow:
  "add_ok x y = (if INT_MIN \<le> sint x + sint y \<and> sint x + sint y \<le> INT_MAX then 1 else 0)"
  using sint_bounds [of x] sint_bounds [of y]
  by (auto simp: add_ok_ok test_add_ok_def sint_add_cases Let_def)

text \<open>
  replaceByte writes the given byte at the given place and changes no other bit: bit i
  of the result is a bit of c inside byte n and the bit of x outside it.
\<close>

theorem replaceByte_bits:
  assumes "n \<le> 3" and "c \<le> 255"
  shows "bit (replaceByte x n c) i \<longleftrightarrow>
    (if 8 * unat n \<le> i \<and> i < 8 * unat n + 8 then bit c (i - 8 * unat n) else bit x i)"
proof -
  have "take_bit 8 c = c"
    using assms(2) by (simp add: take_bit_eq_mod word_arith_nat_mod word_le_nat_alt)
  then have c: "bit c j \<Longrightarrow> j < 8" for j by (metis bit_take_bit_iff)
  have m: "(255 :: int32) = mask 8" by (simp add: mask_eq_exp_minus_1)
  have "unat n \<le> 3" using assms(1) by (simp add: word_le_nat_alt)
  then have i: "unat (push_bit 3 n) = 8 * unat n"
    by (simp add: push_bit_eq_mult unat_word_ariths)
  show ?thesis
    using \<open>unat n \<le> 3\<close> c [of "i - 8 * unat n"] bit_imp_le_length [of x i]
    unfolding replaceByte_def Let_def i m by (auto simp: bit_simps)
qed

theorem replaceByte_bits_witness:
  "bit (replaceByte 0x12345678 1 0xab) 8 \<and> \<not> bit (replaceByte 0x12345678 1 0xab) 10"
  using replaceByte_bits [of 1 "0xab" "0x12345678" 8] replaceByte_bits [of 1 "0xab" "0x12345678" 10]
  by simp

end
