(* ===== verification/Btest.thy ===== *)
theory Btest
  imports Bits
begin

text \<open>
  The test harness \<^verbatim>\<open>src/data/btest.c\<close> with the table of puzzles of
  \<^verbatim>\<open>src/data/decl.c\<close>: the generator of test values, the runner of one puzzle and the
  runner of the whole table. \<^verbatim>\<open>rand()\<close> is an argument: any function from the number of
  the call to an \<^verbatim>\<open>int\<close> between 0 and \<^verbatim>\<open>RAND_MAX\<close>. The weights of
  \<^verbatim>\<open>random_val\<close> are computed exactly instead of in \<^verbatim>\<open>double\<close>. Printing is left out.
  \<^const>\<open>None\<close> stands for \<^verbatim>\<open>exit(1)\<close> on a configuration error, for a call through a
  function pointer of the wrong arity, for the overflow of the loop counter in the
  exhaustive case and for running past the end of the table.
\<close>

unbundle bit_operations_syntax

section \<open>The harness\<close>

datatype funct =
    Funct0 int32
  | Funct1 "int32 \<Rightarrow> int32"
  | Funct2 "int32 \<Rightarrow> int32 \<Rightarrow> int32"
  | Funct3 "int32 \<Rightarrow> int32 \<Rightarrow> int32 \<Rightarrow> int32"

record test_rec =
  name :: string
  solution_funct :: "funct option"
  test_funct :: "funct option"
  args :: int
  ops :: string
  op_limit :: int
  rating :: int
  arg_ranges :: "(int32 \<times> int32) list"

record btest_config =
  has_arg :: "nat \<Rightarrow> bool"
  argval :: "nat \<Rightarrow> uint32"
  test_fname :: "string option"
  global_rating :: int
  timeout_limit :: int

definition RAND_MAX :: int where
  "RAND_MAX = 2147483647"

definition TEST_RANGE :: nat where
  "TEST_RANGE = 2097152"

definition MAX_TEST_VALS :: int32 where
  "MAX_TEST_VALS = 14 * 2097152"

definition random_val :: "int \<Rightarrow> int32 \<Rightarrow> int32 \<Rightarrow> int32" where
  "random_val r mn mx =
     word_of_int ((sint mn * (RAND_MAX - r) + sint mx * r) sdiv RAND_MAX)"

definition gen_float_vals :: "int32 list" where
  "gen_float_vals =
     (let smallest_norm = 0x00800000; one = 0x3f800000; largest_norm = 0x7f000000;
          inf = 0x7f800000; nan = 0x7fc00000; sign = 0x80000000
      in concat (map (\<lambda>k. let i = of_nat k in
           [i, sign OR i,
            smallest_norm + i, smallest_norm - i,
            sign OR (smallest_norm + i), sign OR (smallest_norm - i),
            one + i, one - i, sign OR (one + i), sign OR (one - i),
            largest_norm - i, sign OR (largest_norm - i),
            push_bit 10 i]) [0..<2097152])
         @ [inf, sign OR inf, nan, sign OR nan])"

definition gen_sample :: "(nat \<Rightarrow> int) \<Rightarrow> int32 \<Rightarrow> int32 \<Rightarrow> nat \<Rightarrow> int32 list" where
  "gen_sample rnd mn mx k =
     (let i = of_nat k in
        [mn + i, mx - i]
        @ (if mn \<le>s i \<and> i \<le>s mx then [i] else [])
        @ (if mn \<le>s - i \<and> - i \<le>s mx then [- i] else [])
        @ [random_val (rnd k) mn mx])"

definition gen_vals ::
  "btest_config \<Rightarrow> (nat \<Rightarrow> int) \<Rightarrow> int32 \<Rightarrow> int32 \<Rightarrow> nat \<Rightarrow> nat \<Rightarrow> int32 list option" where
  "gen_vals cfg rnd mn mx test_range arg =
     (if has_arg cfg arg then Some [argval cfg arg]
      else if mn = 1 \<and> mx = 1 then Some gen_float_vals
      else if mx - MAX_TEST_VALS \<le>s mn then
        (if sint mx = INT_MAX then None
         else Some (map word_of_int [sint mn..sint mx]))
      else Some (concat (map (gen_sample rnd mn mx) [0..<test_range])))"

definition c_ne :: "int32 \<Rightarrow> int32 \<Rightarrow> int" where
  "c_ne r rt = (if r \<noteq> rt then 1 else 0)"

fun test_0_arg :: "funct \<Rightarrow> funct \<Rightarrow> int option" where
  "test_0_arg (Funct0 r) (Funct0 rt) = Some (c_ne r rt)"
| "test_0_arg _ _ = None"

fun test_1_arg :: "funct \<Rightarrow> funct \<Rightarrow> int32 \<Rightarrow> int option" where
  "test_1_arg (Funct1 f) (Funct1 ft) a = Some (c_ne (f a) (ft a))"
| "test_1_arg _ _ _ = None"

fun test_2_arg :: "funct \<Rightarrow> funct \<Rightarrow> int32 \<Rightarrow> int32 \<Rightarrow> int option" where
  "test_2_arg (Funct2 f) (Funct2 ft) a b = Some (c_ne (f a b) (ft a b))"
| "test_2_arg _ _ _ _ = None"

fun test_3_arg :: "funct \<Rightarrow> funct \<Rightarrow> int32 \<Rightarrow> int32 \<Rightarrow> int32 \<Rightarrow> int option" where
  "test_3_arg (Funct3 f) (Funct3 ft) a b c = Some (c_ne (f a b c) (ft a b c))"
| "test_3_arg _ _ _ _ _ = None"

text \<open>
  One \<^verbatim>\<open>for\<close> loop over test values, with the running error count; the function returns
  out of all enclosing loops as soon as the count is not zero.
\<close>

fun scan_vals :: "('a \<Rightarrow> int \<Rightarrow> int option) \<Rightarrow> 'a list \<Rightarrow> int \<Rightarrow> int option" where
  "scan_vals body [] errors = Some errors"
| "scan_vals body (a # as) errors =
     do { errors' \<leftarrow> body a errors;
          if errors' \<noteq> 0 then Some errors' else scan_vals body as errors' }"

definition arg_test_range :: "int \<Rightarrow> nat" where
  "arg_test_range n =
     (if n = 1 then TEST_RANGE
      else if n = 2 then 1448 \<comment> \<open>\<open>(int) pow(2097152.0, 0.5)\<close>\<close>
      else 127) \<comment> \<open>\<open>(int) pow(2097152.0, 0.333)\<close>\<close>"

fun gen_all_vals ::
  "btest_config \<Rightarrow> (nat \<Rightarrow> nat \<Rightarrow> int) \<Rightarrow> nat \<Rightarrow> (int32 \<times> int32) list \<Rightarrow> nat \<Rightarrow> nat
     \<Rightarrow> int32 list list option" where
  "gen_all_vals cfg rnd r rs i 0 = Some []"
| "gen_all_vals cfg rnd r [] i (Suc n) = None"
| "gen_all_vals cfg rnd r ((mn, mx) # rs) i (Suc n) =
     do { vs \<leftarrow> gen_vals cfg (rnd i) mn mx r i;
          vss \<leftarrow> gen_all_vals cfg rnd r rs (Suc i) n;
          Some (vs # vss) }"

definition run_loops :: "funct \<Rightarrow> funct \<Rightarrow> int32 list list \<Rightarrow> int option" where
  "run_loops f ft vss =
     (case vss of
        [] \<Rightarrow> test_0_arg f ft
      | [v1] \<Rightarrow>
          scan_vals (\<lambda>a errors. map_option ((+) errors) (test_1_arg f ft a)) v1 0
      | [v1, v2] \<Rightarrow>
          scan_vals (\<lambda>a. scan_vals (\<lambda>b errors.
            map_option ((+) errors) (test_2_arg f ft a b)) v2) v1 0
      | [v1, v2, v3] \<Rightarrow>
          scan_vals (\<lambda>a. scan_vals (\<lambda>b. scan_vals (\<lambda>c errors.
            map_option ((+) errors) (test_3_arg f ft a b c)) v3) v2) v1 0
      | _ \<Rightarrow> None)"

definition test_function ::
  "btest_config \<Rightarrow> (nat \<Rightarrow> nat \<Rightarrow> int) \<Rightarrow> bool \<Rightarrow> test_rec \<Rightarrow> int option" where
  "test_function cfg rnd alarm_fires t =
     (if args t < 0 \<or> args t > 3 then None
      else do {
        vss \<leftarrow> gen_all_vals cfg rnd (max 1 (arg_test_range (args t))) (arg_ranges t) 0
                 (nat (args t));
        if timeout_limit cfg > 0 \<and> alarm_fires then Some 1
        else do {
          f \<leftarrow> solution_funct t;
          ft \<leftarrow> test_funct t;
          run_loops f ft vss } })"

fun run_tests ::
  "btest_config \<Rightarrow> (nat \<Rightarrow> nat \<Rightarrow> nat \<Rightarrow> int) \<Rightarrow> (nat \<Rightarrow> bool) \<Rightarrow> nat \<Rightarrow> test_rec list
     \<Rightarrow> int \<times> int \<times> int \<Rightarrow> (int \<times> int \<times> int) option" where
  "run_tests cfg rnd alarm_fires i [] acc = None"
| "run_tests cfg rnd alarm_fires i (t # ts) (errors, points, max_points) =
     (if solution_funct t = None then Some (errors, points, max_points)
      else if test_fname cfg = None \<or> test_fname cfg = Some (name t) then
        do { terrors \<leftarrow> test_function cfg (rnd i) (alarm_fires i) t;
             let r = (if global_rating cfg \<noteq> 0 then global_rating cfg else rating t);
                 tpoints = (if terrors = 0 then r else 0)
             in run_tests cfg rnd alarm_fires (Suc i) ts
                  (errors + terrors, points + tpoints, max_points + r) }
      else run_tests cfg rnd alarm_fires (Suc i) ts (errors, points, max_points))"

section \<open>The table of puzzles\<close>

definition TMin :: int32 where "TMin = 0x80000000"
definition TMax :: int32 where "TMax = 0x7fffffff"

definition any_int :: "int32 \<times> int32" where
  "any_int = (TMin, TMax)"

definition puzzle :: "string \<Rightarrow> funct \<Rightarrow> funct \<Rightarrow> int \<Rightarrow> string \<Rightarrow> int \<Rightarrow> int
    \<Rightarrow> (int32 \<times> int32) list \<Rightarrow> test_rec" where
  "puzzle n f ft a os lim r rs =
     \<lparr>name = n, solution_funct = Some f, test_funct = Some ft, args = a, ops = os,
      op_limit = lim, rating = r, arg_ranges = rs\<rparr>"

definition test_set :: "test_rec list" where
  "test_set =
     [puzzle ''bit_and'' (Funct2 bit_and) (Funct2 test_bit_and) 2 ''| ~'' 8 1
        [any_int, any_int, any_int],
      puzzle ''negate'' (Funct1 negate) (Funct1 test_negate) 1 ''! ~ & ^ | + << >>'' 5 2
        [any_int, any_int, any_int],
      puzzle ''is_equal'' (Funct2 is_equal) (Funct2 test_is_equal) 2 ''! ~ & ^ | + << >>'' 5 2
        [any_int, any_int, any_int],
      puzzle ''div_pwr_2'' (Funct2 div_pwr_2) (Funct2 test_div_pwr_2) 2
        ''! ~ & ^ | + << >>'' 15 2 [any_int, (0, 30), any_int],
      puzzle ''conditional'' (Funct3 conditional) (Funct3 test_conditional) 3
        ''! ~ & ^ | << >>'' 16 3 [any_int, any_int, any_int],
      puzzle ''replaceByte'' (Funct3 replaceByte) (Funct3 test_replaceByte) 3
        ''! ~ & ^ | + << >>'' 10 3 [any_int, (0, 3), (0, 255)],
      puzzle ''add_ok'' (Funct2 add_ok) (Funct2 test_add_ok) 2 ''! ~ & ^ | + << >>'' 20 3
        [any_int, any_int, any_int],
      puzzle ''abs_val'' (Funct1 abs_val) (Funct1 test_abs_val) 1 ''! ~ & ^ | + << >>'' 6 4
        [(- TMax, TMax), any_int, any_int],
      puzzle ''bang'' (Funct1 bang) (Funct1 test_bang) 1 ''~ & ^ | + << >>'' 12 4
        [any_int, any_int, any_int],
      \<lparr>name = '''', solution_funct = None, test_funct = None, args = 0, ops = '''',
       op_limit = 0, rating = 0, arg_ranges = [(0, 0), (0, 0), (0, 0)]\<rparr>]"

section \<open>Every generated value lies in the declared range\<close>

definition in_range :: "int32 \<times> int32 \<Rightarrow> int32 \<Rightarrow> bool" where
  "in_range r v \<longleftrightarrow> fst r \<le>s v \<and> v \<le>s snd r"

text \<open>
  Ranges for which the generator is defined and covers its purpose: not the floating-point
  marker, ordered, no wrap in \<^verbatim>\<open>max - MAX_TEST_VALS\<close>, and the exhaustive loop can end.
\<close>

definition good_range :: "int32 \<times> int32 \<Rightarrow> bool" where
  "good_range r \<longleftrightarrow>
     r \<noteq> (1, 1) \<and> fst r \<le>s snd r \<and> INT_MIN \<le> sint (snd r) - 29360128
     \<and> (sint (snd r) - 29360128 \<le> sint (fst r) \<longrightarrow> sint (snd r) < INT_MAX)"

definition rand_ok :: "btest_config \<Rightarrow> (nat \<Rightarrow> nat \<Rightarrow> int) \<Rightarrow> bool" where
  "rand_ok cfg rnd \<longleftrightarrow>
     (\<forall>j. \<not> has_arg cfg j) \<and> (\<forall>j k. 0 \<le> rnd j k \<and> rnd j k \<le> RAND_MAX)"

definition vals_in_ranges :: "(int32 \<times> int32) list \<Rightarrow> int32 list list \<Rightarrow> bool" where
  "vals_in_ranges = list_all2 (\<lambda>rg vs. \<forall>v \<in> set vs. in_range rg v)"

lemma random_val_in_range:
  assumes "0 \<le> r" "r \<le> RAND_MAX" "mn \<le>s mx"
  shows "in_range (mn, mx) (random_val r mn mx)"
proof -
  let ?v = "sint mn * (RAND_MAX - r) + sint mx * r"
  have le: "sint mn \<le> sint mx" using assms(3) by (simp add: word_sle_eq)
  have R: "0 < RAND_MAX" by (simp add: RAND_MAX_def)
  have "sint mn * r \<le> sint mx * r" "sint mn * (RAND_MAX - r) \<le> sint mx * (RAND_MAX - r)"
    using assms(1,2) le by (simp_all add: mult_right_mono)
  then have "sint mn * RAND_MAX \<le> ?v" "?v \<le> sint mx * RAND_MAX"
    by (simp_all add: algebra_simps)
  from sdiv_between [OF R this] show ?thesis
    using sint_bounds [of mn] sint_bounds [of mx]
    by (simp add: in_range_def random_val_def word_sle_eq sint_of_int_id)
qed

lemma gen_sample_in_range:
  assumes "sint mn < sint mx - 29360128" "k < 2097152" "0 \<le> rnd k" "rnd k \<le> RAND_MAX"
    and "v \<in> set (gen_sample rnd mn mx k)"
  shows "in_range (mn, mx) v"
proof -
  have le: "mn \<le>s mx" using assms(1) by (simp add: word_sle_eq)
  have k: "sint (of_nat k :: int32) = int k" by (rule sint_of_nat_small [OF assms(2)])
  have a: "sint (mn + of_nat k) = sint mn + int k"
    using assms(1,2) sint_bounds [of mn] sint_bounds [of mx] by (simp add: sint_add_cases k)
  have b: "sint (mx - of_nat k) = sint mx - int k"
    using assms(1,2) sint_bounds [of mn] sint_bounds [of mx] by (subst sint_diff_id) (simp_all add: k)
  show ?thesis
    using assms random_val_in_range [OF assms(3,4) le]
    by (auto simp: gen_sample_def in_range_def word_sle_eq a b Let_def split: if_splits)
qed

lemma gen_vals_in_range:
  assumes "good_range (mn, mx)" "\<not> has_arg cfg arg" "r \<le> 2097152"
    and "\<forall>k. 0 \<le> rnd k \<and> rnd k \<le> RAND_MAX"
  shows "\<exists>vs. gen_vals cfg rnd mn mx r arg = Some vs \<and> (\<forall>v \<in> set vs. in_range (mn, mx) v)"
proof -
  have s: "sint (mx - MAX_TEST_VALS) = sint mx - 29360128"
    using assms(1) sint_bounds [of mx] by (subst sint_diff_id) (simp_all add: MAX_TEST_VALS_def good_range_def)
  show ?thesis
  proof (cases "sint mx - 29360128 \<le> sint mn")
    case True
    then show ?thesis using assms(1,2) sint_bounds [of mn]
      by (auto simp: gen_vals_def word_sle_eq s good_range_def in_range_def sint_of_int_id)
  next
    case False
    then have lt: "sint mn < sint mx - 29360128" by simp
    have "in_range (mn, mx) v" if "v \<in> set (gen_sample rnd mn mx k)" "k < r" for k v
      using gen_sample_in_range [OF lt, of k rnd v] that assms(3,4) by auto
    with False assms(1,2) show ?thesis
      by (auto simp: gen_vals_def word_sle_eq s good_range_def)
  qed
qed

lemmas harness_simps =
  test_function_def puzzle_def run_loops_def arg_test_range_def TEST_RANGE_def c_ne_def

lemma gen_all_vals_in_range:
  assumes "\<forall>rg \<in> set (take n rs). good_range rg" "n \<le> length rs"
    "rand_ok cfg rnd" "r \<le> 2097152"
  shows "\<exists>vss. gen_all_vals cfg rnd r rs i n = Some vss \<and> vals_in_ranges (take n rs) vss"
  using assms unfolding vals_in_ranges_def rand_ok_def
proof (induction cfg rnd r rs i n rule: gen_all_vals.induct)
  case (3 cfg rnd r mn mx rs i n)
  obtain vs where vs: "gen_vals cfg (rnd i) mn mx r i = Some vs" "\<forall>v \<in> set vs. in_range (mn, mx) v"
    using gen_vals_in_range [of mn mx cfg i r "rnd i"] "3.prems" by auto
  moreover obtain vss where "gen_all_vals cfg rnd r rs (Suc i) n = Some vss"
    "list_all2 (\<lambda>rg vs. \<forall>v \<in> set vs. in_range rg v) (take n rs) vss"
    using "3.IH" [OF vs(1)] "3.prems" by auto
  ultimately show ?case by auto
qed auto

lemma scan_vals_zero:
  "(\<And>a. a \<in> set as \<Longrightarrow> body a 0 = Some 0) \<Longrightarrow> scan_vals body as 0 = Some 0"
  by (induction as) auto


section \<open>What the harness relies on: the two functions agree on the range\<close>

text \<open>
  One interface per arity: a puzzle is a solution, a reference function and the ranges of
  its arguments, and its law is that the two functions agree on those ranges. The harness
  then reports no error, for every sequence of random numbers.
\<close>

locale puzzle1 =
  fixes f ft :: "int32 \<Rightarrow> int32" and r1 :: "int32 \<times> int32"
  assumes good1: "good_range r1"
    and agree1: "in_range r1 a \<Longrightarrow> f a = ft a"
begin

lemma no_errors:
  assumes "rand_ok cfg rnd"
  shows "test_function cfg rnd False (puzzle nm (Funct1 f) (Funct1 ft) 1 os lim rt [r1, r2, r3])
           = Some 0"
proof -
  obtain vss where "gen_all_vals cfg rnd TEST_RANGE [r1, r2, r3] 0 1 = Some vss"
    "vals_in_ranges [r1] vss"
    using gen_all_vals_in_range [of 1 "[r1, r2, r3]" cfg rnd TEST_RANGE 0] assms good1
    by (auto simp: TEST_RANGE_def)
  then show ?thesis
    by (auto simp: harness_simps agree1 vals_in_ranges_def list_all2_Cons1 intro!: scan_vals_zero)
qed

end

locale puzzle2 =
  fixes f ft :: "int32 \<Rightarrow> int32 \<Rightarrow> int32" and r1 r2 :: "int32 \<times> int32"
  assumes good2: "good_range r1" "good_range r2"
    and agree2: "in_range r1 a \<Longrightarrow> in_range r2 b \<Longrightarrow> f a b = ft a b"
begin

lemma no_errors:
  assumes "rand_ok cfg rnd"
  shows "test_function cfg rnd False (puzzle nm (Funct2 f) (Funct2 ft) 2 os lim rt [r1, r2, r3])
           = Some 0"
proof -
  obtain vss where "gen_all_vals cfg rnd 1448 [r1, r2, r3] 0 2 = Some vss"
    "vals_in_ranges [r1, r2] vss"
    using gen_all_vals_in_range [of 2 "[r1, r2, r3]" cfg rnd 1448 0] assms good2
    by (auto simp: numeral_2_eq_2)
  then show ?thesis
    by (auto simp: harness_simps agree2 vals_in_ranges_def list_all2_Cons1 intro!: scan_vals_zero)
qed

end

locale puzzle3 =
  fixes f ft :: "int32 \<Rightarrow> int32 \<Rightarrow> int32 \<Rightarrow> int32" and r1 r2 r3 :: "int32 \<times> int32"
  assumes good3: "good_range r1" "good_range r2" "good_range r3"
    and agree3: "in_range r1 a \<Longrightarrow> in_range r2 b \<Longrightarrow> in_range r3 c \<Longrightarrow> f a b c = ft a b c"
begin

lemma no_errors:
  assumes "rand_ok cfg rnd"
  shows "test_function cfg rnd False (puzzle nm (Funct3 f) (Funct3 ft) 3 os lim rt [r1, r2, r3])
           = Some 0"
proof -
  obtain vss where "gen_all_vals cfg rnd 127 [r1, r2, r3] 0 3 = Some vss"
    "vals_in_ranges [r1, r2, r3] vss"
    using gen_all_vals_in_range [of 3 "[r1, r2, r3]" cfg rnd 127 0] assms good3
    by (auto simp: numeral_3_eq_3)
  then show ?thesis
    by (auto simp: harness_simps agree3 vals_in_ranges_def list_all2_Cons1 intro!: scan_vals_zero)
qed

end

section \<open>The shipped puzzles\<close>

lemma good_any_int [simp]: "good_range any_int"
  by (simp add: good_range_def any_int_def TMin_def TMax_def word_sle_eq)

interpretation bit_and: puzzle2 bit_and test_bit_and any_int any_int
  by unfold_locales (simp_all add: bit_and_ok)

interpretation negate: puzzle1 negate test_negate any_int
  by unfold_locales (simp_all add: negate_ok)

interpretation is_equal: puzzle2 is_equal test_is_equal any_int any_int
  by unfold_locales (simp_all add: is_equal_ok)

lemma in_range_0: "sint hi \<ge> 0 \<Longrightarrow> in_range (0, hi) n \<Longrightarrow> n \<le> hi"
  using sint_bounds [of n] sint_bounds [of hi]
  by (auto simp: in_range_def word_sle_eq word_le_def uint_sint take_bit_int_eq_self)

lemma good_small_ranges [simp]:
  "good_range (0, 30)" "good_range (0, 3)" "good_range (0, 255)" "good_range (- TMax, TMax)"
  by (simp_all add: good_range_def word_sle_eq TMax_def)

interpretation div_pwr_2: puzzle2 div_pwr_2 test_div_pwr_2 any_int "(0, 30)"
  by unfold_locales (simp_all add: in_range_0 div_pwr_2_ok)

interpretation conditional: puzzle3 conditional test_conditional any_int any_int any_int
  by unfold_locales (simp_all add: conditional_ok)

interpretation replaceByte: puzzle3 replaceByte test_replaceByte any_int "(0, 3)" "(0, 255)"
  by unfold_locales (simp_all add: in_range_0 replaceByte_ok)

interpretation add_ok: puzzle2 add_ok test_add_ok any_int any_int
  by unfold_locales (simp_all add: add_ok_ok)

interpretation abs_val: puzzle1 abs_val test_abs_val "(- TMax, TMax)"
  by unfold_locales (simp_all add: abs_val_ok)

interpretation bang: puzzle1 bang test_bang any_int
  by unfold_locales (simp_all add: bang_ok)

lemmas puzzles_pass =
  bit_and.no_errors negate.no_errors is_equal.no_errors div_pwr_2.no_errors
  conditional.no_errors replaceByte.no_errors add_ok.no_errors abs_val.no_errors
  bang.no_errors

lemma solution_puzzle [simp]: "solution_funct (puzzle n f ft a os lim r rs) = Some f"
  by (simp add: puzzle_def)

lemma run_tests_pass:
  assumes "\<forall>t \<in> set ts. solution_funct t \<noteq> None \<and> (\<forall>i. test_function cfg (rnd i) False t = Some 0)"
    and "solution_funct e = None"
  shows "\<exists>p. run_tests cfg rnd (\<lambda>_. False) i (ts @ [e]) (0, q, q) = Some (0, p, p)"
  using assms by (induction ts arbitrary: i q) (auto simp: Let_def)

lemma run_tests_all_pass:
  assumes "\<forall>j. \<not> has_arg cfg j"
    and "\<forall>i j k. 0 \<le> rnd i j k \<and> rnd i j k \<le> RAND_MAX"
  shows "\<exists>p. run_tests cfg rnd (\<lambda>_. False) 0 test_set (0, 0, 0) = Some (0, p, p)"
proof -
  have r: "rand_ok cfg (rnd i)" for i
    using assms by (simp add: rand_ok_def)
  have e: "solution_funct (last test_set) = None" and s: "test_set = butlast test_set @ [last test_set]"
    by (simp_all add: test_set_def)
  have "\<forall>t \<in> set (butlast test_set). solution_funct t \<noteq> None \<and> (\<forall>i. test_function cfg (rnd i) False t = Some 0)"
    by (simp add: test_set_def puzzles_pass [OF r])
  from run_tests_pass [OF this e] s show ?thesis by metis
qed

end
