(* ===== verification/Viewers.thy ===== *)
theory Viewers
  imports Complex_Main Prelude
begin

text \<open>
  The number viewers of the data lab, \<^verbatim>\<open>src/data/ishow.c\<close> and \<^verbatim>\<open>src/data/fshow.c\<close>: reading a number given as an
  argument, and showing the parts of a 32-bit word. \<^verbatim>\<open>strtof\<close> is a parameter, which gives the bits of
  the value and the rest of the string; the two decimal renderings of floating-point values (\<^verbatim>\<open>%.10g\<close> and
  \<^verbatim>\<open>%.10f\<close>) are represented by what they render.
\<close>

section \<open>Numbers in strings\<close>

text \<open>\<^verbatim>\<open>strtoll\<close> with base 0: the value, clamped to the range of \<^verbatim>\<open>long long\<close>.\<close>

abbreviation LLONG_MAX :: int where "LLONG_MAX \<equiv> 9223372036854775807"
abbreviation LLONG_MIN :: int where "LLONG_MIN \<equiv> - 9223372036854775808"

definition digit_of :: "char \<Rightarrow> int" where
  "digit_of c = (let n = (of_char c :: nat) in
     if 48 \<le> n \<and> n \<le> 57 then int n - 48 else if 97 \<le> n \<and> n \<le> 122 then int n - 87
     else if 65 \<le> n \<and> n \<le> 90 then int n - 55 else 36)"

primrec number_in :: "int \<Rightarrow> int \<Rightarrow> string \<Rightarrow> int" where
  "number_in b acc [] = acc"
| "number_in b acc (c # cs) = (if digit_of c < b then number_in b (b * acc + digit_of c) cs else acc)"

definition unsigned_literal :: "string \<Rightarrow> int" where
  "unsigned_literal s =
     (if 2 < length s \<and> s ! 0 = CHR ''0'' \<and> (s ! 1 = CHR ''x'' \<or> s ! 1 = CHR ''X'') \<and> digit_of (s ! 2) < 16 then number_in 16 0 (drop 2 s)
      else if s \<noteq> [] \<and> s ! 0 = CHR ''0'' then number_in 8 0 s
      else number_in 10 0 s)"

definition strtoll :: "string \<Rightarrow> int" where
  "strtoll s = (let v = (case dropWhile isspace s of
       [] \<Rightarrow> 0
     | c # cs \<Rightarrow> if c = CHR ''-'' then - unsigned_literal cs else if c = CHR ''+'' then unsigned_literal cs else unsigned_literal (c # cs))
   in max LLONG_MIN (min LLONG_MAX v))"

text \<open>The loop over the argument at the beginning of \<^verbatim>\<open>get_num_val\<close>: \<^verbatim>\<open>ishex\<close> and \<^verbatim>\<open>isfloat\<close>.\<close>

fun scan_number :: "string \<Rightarrow> bool \<Rightarrow> bool \<Rightarrow> bool \<times> bool" where
  "scan_number [] ishex isfloat = (ishex, isfloat)"
| "scan_number (c # cs) ishex isfloat =
     (if c = CHR ''x'' \<or> c = CHR ''X'' then scan_number cs True isfloat
      else if c = CHR ''e'' \<or> c = CHR ''E'' then scan_number cs ishex (if \<not> ishex then True else isfloat)
      else if c = CHR ''.'' then scan_number cs ishex True
      else scan_number cs ishex isfloat)"

text \<open>The integer branch, which the two programs share.\<close>

definition int_val :: "string \<Rightarrow> uint32 option" where
  "int_val sval = (let llval = strtoll sval; upperbits = llval div 2 ^ 31 in
     if upperbits = 0 \<or> upperbits = - 1 \<or> upperbits = 1 then Some (word_of_int llval) else None)"

definition get_num_val_i :: "string \<Rightarrow> uint32 option" where
  "get_num_val_i sval = (if snd (scan_number sval False False) then None else int_val sval)"

definition get_num_val_f :: "(string \<Rightarrow> uint32 \<times> string) \<Rightarrow> string \<Rightarrow> uint32 option" where
  "get_num_val_f strtof sval =
     (if snd (scan_number sval False False) then (let (fval, endp) = strtof sval in if endp = [] then Some fval else None)
      else int_val sval)"

section \<open>Showing a word\<close>

definition hex_char :: "nat \<Rightarrow> char" where
  "hex_char d = char_of (if d < 10 then 48 + d else 87 + d)"

primrec hex_digits :: "nat \<Rightarrow> nat \<Rightarrow> string" where
  "hex_digits 0 n = []"
| "hex_digits (Suc w) n = hex_digits w (n div 16) @ [hex_char (n mod 16)]"

definition show_int :: "uint32 \<Rightarrow> string" where
  "show_int uf = ''Hex = 0x'' @ hex_digits 8 (unat uf) @ '','' @ [CHR 0x09] @ ''Signed = '' @ print_d (sint uf)
     @ '','' @ [CHR 0x09] @ ''Unsigned = '' @ decimal (unat uf) @ [newline]"

definition get_exp :: "uint32 \<Rightarrow> uint32" where
  "get_exp uf = drop_bit 23 uf AND 0xFF"

definition get_frac :: "uint32 \<Rightarrow> uint32" where
  "get_frac uf = uf AND 0x7FFFFF"

definition get_sign :: "uint32 \<Rightarrow> uint32" where
  "get_sign uf = drop_bit 31 uf AND 1"

text \<open>
  What \<^verbatim>\<open>show_float\<close> shows after the parts: for a number, whether it is denormalized, its sign, the
  mantissa (of which it prints the quotient by two to the 23) and the exponent.
\<close>

datatype shown = Infinity bool | Not_a_number | Number bool bool int int

definition show_float :: "uint32 \<Rightarrow> (uint32 \<times> uint32 \<times> uint32) \<times> shown" where
  "show_float uf = (let exp = get_exp uf; frac = get_frac uf; sign = get_sign uf in
     ((sign, exp, frac),
      if exp = 0xFF then (if frac = 0 then Infinity (sign \<noteq> 0) else Not_a_number)
      else (let denorm = (exp = 0) in
        Number denorm (sign \<noteq> 0) (if denorm then uint frac else uint frac + 2 ^ 23) (if denorm then 1 - 127 else uint exp - 127))))"

section \<open>The programs\<close>

datatype 'a view = Shown 'a | Invalid string | Usage

definition ishow_main :: "string list \<Rightarrow> string view list" where
  "ishow_main argv = (if argv = [] then [Usage]
     else map (\<lambda>sval. case get_num_val_i sval of Some uf \<Rightarrow> Shown (show_int uf) | None \<Rightarrow> Invalid sval) argv)"

fun fshow_args :: "(string \<Rightarrow> uint32 \<times> string) \<Rightarrow> string list \<Rightarrow> ((uint32 \<times> uint32 \<times> uint32) \<times> shown) view list" where
  "fshow_args strtof [] = []"
| "fshow_args strtof (sval # argv) = (case get_num_val_f strtof sval of
       Some uf \<Rightarrow> Shown (show_float uf) # fshow_args strtof argv
     | None \<Rightarrow> [Invalid sval, Usage])"

definition fshow_main :: "(string \<Rightarrow> uint32 \<times> string) \<Rightarrow> string list \<Rightarrow> ((uint32 \<times> uint32 \<times> uint32) \<times> shown) view list" where
  "fshow_main strtof argv = (if argv = [] then [Usage] else fshow_args strtof argv)"

section \<open>Reading what was printed\<close>

lemma number_in_append: "\<forall>c \<in> set xs. digit_of c < b \<Longrightarrow> number_in b acc (xs @ ys) = number_in b (number_in b acc xs) ys"
  by (induction xs arbitrary: acc) auto

lemma digit_of_isdigit: "isdigit c \<Longrightarrow> digit_of c = of_char c - 48 \<and> digit_of c < 10"
  using of_nat_of_char [of c, where 'a = int] by (auto simp: digit_of_def isdigit_def Let_def)

lemma digit_of_hex: "d < 16 \<Longrightarrow> digit_of (hex_char d) = int d"
  by (auto simp: digit_of_def hex_char_def Let_def)

lemma hex_digits_number: "(\<forall>c \<in> set (hex_digits w n). digit_of c < 16) \<and> number_in 16 0 (hex_digits w n) = int (n mod 16 ^ w)"
proof (induction w arbitrary: n)
  case (Suc w)
  have "int (n mod 16 ^ Suc w) = 16 * int (n div 16 mod 16 ^ w) + int (n mod 16)"
    by (simp add: mod_mult2_eq [of n 16 "16 ^ w"] of_nat_mod)
  then show ?case using Suc.IH [of "n div 16"] by (auto simp: number_in_append digit_of_hex)
qed simp

lemma number_in_digits: "\<forall>c \<in> set s. isdigit c \<Longrightarrow> number_in 10 a s = digits_val a s"
proof (induction s arbitrary: a)
  case (Cons c s)
  then have c: "digit_of c = of_char c - 48 \<and> digit_of c < 10" by (intro digit_of_isdigit) simp
  then have "(of_char c :: int) < 58" by linarith
  then show ?case using Cons c by simp
qed simp

lemma decimal_number: "number_in 10 0 (decimal n) = int n"
  using decimal_digits [of n] by (simp add: number_in_digits)

lemma hex_digits_length [simp]: "length (hex_digits w n) = w"
  by (induction w arbitrary: n) simp_all

lemma digit_zero: "n < 10 \<Longrightarrow> char_of (48 + n :: nat) = CHR ''0'' \<longleftrightarrow> n = 0"
proof
  assume n: "n < 10" and "char_of (48 + n) = CHR ''0''"
  then have "(of_char (char_of (48 + n) :: char) :: nat) = of_char CHR ''0''" by simp
  then show "n = 0" using n by (simp add: of_char_of)
qed (simp add: char_of_def bit_0)

lemma decimal_first: "0 < n \<Longrightarrow> hd (decimal n) \<noteq> CHR ''0''"
proof (induction n rule: decimal.induct)
  case (1 n)
  show ?case
  proof (cases "n < 10")
    case True
    then show ?thesis using 1(2) digit_zero [of n] by (subst decimal.simps) simp
  next
    case False
    then show ?thesis using 1 decimal_digits [of "n div 10"] by (subst decimal.simps) auto
  qed
qed

lemma digit_plain: "isdigit c \<Longrightarrow> c \<notin> {CHR ''x'', CHR ''X'', CHR ''e'', CHR ''E'', CHR ''.''}"
  by (auto simp: isdigit_def)

lemma hex_plain: "d < 16 \<Longrightarrow> hex_char d \<noteq> CHR ''.''"
proof
  assume d: "d < 16" and "hex_char d = CHR ''.''"
  then have "digit_of (hex_char d) = digit_of CHR ''.''" by simp
  then show False using d digit_of_hex [OF d] by (simp add: digit_of_def)
qed

lemma hex_digits_plain: "CHR ''.'' \<notin> set (hex_digits w n)"
  by (induction w arbitrary: n) (auto dest: sym simp: hex_plain)

lemma scan_int: "CHR ''.'' \<notin> set s \<Longrightarrow> ishex \<or> CHR ''e'' \<notin> set s \<and> CHR ''E'' \<notin> set s \<Longrightarrow> snd (scan_number s ishex isfloat) = isfloat"
  by (induction s ishex isfloat rule: scan_number.induct) auto

lemma strtoll_decimal: "strtoll (decimal n) = min LLONG_MAX (int n) \<and> strtoll (CHR ''-'' # decimal n) = max LLONG_MIN (- int n)"
proof -
  obtain c cs where d: "decimal n = c # cs" "isdigit c" using decimal_digits [of n] by (cases "decimal n") auto
  have u: "unsigned_literal (decimal n) = int n"
  proof (cases "n = 0")
    case True
    then show ?thesis by (simp add: decimal.simps [of 0] unsigned_literal_def digit_of_def)
  next
    case False
    then have "c \<noteq> CHR ''0''" using decimal_first [of n] d by simp
    then show ?thesis using decimal_number [of n] d by (simp add: unsigned_literal_def)
  qed
  show ?thesis using u d digit_not_space [OF d(2)] by (simp add: strtoll_def isspace_def)
qed

lemma strtoll_hex: "strtoll (''0x'' @ hex_digits 8 n) = int (n mod 2 ^ 32)"
proof -
  obtain c cs where h: "hex_digits 8 n = c # cs" using hex_digits_length [of 8 n] by (cases "hex_digits 8 n") auto
  have "digit_of c < 16" "number_in 16 0 (c # cs) = int (n mod 2 ^ 32)" using hex_digits_number [of 8 n] unfolding h by (simp, simp only: power_mult [symmetric]) simp
  moreover have "int (n mod 2 ^ 32) < 2 ^ 32" by (simp add: zmod_int)
  moreover have "length (c # cs) = 8" using hex_digits_length [of 8 n] unfolding h .
  ultimately show ?thesis unfolding h by (simp add: strtoll_def unsigned_literal_def isspace_def)
qed

lemma int_val_range: "strtoll s = v \<Longrightarrow> int_val s = (if - (2 ^ 31) \<le> v \<and> v < 2 ^ 32 then Some (word_of_int v) else None)"
  by (auto simp: int_val_def Let_def)

section \<open>Theorems\<close>


text \<open>The value of a shown number, in units of the smallest positive one, two to the power of -149.\<close>

fun units :: "shown \<Rightarrow> int" where
  "units (Number denorm neg mantissa uexp) = (if neg then - mantissa else mantissa) * 2 ^ nat (uexp + 126)"
| "units _ = 0"

lemma and_masks: "(x :: int) AND 255 = x mod 2 ^ 8" "x AND 8388607 = x mod 2 ^ 23"
  using take_bit_eq_mask [of 8 x] take_bit_eq_mask [of 23 x] by (simp_all add: mask_eq_exp_minus_1 take_bit_eq_mod)

lemma parts: "uint (get_sign uf) = uint uf div 2 ^ 31" "uint (get_exp uf) = uint uf div 2 ^ 23 mod 2 ^ 8" "uint (get_frac uf) = uint uf mod 2 ^ 23"
proof -
  have "uint uf div 2 ^ 31 < 2" using uint_lt2p [of uf] by (simp add: div_less_iff_less_mult)
  then have "uint uf div 2 ^ 31 = uint uf div 2 ^ 31 mod 2" using uint_ge_0 [of uf] by (simp add: pos_imp_zdiv_nonneg_iff)
  then show "uint (get_sign uf) = uint uf div 2 ^ 31" by (simp add: get_sign_def drop_bit_eq_div and_one_eq uint_div uint_mod)
  show "uint (get_exp uf) = uint uf div 2 ^ 23 mod 2 ^ 8" by (simp add: get_exp_def uint_and drop_bit_eq_div uint_div and_masks)
  show "uint (get_frac uf) = uint uf mod 2 ^ 23" by (simp add: get_frac_def uint_and and_masks)
qed

lemma parts_sum: "uint uf = uint (get_sign uf) * 2 ^ 31 + uint (get_exp uf) * 2 ^ 23 + uint (get_frac uf)"
proof -
  let ?h = "uint uf div 2 ^ 23"
  have "uint uf = ?h * 2 ^ 23 + uint (get_frac uf)" by (simp add: parts)
  moreover have "?h = uint (get_sign uf) * 2 ^ 8 + uint (get_exp uf)"
    using zdiv_zmult2_eq [of "2 ^ 8" "uint uf" "2 ^ 23"] by (simp add: parts)
  ultimately show ?thesis by simp
qed

definition magnitude :: "int \<Rightarrow> int" where
  "magnitude u = (let e = u div 2 ^ 23; f = u mod 2 ^ 23 in if e = 0 then f else (f + 2 ^ 23) * 2 ^ nat (e - 1))"

lemma magnitude_mono:
  assumes "0 \<le> u" "u < v"
  shows "magnitude u < magnitude v"
proof -
  let ?e = "\<lambda>w. w div 2 ^ 23 :: int" and ?f = "\<lambda>w. w mod 2 ^ 23 :: int"
  have split: "u = ?e u * 2 ^ 23 + ?f u" "v = ?e v * 2 ^ 23 + ?f v" by simp_all
  have f: "0 \<le> ?f u" "?f u < 2 ^ 23" "0 \<le> ?f v" by simp_all
  have e0: "0 \<le> ?e u" using assms(1) by (simp add: pos_imp_zdiv_nonneg_iff)
  have le: "?e u \<le> ?e v" using assms(2) by (simp add: zdiv_mono1)
  show ?thesis
  proof (cases "?e u = ?e v")
    case True
    then have "?f u < ?f v" using split assms(2) by (metis add_less_cancel_left)
    then show ?thesis using True assms(2) by (simp add: magnitude_def Let_def)
  next
    case False
    then have lt: "?e u + 1 \<le> ?e v" using le by simp
    have low: "magnitude u < 2 ^ 23 * 2 ^ nat (?e u)"
    proof (cases "?e u = 0")
      case False
      then have n: "nat (?e u) = Suc (nat (?e u - 1))" using e0 by linarith
      have "(?f u + 2 ^ 23) * 2 ^ nat (?e u - 1) < 2 ^ 24 * 2 ^ nat (?e u - 1)" using f(2) by (intro mult_strict_right_mono) simp_all
      then show ?thesis using False n by (simp add: magnitude_def Let_def)
    qed (use f in \<open>simp add: magnitude_def Let_def\<close>)
    have "nat (?e u) \<le> nat (?e v - 1)" using lt by linarith
    then have "(2::int) ^ nat (?e u) \<le> 2 ^ nat (?e v - 1)" by (intro power_increasing) simp_all
    then have "2 ^ 23 * 2 ^ nat (?e u) \<le> (2::int) ^ 23 * 2 ^ nat (?e v - 1)" by simp
    also have "\<dots> \<le> (?f v + 2 ^ 23) * 2 ^ nat (?e v - 1)" using f(3) by (intro mult_right_mono) simp_all
    also have "\<dots> = magnitude v" using lt e0 by (simp add: magnitude_def Let_def)
    finally show ?thesis using low by simp
  qed
qed

text \<open>
  C21. \<^verbatim>\<open>show_float\<close> takes every word apart without loss, and the numbers it shows are ordered like the
  words: of two finite words without sign bit the smaller one is the smaller number, across the border
  between denormalized and normalized numbers too; the sign bit negates the number.
\<close>

theorem show_float_orders:
  "uint uf = uint (get_sign uf) * 2 ^ 31 + uint (get_exp uf) * 2 ^ 23 + uint (get_frac uf)
    \<and> (uf < 0x7F800000 \<longrightarrow> units (snd (show_float (uf + 0x80000000))) = - units (snd (show_float uf))
      \<and> (\<forall>vf < uf. units (snd (show_float vf)) < units (snd (show_float uf))))"
proof -
  have shown: "units (snd (show_float wf)) = (if uint (get_sign wf) = 0 then 1 else - 1) * magnitude (uint (get_exp wf) * 2 ^ 23 + uint (get_frac wf))"
    if "uint (get_exp wf) < 255" for wf
  proof -
    have e: "get_exp wf \<noteq> 0xFF" "get_exp wf = 0 \<longleftrightarrow> uint (get_exp wf) = 0" "get_sign wf = 0 \<longleftrightarrow> uint (get_sign wf) = 0"
      using that by (auto simp: word_uint_eq_iff)
    have f: "0 \<le> uint (get_frac wf)" "uint (get_frac wf) < 2 ^ 23" by (simp_all add: parts)
    then have m: "(uint (get_exp wf) * 2 ^ 23 + uint (get_frac wf)) div 2 ^ 23 = uint (get_exp wf)"
      "(uint (get_exp wf) * 2 ^ 23 + uint (get_frac wf)) mod 2 ^ 23 = uint (get_frac wf)" by simp_all
    have x: "nat (uint (get_exp wf) - 127 + 126) = nat (uint (get_exp wf) - 1)" by simp
    show ?thesis using e unfolding magnitude_def m show_float_def Let_def by (simp add: x)
  qed
  have fields: "uint (get_sign wf) = 0 \<and> uint (get_exp wf) < 255 \<and> uint (get_exp wf) * 2 ^ 23 + uint (get_frac wf) = uint wf"
    if "wf < 0x7F800000" for wf
  proof -
    have "uint wf < 2139095040" using that by (simp add: word_less_def)
    then have "uint wf div 2 ^ 31 = 0" "uint wf div 2 ^ 23 < 255" using uint_ge_0 [of wf] by (simp_all add: div_less_iff_less_mult)
    moreover have "0 \<le> uint wf div 2 ^ 23" using uint_ge_0 [of wf] by (simp add: pos_imp_zdiv_nonneg_iff)
    ultimately show ?thesis unfolding parts by simp
  qed
  have "uint uf = uint (get_sign uf) * 2 ^ 31 + uint (get_exp uf) * 2 ^ 23 + uint (get_frac uf)"
    by (rule parts_sum)
  moreover have "units (snd (show_float vf)) < units (snd (show_float uf))" if "uf < 0x7F800000" "vf < uf" for vf
  proof -
    have "vf < 0x7F800000" using that by order
    then show ?thesis using shown fields that magnitude_mono [of "uint vf" "uint uf"] by (simp add: word_less_def)
  qed
  moreover have "units (snd (show_float (uf + 0x80000000))) = - units (snd (show_float uf))" if "uf < 0x7F800000"
  proof -
    have "uint uf < 2139095040" using that by (simp add: word_less_def)
    then have u: "uint (uf + 0x80000000) = uint uf + 2 ^ 31" by (simp add: uint_word_ariths)
    have "get_exp (uf + 0x80000000) = get_exp uf" "get_frac (uf + 0x80000000) = get_frac uf" "uint (get_sign (uf + 0x80000000)) = 1"
      using fields [OF that] div_mult_self1 [of 8388608 "uint uf" 256] mod_mult_self1 [of "uint uf" 256 8388608]
      unfolding word_uint_eq_iff parts u by simp_all
    then show ?thesis using shown fields [OF that] by simp
  qed
  ultimately show ?thesis by blast
qed

theorem show_float_orders_witness:
  "units (snd (show_float 0x7FFFFF)) < units (snd (show_float 0x800000)) \<and> units (snd (show_float 0x80800000)) = - (2 ^ 23)"
  using show_float_orders [of "0x800000"] by (simp add: show_float_def get_exp_def get_frac_def get_sign_def Let_def)

end
