(* ===== verification/BtestMain.thy ===== *)
theory BtestMain
  imports Btest Viewers
begin

text \<open>
  The program \<^verbatim>\<open>btest\<close>, \<^verbatim>\<open>main\<close> in \<^verbatim>\<open>src/data/btest.c\<close>: its options, and the run over the table of puzzles. What
  \<^verbatim>\<open>getopt\<close> makes of the arguments is a sequence of options with their arguments. The option for grading,
  which only shortens the output, changes nothing here, and the installation of the alarm handler is left
  out: that the alarm fires is a parameter of the run.
\<close>

section \<open>Options\<close>

text \<open>
  \<^verbatim>\<open>get_num_val\<close>: as in the number viewers, but the integer branch looks at the variable that is to be set, not at
  its address; \<open>old\<close> is the value of that variable.
\<close>

definition get_num_val :: "(string \<Rightarrow> uint32 \<times> string) \<Rightarrow> uint32 \<Rightarrow> string \<Rightarrow> uint32 option" where
  "get_num_val strtof old sval =
     (if snd (scan_number sval False False) then (let (fval, endp) = strtof sval in if endp = [] then Some fval else None)
      else if old = 0 then int_val sval else None)"

definition initial_config :: btest_config where
  "initial_config = \<lparr>has_arg = (\<lambda>_. False), argval = (\<lambda>_. 0), test_fname = None, global_rating = 0, timeout_limit = 10000\<rparr>"

datatype config_result = Exit_with int | Config btest_config | No_value

definition fixed_arg :: "(string \<Rightarrow> uint32 \<times> string) \<Rightarrow> nat \<Rightarrow> string \<Rightarrow> btest_config \<Rightarrow> config_result" where
  "fixed_arg strtof i optarg cfg = (case get_num_val strtof (argval cfg i) optarg of
       None \<Rightarrow> Exit_with 0
     | Some v \<Rightarrow> Config (cfg\<lparr>has_arg := (has_arg cfg)(i := True), argval := (argval cfg)(i := v)\<rparr>))"

definition btest_option :: "(string \<Rightarrow> uint32 \<times> string) \<Rightarrow> char \<times> string \<Rightarrow> btest_config \<Rightarrow> config_result" where
  "btest_option strtof c_arg cfg = (let (c, optarg) = c_arg in
     if c = CHR ''g'' then Config cfg
     else if c = CHR ''f'' then Config (cfg\<lparr>test_fname := Some optarg\<rparr>)
     else if c = CHR ''r'' then
       (case atoi optarg of None \<Rightarrow> No_value | Some r \<Rightarrow> if r < 0 then Exit_with 1 else Config (cfg\<lparr>global_rating := r\<rparr>))
     else if c = CHR ''1'' then fixed_arg strtof 0 optarg cfg
     else if c = CHR ''2'' then fixed_arg strtof 1 optarg cfg
     else if c = CHR ''3'' then fixed_arg strtof 2 optarg cfg
     else if c = CHR ''T'' then
       (case atoi optarg of None \<Rightarrow> No_value | Some t \<Rightarrow> Config (cfg\<lparr>timeout_limit := t\<rparr>))
     else Exit_with 1)"

fun btest_options :: "(string \<Rightarrow> uint32 \<times> string) \<Rightarrow> (char \<times> string) list \<Rightarrow> btest_config \<Rightarrow> config_result" where
  "btest_options strtof [] cfg = Config cfg"
| "btest_options strtof (c # cs) cfg = (case btest_option strtof c cfg of Config cfg \<Rightarrow> btest_options strtof cs cfg | r \<Rightarrow> r)"

text \<open>The result: the exit code, or what \<^verbatim>\<open>run_tests\<close> has counted: errors, points and the maximum of points.\<close>

definition btest_main :: "(string \<Rightarrow> uint32 \<times> string) \<Rightarrow> (char \<times> string) list \<Rightarrow> (nat \<Rightarrow> nat \<Rightarrow> nat \<Rightarrow> int) \<Rightarrow> (nat \<Rightarrow> bool) \<Rightarrow>
    (int + (int \<times> int \<times> int)) option" where
  "btest_main strtof argv rnd alarm = (case btest_options strtof argv initial_config of
       Exit_with c \<Rightarrow> Some (Inl c)
     | Config cfg \<Rightarrow> map_option Inr (run_tests cfg rnd alarm 0 test_set (0, 0, 0))
     | No_value \<Rightarrow> None)"

section \<open>Lemmas\<close>

lemma btest_options_no_arg:
  assumes "btest_options strtof argv cfg = Config cfg'" "\<forall>j. \<not> has_arg cfg j" "\<forall>c \<in> fst ` set argv. c \<notin> {CHR ''1'', CHR ''2'', CHR ''3''}"
  shows "\<forall>j. \<not> has_arg cfg' j"
  using assms
proof (induction argv arbitrary: cfg)
  case (Cons c argv)
  obtain d x where c: "c = (d, x)" by (cases c)
  obtain cfg1 where s: "btest_option strtof c cfg = Config cfg1" "btest_options strtof argv cfg1 = Config cfg'"
    using Cons.prems(1) by (auto split: config_result.splits)
  have "d \<notin> {CHR ''1'', CHR ''2'', CHR ''3''}" using Cons.prems(3) c by simp
  then have "has_arg cfg1 = has_arg cfg" using s(1) c by (auto simp: btest_option_def split: if_splits option.splits)
  then show ?case using Cons.IH [OF s(2)] Cons.prems(2,3) by simp
qed simp

text \<open>
  A fixed argument cannot be given again once it is not 0, although the options say nothing of the kind:
  the test that the variable is 0 was meant to be one that its address is not.
\<close>

lemma fixed_arg_only_once:
  assumes "argval cfg i \<noteq> 0" "\<not> snd (scan_number optarg False False)"
  shows "fixed_arg strtof i optarg cfg = Exit_with 0"
  using assms by (simp add: fixed_arg_def get_num_val_def)

section \<open>Theorem\<close>

text \<open>
  C36. Whatever options \<^verbatim>\<open>btest\<close> accepts, as long as none of them fixes an argument, it ends, finds no error in any of
  the puzzle solutions it is asked to test, whatever the random numbers are, and gives all the
  points: every solution of \<^verbatim>\<open>bits.c\<close> agrees with its reference function on every value that the
  generator can produce.
\<close>

theorem btest_accepts_solutions:
  assumes "\<forall>c \<in> fst ` set argv. c \<notin> {CHR ''1'', CHR ''2'', CHR ''3''}" "btest_options strtof argv initial_config = Config cfg"
    and "\<forall>i j k. 0 \<le> rnd i j k \<and> rnd i j k \<le> RAND_MAX"
  shows "\<exists>p. btest_main strtof argv rnd (\<lambda>_. False) = Some (Inr (0, p, p))"
proof -
  have "\<forall>j. \<not> has_arg cfg j" using btest_options_no_arg [OF assms(2) _ assms(1)] by (simp add: initial_config_def)
  then obtain p where "run_tests cfg rnd (\<lambda>_. False) 0 test_set (0, 0, 0) = Some (0, p, p)" using run_tests_all_pass assms(3) by blast
  then show ?thesis using assms(2) by (simp add: btest_main_def)
qed

theorem btest_accepts_solutions_witness:
  "\<exists>p. btest_main (\<lambda>_. (0, [])) [(CHR ''g'', []), (CHR ''r'', ''4'')] (\<lambda>_ _ k. int k mod 1000) (\<lambda>_. False) = Some (Inr (0, p, p))"
proof (rule btest_accepts_solutions)
  show "btest_options (\<lambda>_. (0, [])) [(CHR ''g'', []), (CHR ''r'', ''4'')] initial_config = Config (initial_config\<lparr>global_rating := 4\<rparr>)"
    by (simp add: btest_option_def atoi_def isspace_def isdigit_def c_int_def)
  show "\<forall>i j k. 0 \<le> int k mod 1000 \<and> int k mod 1000 \<le> RAND_MAX"
    by (auto simp: RAND_MAX_def intro: order_trans [OF less_imp_le [OF pos_mod_bound]])
qed simp

end
