(* ===== verification/CStrings.thy ===== *)
theory CStrings
  imports Prelude "HOL-Library.Sublist"
begin

text \<open>
  The string library \<^verbatim>\<open>src/stringsperf/strings/strings.c\<close>: \<^verbatim>\<open>strlen\<close>, \<^verbatim>\<open>strspn\<close>,
  \<^verbatim>\<open>strcspn\<close>, \<^verbatim>\<open>strncmp\<close>, \<^verbatim>\<open>strstr\<close> and \<^verbatim>\<open>strtok\<close>. Each loop is a recursive function
  over the index the C loop counts; \<^const>\<open>None\<close> is a read outside the array or an
  overflow of the \<^verbatim>\<open>int\<close> counter. A nullable pointer result is an \<open>option\<close> of an
  offset inside that.
\<close>

section \<open>The library\<close>

function strlen_loop :: "char list \<Rightarrow> nat \<Rightarrow> nat option" where
  "strlen_loop s i =
     (case rd s i of
        None \<Rightarrow> None
      | Some c \<Rightarrow>
          if c \<noteq> NUL then (case inc_int i of None \<Rightarrow> None | Some i' \<Rightarrow> strlen_loop s i')
          else Some i)"
  by pat_completeness auto
termination
  by (relation "measure (\<lambda>(s, i). length s - i)")
     (auto simp: rd_def inc_int_def split: if_splits)

definition strlen :: "char list \<Rightarrow> nat option" where
  "strlen s = strlen_loop s 0"

text \<open>The inner loop of both span functions: the first index \<open>j\<close> with \<open>set[j] = c\<close> or the terminator.\<close>

function scan_set :: "char \<Rightarrow> char list \<Rightarrow> nat \<Rightarrow> nat option" where
  "scan_set c accept j =
     (case rd accept j of
        None \<Rightarrow> None
      | Some a \<Rightarrow>
          if a \<noteq> NUL then
            if c = a then Some j
            else (case inc_int j of None \<Rightarrow> None | Some j' \<Rightarrow> scan_set c accept j')
          else Some j)"
  by pat_completeness auto
termination
  by (relation "measure (\<lambda>(c, s, j). length s - j)")
     (auto simp: rd_def inc_int_def split: if_splits)

function strspn_loop :: "char list \<Rightarrow> char list \<Rightarrow> nat \<Rightarrow> nat option" where
  "strspn_loop s accept i =
     (case rd s i of
        None \<Rightarrow> None
      | Some c \<Rightarrow>
          if c \<noteq> NUL then
            (case scan_set c accept 0 of
               None \<Rightarrow> None
             | Some j \<Rightarrow>
                 if accept ! j = NUL then Some i
                 else (case inc_int i of None \<Rightarrow> None | Some i' \<Rightarrow> strspn_loop s accept i'))
          else Some i)"
  by pat_completeness auto
termination
  by (relation "measure (\<lambda>(s, a, i). length s - i)")
     (auto simp: rd_def inc_int_def split: if_splits)

definition strspn :: "char list \<Rightarrow> char list \<Rightarrow> nat option" where
  "strspn s accept = strspn_loop s accept 0"

function strcspn_loop :: "char list \<Rightarrow> char list \<Rightarrow> nat \<Rightarrow> nat option" where
  "strcspn_loop s reject i =
     (case rd s i of
        None \<Rightarrow> None
      | Some c \<Rightarrow>
          if c \<noteq> NUL then
            (case scan_set c reject 0 of
               None \<Rightarrow> None
             | Some j \<Rightarrow>
                 if reject ! j \<noteq> NUL then Some i
                 else (case inc_int i of None \<Rightarrow> None | Some i' \<Rightarrow> strcspn_loop s reject i'))
          else Some i)"
  by pat_completeness auto
termination
  by (relation "measure (\<lambda>(s, a, i). length s - i)")
     (auto simp: rd_def inc_int_def split: if_splits)

definition strcspn :: "char list \<Rightarrow> char list \<Rightarrow> nat option" where
  "strcspn s reject = strcspn_loop s reject 0"

fun strncmp :: "char list \<Rightarrow> char list \<Rightarrow> nat \<Rightarrow> int option" where
  "strncmp [] s2 n = None"
| "strncmp (c1 # s1) [] n = (if n = 0 then Some 0 else None)"
| "strncmp (c1 # s1) (c2 # s2) n =
     (if c1 \<noteq> NUL \<and> n \<noteq> 0 then
        (let val = schar c1 - schar c2
         in if val \<noteq> 0 then Some val else strncmp s1 s2 (n - 1))
      else if n = 0 then Some 0
      else Some (schar c1 - schar c2))"

function strstr_loop :: "char list \<Rightarrow> char list \<Rightarrow> nat \<Rightarrow> nat \<Rightarrow> nat option option" where
  "strstr_loop haystack needle len i =
     (case rd haystack i of
        None \<Rightarrow> None
      | Some c \<Rightarrow>
          if c \<noteq> NUL then
            (case strncmp (drop i haystack) needle len of
               None \<Rightarrow> None
             | Some r \<Rightarrow>
                 if r = 0 then Some (Some i)
                 else (case inc_int i of
                         None \<Rightarrow> None
                       | Some i' \<Rightarrow> strstr_loop haystack needle len i'))
          else Some None)"
  by pat_completeness auto
termination
  by (relation "measure (\<lambda>(s, n, l, i). length s - i)")
     (auto simp: rd_def inc_int_def split: if_splits)

definition strstr :: "char list \<Rightarrow> char list \<Rightarrow> nat option option" where
  "strstr haystack needle =
     (case strlen needle of
        None \<Rightarrow> None
      | Some len \<Rightarrow> if len = 0 then Some None else strstr_loop haystack needle len 0)"

text \<open>
  \<^verbatim>\<open>strtok\<close> writes into the caller's array and keeps a static pointer. A pointer is the
  number of an array and an offset into it.
\<close>

type_synonym cptr = "nat \<times> nat"

record tok_state =
  arrays :: "nat \<Rightarrow> char list"
  tok_rem :: "cptr option"

definition strtok :: "tok_state \<Rightarrow> cptr option \<Rightarrow> char list \<Rightarrow> (cptr option \<times> tok_state) option" where
  "strtok st str delim =
     (case (if str \<noteq> None then str else tok_rem st) of
        None \<Rightarrow> Some (None, st)
      | Some (b, off) \<Rightarrow>
          let buf = arrays st b in
          (case strspn (drop off buf) delim of
             None \<Rightarrow> None
           | Some n \<Rightarrow>
               let str' = off + n in
               (case strcspn (drop str' buf) delim of
                  None \<Rightarrow> None
                | Some m \<Rightarrow>
                    let rem' = str' + m in
                    if m = 0 then Some (None, st\<lparr>tok_rem := Some (b, rem')\<rparr>)
                    else (case rd buf rem' of
                            None \<Rightarrow> None
                          | Some c \<Rightarrow>
                              if c \<noteq> NUL then
                                Some (Some (b, str'),
                                      st\<lparr>arrays := (arrays st)(b := buf[rem' := NUL]),
                                         tok_rem := Some (b, rem' + 1)\<rparr>)
                              else Some (Some (b, str'), st\<lparr>tok_rem := None\<rparr>)))))"

text \<open>The usual loop over all tokens: \<^verbatim>\<open>for (t = strtok(str, d); t; t = strtok(NULL, d))\<close>.\<close>

fun strtok_all :: "nat \<Rightarrow> tok_state \<Rightarrow> cptr option \<Rightarrow> char list \<Rightarrow> (string list \<times> tok_state) option" where
  "strtok_all 0 st str delim = None"
| "strtok_all (Suc fuel) st str delim =
     (case strtok st str delim of
        None \<Rightarrow> None
      | Some (None, st') \<Rightarrow> Some ([], st')
      | Some (Some (b, off), st') \<Rightarrow>
          (case strtok_all fuel st' None delim of
             None \<Rightarrow> None
           | Some (ts, st'') \<Rightarrow> Some (cstr (drop off (arrays st' b)) # ts, st'')))"

declare strlen_loop.simps [simp del] scan_set.simps [simp del] strspn_loop.simps [simp del]
  strcspn_loop.simps [simp del] strstr_loop.simps [simp del]

text \<open>
  What \<^verbatim>\<open>strtok\<close> is meant to deliver: the maximal runs of characters that are not
  delimiters, in order.
\<close>

function tokenize :: "char set \<Rightarrow> string \<Rightarrow> string list" where
  "tokenize d s =
     (case dropWhile (\<lambda>c. c \<in> d) s of
        [] \<Rightarrow> []
      | c # cs \<Rightarrow> takeWhile (\<lambda>c. c \<notin> d) (c # cs) # tokenize d (dropWhile (\<lambda>c. c \<notin> d) (c # cs)))"
  by pat_completeness auto
termination
proof (relation "measure (\<lambda>(d, s). length s)", goal_cases)
  case (2 d s c cs)
  have "c \<notin> d" using 2 by (metis hd_dropWhile list.distinct(1) list.sel(1))
  moreover have "length (c # cs) \<le> length s" using 2 by (metis length_dropWhile_le)
  ultimately show ?case using length_dropWhile_le [of "\<lambda>c. c \<notin> d" cs] by simp
qed simp

declare tokenize.simps [simp del]

section \<open>Lengths and spans\<close>

lemma index_scan:
  assumes step: "\<And>i. i < length xs \<Longrightarrow>
      loop i = (if P (xs ! i) then Some i
                else case inc_int i of None \<Rightarrow> None | Some i' \<Rightarrow> loop i')"
    and stop: "loop (length xs) = Some (length xs)"
    and small: "int (length xs) \<le> INT_MAX" and "i \<le> length xs"
  shows "loop i = Some (i + length (takeWhile (\<lambda>x. \<not> P x) (drop i xs)))"
  using \<open>i \<le> length xs\<close>
proof (induction "length xs - i" arbitrary: i)
  case 0
  then have "i = length xs" by simp
  then show ?case by (simp add: stop)
next
  case (Suc n)
  then have i: "i < length xs" by simp
  show ?case
  proof (cases "P (xs ! i)")
    case True
    with i show ?thesis by (simp add: step flip: Cons_nth_drop_Suc)
  next
    case False
    from Suc have "loop (Suc i) = Some (Suc i + length (takeWhile (\<lambda>x. \<not> P x) (drop (Suc i) xs)))"
      by simp
    with False i small show ?thesis by (simp add: step inc_int_def flip: Cons_nth_drop_Suc)
  qed
qed

lemma strlen_eq:
  assumes "small_str s"
  shows "strlen s = Some (length (cstr s))"
proof -
  have "strlen_loop s 0 = Some (0 + length (takeWhile (\<lambda>x. \<not> False) (drop 0 (cstr s))))"
    using assms
    by (intro index_scan [of _ "strlen_loop s"])
       (simp_all add: small_str_def strlen_loop.simps [of s] rd_cstr)
  moreover have "takeWhile (\<lambda>x. True) xs = xs" for xs :: string by (induction xs) auto
  ultimately show ?thesis by (simp add: strlen_def)
qed

lemma scan_set_eq:
  assumes "small_str a"
  shows "scan_set c a 0 = Some (length (takeWhile (\<lambda>x. c \<noteq> x) (cstr a)))"
proof -
  have "scan_set c a 0 = Some (0 + length (takeWhile (\<lambda>x. \<not> c = x) (drop 0 (cstr a))))"
    using assms
    by (intro index_scan [of _ "scan_set c a"])
       (simp_all add: small_str_def scan_set.simps [of c a] rd_cstr)
  then show ?thesis by simp
qed

lemma takeWhile_less: "c \<in> set xs \<Longrightarrow> length (takeWhile (\<lambda>x. c \<noteq> x) xs) < length xs"
  by (induction xs) auto

lemma scan_set_hit:
  assumes "small_str a"
  shows "a ! length (takeWhile (\<lambda>x. c \<noteq> x) (cstr a)) = NUL \<longleftrightarrow> c \<notin> set (cstr a)"
proof (cases "c \<in> set (cstr a)")
  case True
  then have "length (takeWhile (\<lambda>x. c \<noteq> x) (cstr a)) < length (cstr a)"
    by (rule takeWhile_less)
  with True show ?thesis by (simp add: cstr_nth)
next
  case False
  then have eq: "takeWhile (\<lambda>x. c \<noteq> x) (cstr a) = cstr a" by (auto simp: takeWhile_eq_all_conv)
  from False assms show ?thesis unfolding eq by (simp add: cstr_nth_NUL small_str_def)
qed

lemma strspn_eq:
  assumes "small_str s" "small_str a"
  shows "strspn s a = Some (length (takeWhile (\<lambda>c. c \<in> set (cstr a)) (cstr s)))"
proof -
  have "strspn_loop s a 0 = Some (0 + length (takeWhile (\<lambda>c. \<not> c \<notin> set (cstr a)) (drop 0 (cstr s))))"
    using assms
    by (intro index_scan [of _ "strspn_loop s a"])
       (simp_all add: small_str_def strspn_loop.simps [of s a] rd_cstr scan_set_eq scan_set_hit)
  then show ?thesis by (simp add: strspn_def)
qed

lemma strcspn_eq:
  assumes "small_str s" "small_str a"
  shows "strcspn s a = Some (length (takeWhile (\<lambda>c. c \<notin> set (cstr a)) (cstr s)))"
proof -
  have "strcspn_loop s a 0 = Some (0 + length (takeWhile (\<lambda>c. \<not> c \<in> set (cstr a)) (drop 0 (cstr s))))"
    using assms
    by (intro index_scan [of _ "strcspn_loop s a"])
       (simp_all add: small_str_def strcspn_loop.simps [of s a] rd_cstr scan_set_eq scan_set_hit)
  then show ?thesis by (simp add: strcspn_def)
qed

lemma strncmp_zero_iff:
  assumes "terminated s1" "terminated s2"
  shows "\<exists>r. strncmp s1 s2 n = Some r \<and> (r = 0 \<longleftrightarrow> take n (cstr s1) = take n (cstr s2))"
  using assms
  by (induction s1 s2 n rule: strncmp.induct) (auto simp: Let_def take_Cons' )

lemma strncmp_less_iff:
  assumes "terminated s1" "terminated s2" "\<forall>c \<in> set (cstr s1) \<union> set (cstr s2). 0 \<le> schar c"
    and "strncmp s1 s2 n = Some r"
  shows "r < 0 \<longleftrightarrow> (take n (cstr s1), take n (cstr s2)) \<in> lexord {(x, y). schar x < schar y}"
  using assms
proof (induction s1 s2 n rule: strncmp.induct)
  case (3 c1 s1 c2 s2 n)
  note prems = "3.prems"
  show ?case
  proof (cases "n = 0 \<or> c1 = NUL")
    case True
    then show ?thesis using prems
      by (cases "c2 = NUL") (auto simp: take_Cons' order_le_less split: if_splits)
  next
    case False
    show ?thesis
    proof (cases "c1 = c2")
      case True
      with False prems show ?thesis
        using "3.IH" by (auto simp: Let_def take_Cons')
    next
      case ne: False
      with False prems have r: "r = schar c1 - schar c2" by (simp add: Let_def)
      have "0 < schar c1" using False prems(3) schar_eq_0_iff [of c1] by (simp add: order_le_less)
      with r ne False show ?thesis by (cases "c2 = NUL") (simp_all add: take_Cons')
    qed
  qed
qed simp_all

section \<open>Searching\<close>

lemma first_of_filter_upt:
  "filter P [0..<n] = [] \<Longrightarrow> \<forall>k < n. \<not> P k"
  "filter P [0..<n] = k # ks \<Longrightarrow> k < n \<and> P k \<and> (\<forall>j < k. \<not> P j)"
proof -
  show "\<forall>k < n. \<not> P k" if "filter P [0..<n] = []"
    using that by (auto simp: filter_empty_conv)
  have so: "sorted (filter P [0..<n])" by (simp add: sorted_wrt_filter)
  assume f: "filter P [0..<n] = k # ks"
  have "k \<in> set (filter P [0..<n])" unfolding f by simp
  moreover have "k \<le> j" if "P j" "j < n" for j
  proof -
    have "j \<in> set (filter P [0..<n])" using that by simp
    then show ?thesis using so unfolding f by auto
  qed
  ultimately show "k < n \<and> P k \<and> (\<forall>j < k. \<not> P j)"
    by (fastforce simp: not_le)
qed

lemma strstr_loop_spec:
  assumes "small_str h" "terminated nd" "len = length (cstr nd)" "cstr nd \<noteq> []" "i \<le> length (cstr h)"
  shows "strstr_loop h nd len i = Some (case filter (\<lambda>k. prefix (cstr nd) (drop k (cstr h))) [i..<length (cstr h)] of [] \<Rightarrow> None | k # _ \<Rightarrow> Some k)"
  using \<open>i \<le> length (cstr h)\<close>
proof (induction "length (cstr h) - i" arbitrary: i)
  case 0
  then have i: "i = length (cstr h)" by simp
  from assms(1) show ?case
    unfolding i by (subst strstr_loop.simps) (simp add: small_str_def rd_cstr)
next
  case (Suc m)
  then have i: "i < length (cstr h)" by simp
  have t: "terminated (drop i h)" "cstr (drop i h) = drop i (cstr h)"
    using assms(1) i by (simp_all add: small_str_def terminated_drop cstr_drop)
  obtain r where r: "strncmp (drop i h) nd len = Some r"
    "r = 0 \<longleftrightarrow> take len (drop i (cstr h)) = take len (cstr nd)"
    using strncmp_zero_iff [OF t(1) assms(2), of len] t(2) by auto
  have p: "r = 0 \<longleftrightarrow> prefix (cstr nd) (drop i (cstr h))"
    using r(2) assms(3) by (auto simp: prefix_def) (metis append_take_drop_id)
  have inc: "inc_int i = Some (Suc i)" using i assms(1) by (simp add: inc_int_def small_str_def)
  have u: "[i..<length (cstr h)] = i # [Suc i..<length (cstr h)]" using i by (rule upt_conv_Cons)
  show ?case
    using Suc(1) [of "Suc i"] Suc(2) i assms(1) p
    by (simp add: strstr_loop.simps [of h nd len i] small_str_def rd_cstr r(1) inc u)
qed

section \<open>Tokens\<close>

lemma tokenize_skip: "tokenize d (dropWhile (\<lambda>c. c \<in> d) s) = tokenize d s"
  by (simp add: tokenize.simps [of d s] tokenize.simps [of d "dropWhile (\<lambda>c. c \<in> d) s"])

lemma tokenize_Nil [simp]: "tokenize d [] = []"
  by (simp add: tokenize.simps)

lemma tokenize_delim: "c \<in> d \<Longrightarrow> tokenize d (c # s) = tokenize d s"
  using tokenize_skip [of d "c # s"] tokenize_skip [of d s] by simp

lemma tokenize_all_delims: "dropWhile (\<lambda>c. c \<in> d) s = [] \<Longrightarrow> tokenize d s = []"
  by (simp add: tokenize.simps [of d s] del: dropWhile_eq_Nil_conv)

lemma tokenize_token:
  assumes "dropWhile (\<lambda>c. c \<in> d) s = y" "y \<noteq> []"
  shows "tokenize d s = takeWhile (\<lambda>c. c \<notin> d) y # tokenize d (tl (dropWhile (\<lambda>c. c \<notin> d) y))"
proof -
  have "tokenize d s = takeWhile (\<lambda>c. c \<notin> d) y # tokenize d (dropWhile (\<lambda>c. c \<notin> d) y)"
    using assms by (cases y) (simp_all add: tokenize.simps [of d s])
  also have "tokenize d (dropWhile (\<lambda>c. c \<notin> d) y) = tokenize d (tl (dropWhile (\<lambda>c. c \<notin> d) y))"
  proof (cases "dropWhile (\<lambda>c. c \<notin> d) y")
    case (Cons c cs)
    then have "c \<in> d" by (metis hd_dropWhile list.distinct(1) list.sel(1))
    with Cons show ?thesis by (simp add: tokenize_delim)
  qed (simp del: dropWhile_eq_Nil_conv)
  finally show ?thesis .
qed

lemma cstr_update: "m \<le> length (cstr s) \<Longrightarrow> m < length s \<Longrightarrow> cstr (s[m := NUL]) = take m (cstr s)"
  by (induction s arbitrary: m) (auto simp: nth_Cons' list_update.simps split: nat.splits if_splits)

lemma strtok_eq:
  assumes p: "str = Some (b, off) \<or> str = None \<and> tok_rem st = Some (b, off)"
    and s: "small_str (drop off (arrays st b))" and d: "small_str delim"
    and y: "y = dropWhile (\<lambda>c. c \<in> set (cstr delim)) (cstr (drop off (arrays st b)))"
    and t: "t = takeWhile (\<lambda>c. c \<notin> set (cstr delim)) y"
  obtains o' where "small_str (drop o' (arrays st b))" "cstr (drop o' (arrays st b)) = y"
    and "strtok st str delim =
     (if t = [] then Some (None, st\<lparr>tok_rem := Some (b, o')\<rparr>)
      else if t = y then Some (Some (b, o'), st\<lparr>tok_rem := None\<rparr>)
      else Some (Some (b, o'),
             st\<lparr>arrays := (arrays st)(b := (arrays st b)[o' + length t := NUL]),
                tok_rem := Some (b, o' + length t + 1)\<rparr>))"
proof -
  let ?buf = "arrays st b" and ?D = "set (cstr delim)"
  let ?x = "cstr (drop off ?buf)"
  define n where "n = length (takeWhile (\<lambda>c. c \<in> ?D) ?x)"
  have n: "strspn (drop off ?buf) delim = Some n" using strspn_eq [OF s d] by (simp add: n_def)
  have nx: "n \<le> length ?x" by (simp add: n_def length_takeWhile_le)
  have yx: "y = drop n ?x" by (simp add: y n_def dropWhile_eq_drop)
  have s': "small_str (drop (off + n) ?buf)" "cstr (drop (off + n) ?buf) = y"
    using small_str_drop [OF s nx] cstr_drop [OF nx] by (simp_all add: yx add.commute)
  have m: "strcspn (drop (off + n) ?buf) delim = Some (length t)"
    using strcspn_eq [OF s'(1) d] s'(2) by (simp add: t)
  have ty: "length t \<le> length y" by (simp add: t length_takeWhile_le)
  have eq: "length t < length y \<longleftrightarrow> t \<noteq> y"
    using ty by (metis linorder_not_less nat_less_le t takeWhile_eq_take take_all)
  have "rd ?buf (off + n + length t) = rd (drop (off + n) ?buf) (length t)"
    using cstr_less [of "drop (off + n) ?buf"] s' ty by (simp add: rd_def small_str_def)
  then have "rd ?buf (off + n + length t) = Some (if t \<noteq> y then y ! length t else NUL)"
    using rd_cstr [of "drop (off + n) ?buf" "length t"] s' ty eq by (simp add: small_str_def)
  moreover have "t \<noteq> y \<Longrightarrow> y ! length t \<noteq> NUL"
    using cstr_char_not_NUL [of "length t" "drop (off + n) ?buf"] s'(2) eq by simp
  ultimately show thesis
    using p n m s' by (intro that [of "off + n"]) (auto simp: strtok_def Let_def)
qed

lemma strtok_all_tokens:
  assumes "str = Some (b, off) \<or> str = None \<and> tok_rem st = Some (b, off)"
    and "small_str (drop off (arrays st b))" and d: "small_str delim"
    and "length (tokenize (set (cstr delim)) (cstr (drop off (arrays st b)))) < fuel"
  shows "\<exists>st'. strtok_all fuel st str delim =
           Some (tokenize (set (cstr delim)) (cstr (drop off (arrays st b))), st')"
  using assms(1,2,4)
proof (induction fuel arbitrary: st str off)
  case 0
  then show ?case by simp
next
  case (Suc fuel)
  let ?D = "set (cstr delim)" and ?x = "cstr (drop off (arrays st b))"
  define y where "y = dropWhile (\<lambda>c. c \<in> ?D) ?x"
  define t where "t = takeWhile (\<lambda>c. c \<notin> ?D) y"
  obtain o' where o': "small_str (drop o' (arrays st b))" "cstr (drop o' (arrays st b)) = y"
    and tok: "strtok st str delim =
     (if t = [] then Some (None, st\<lparr>tok_rem := Some (b, o')\<rparr>)
      else if t = y then Some (Some (b, o'), st\<lparr>tok_rem := None\<rparr>)
      else Some (Some (b, o'),
             st\<lparr>arrays := (arrays st)(b := (arrays st b)[o' + length t := NUL]),
                tok_rem := Some (b, o' + length t + 1)\<rparr>))"
    using strtok_eq [OF Suc.prems(1,2) d y_def t_def] by metis
  have t0: "t = [] \<longleftrightarrow> y = []"
    using hd_dropWhile [of "\<lambda>c. c \<in> ?D" ?x] by (cases y) (auto simp: t_def simp flip: y_def)
  show ?case
  proof (cases "y = []")
    case True
    then show ?thesis using tok t0 by (simp add: tokenize_all_delims flip: y_def)
  next
    case False
    note tk = tokenize_token [OF y_def [symmetric] False, folded t_def]
    have dw: "dropWhile (\<lambda>c. c \<notin> ?D) y = drop (length t) y" by (simp add: t_def dropWhile_eq_drop)
    have tt: "t = take (length t) y" by (simp add: t_def takeWhile_eq_take [symmetric])
    show ?thesis
    proof (cases "t = y")
      case True
      then show ?thesis using tok t0 False tk dw o'(2) Suc.prems(3)
        by (cases fuel) (simp_all add: strtok_def)
    next
      case ty: False
      let ?st = "st\<lparr>arrays := (arrays st)(b := (arrays st b)[o' + length t := NUL]),
                tok_rem := Some (b, o' + length t + 1)\<rparr>"
      have l: "length t < length y" using ty tt by (metis linorder_not_less take_all)
      have c: "cstr (drop o' (arrays ?st b)) = t"
        using cstr_update [of "length t" "drop o' (arrays st b)"] o' l tt cstr_less [of "drop o' (arrays st b)"]
        by (simp add: drop_update_swap small_str_def)
      have r: "small_str (drop (Suc (length t)) (drop o' (arrays st b)))"
        "cstr (drop (Suc (length t)) (drop o' (arrays st b))) = tl (drop (length t) y)"
        using small_str_drop [OF o'(1), of "Suc (length t)"] o'(2) l
          cstr_drop [of "Suc (length t)" "drop o' (arrays st b)"]
        by (simp_all add: drop_Suc tl_drop)
      have "\<exists>st'. strtok_all fuel ?st None delim = Some (tokenize ?D (tl (drop (length t) y)), st')"
        using Suc.IH [of None "o' + length t + 1" ?st] r Suc.prems(3) tk dw by (simp add: add_ac)
      then show ?thesis using tok t0 False ty tk dw c by auto
    qed
  qed
qed

section \<open>Properties\<close>

text \<open>
  On terminated strings no longer than INT_MAX the three scanning functions never read
  outside their arrays and return the length of the string, of its longest prefix of
  accepted characters, and of its longest prefix free of rejected ones.
\<close>

theorem strlen_strspn_strcspn_correct:
  assumes "small_str s" and "small_str a"
  shows "strlen s = Some (length (cstr s))
    \<and> strspn s a = Some (length (takeWhile (\<lambda>c. c \<in> set (cstr a)) (cstr s)))
    \<and> strcspn s a = Some (length (takeWhile (\<lambda>c. c \<notin> set (cstr a)) (cstr s)))"
  using assms by (simp add: strlen_eq strspn_eq strcspn_eq)

theorem strlen_strspn_strcspn_correct_witness:
  "strspn (''aab;x'' @ [NUL]) (''ab'' @ [NUL]) = Some 3"
  using strlen_strspn_strcspn_correct [of "''aab;x'' @ [NUL]" "''ab'' @ [NUL]"]
  by (simp add: small_str_def)

text \<open>
  strncmp compares two terminated strings safely: the result is 0 exactly when the first
  n characters agree, and for strings of characters with a non-negative char value it is
  negative exactly when the first string comes first in the dictionary order.
\<close>

theorem strncmp_dictionary_order:
  assumes "terminated s1" and "terminated s2"
    and "\<forall>c \<in> set (cstr s1) \<union> set (cstr s2). 0 \<le> schar c"
  shows "\<exists>r. strncmp s1 s2 n = Some r
    \<and> (r = 0 \<longleftrightarrow> take n (cstr s1) = take n (cstr s2))
    \<and> (r < 0 \<longleftrightarrow> (take n (cstr s1), take n (cstr s2)) \<in> lexord {(x, y). schar x < schar y})"
  using strncmp_zero_iff [OF assms(1,2), of n] strncmp_less_iff [OF assms] by blast

theorem strncmp_dictionary_order_witness:
  "\<exists>r. strncmp (''abc'' @ [NUL]) (''abd'' @ [NUL]) 3 = Some r \<and> r < 0"
  using strncmp_dictionary_order [of "''abc'' @ [NUL]" "''abd'' @ [NUL]" 3]
  by (auto simp: schar_def)

text \<open>
  C38. strstr with a non-empty needle returns the offset of the first occurrence of the needle
  in the haystack, and NULL exactly when there is none.
\<close>

theorem strstr_first_occurrence:
  assumes "small_str h" and "small_str nd" and "cstr nd \<noteq> []"
  shows "\<exists>r. strstr h nd = Some r \<and>
    (case r of
       None \<Rightarrow> \<forall>i < length (cstr h). \<not> prefix (cstr nd) (drop i (cstr h))
     | Some i \<Rightarrow> i < length (cstr h) \<and> prefix (cstr nd) (drop i (cstr h))
         \<and> (\<forall>k < i. \<not> prefix (cstr nd) (drop k (cstr h))))"
proof -
  let ?P = "\<lambda>k. prefix (cstr nd) (drop k (cstr h))" and ?ks = "[0..<length (cstr h)]"
  have e: "strstr h nd = Some (case filter ?P ?ks of [] \<Rightarrow> None | k # _ \<Rightarrow> Some k)"
    using assms strstr_loop_spec [of h nd "length (cstr nd)" 0]
    by (simp add: strstr_def strlen_eq small_str_def)
  show ?thesis
  proof (cases "filter ?P ?ks")
    case Nil
    show ?thesis unfolding e Nil using first_of_filter_upt(1) [OF Nil] by simp
  next
    case (Cons k ks)
    show ?thesis unfolding e Cons using first_of_filter_upt(2) [OF Cons] by simp
  qed
qed

theorem strstr_first_occurrence_witness:
  "\<exists>r. strstr (''haystack'' @ [NUL]) (''st'' @ [NUL]) = Some r \<and> r \<noteq> None"
proof -
  obtain r where r: "strstr (''haystack'' @ [NUL]) (''st'' @ [NUL]) = Some r"
    "r = None \<Longrightarrow> \<forall>i < 8. \<not> prefix ''st'' (drop i ''haystack'')"
    using strstr_first_occurrence [of "''haystack'' @ [NUL]" "''st'' @ [NUL]"]
    by (auto simp: small_str_def simp del: drop_Cons_numeral split: option.splits)
  moreover have "prefix ''st'' (drop 3 ''haystack'')" by simp
  ultimately have "r \<noteq> None" using spec [of "\<lambda>i. i < 8 \<longrightarrow> \<not> prefix ''st'' (drop i ''haystack'')" 3] by auto
  with r(1) show ?thesis by blast
qed

text \<open>
  C37. Calling strtok on a string and then with NULL until it answers NULL delivers exactly the
  tokens of the string, the maximal runs of non-delimiters in order, without reading outside
  the array; as many rounds as there are tokens, plus the final one, are enough.
\<close>

theorem strtok_delivers_tokens:
  assumes "small_str (drop off (arrays st b))" and "small_str delim"
    and "length (tokenize (set (cstr delim)) (cstr (drop off (arrays st b)))) < fuel"
  shows "\<exists>st'. strtok_all fuel st (Some (b, off)) delim =
    Some (tokenize (set (cstr delim)) (cstr (drop off (arrays st b))), st')"
  using strtok_all_tokens [OF _ assms] by blast

theorem strtok_delivers_tokens_witness:
  "\<exists>st'. strtok_all 5 \<lparr>arrays = (\<lambda>_. ''1,2,,,34'' @ [NUL]), tok_rem = None\<rparr> (Some (0, 0))
     ('','' @ [NUL]) = Some ([''1'', ''2'', ''34''], st')"
  using strtok_delivers_tokens [of 0 "\<lparr>arrays = (\<lambda>_. ''1,2,,,34'' @ [NUL]), tok_rem = None\<rparr>" 0
      "'','' @ [NUL]" 5]
  by (simp add: small_str_def tokenize.simps)

text \<open>
  Where the library leaves the C standard: an empty needle is not found, and a character
  above 127 counts as negative, so it sorts before the end of the string.
\<close>

lemma strstr_empty_needle: "small_str nd \<Longrightarrow> cstr nd = [] \<Longrightarrow> strstr h nd = Some None"
  by (simp add: strstr_def strlen_eq)

lemma strncmp_high_char: "strncmp [CHR 0x80, NUL] [NUL] 1 = Some (- 128)"
  by (simp add: schar_def)

end
