(* ===== verification/Seccomp.thy ===== *)
theory Seccomp
  imports Prelude
begin

text \<open>
  The filters of system calls that the two test programs install, \<^verbatim>\<open>src/stringsperf/performance/sec.h\<close> and
  \<^verbatim>\<open>src/stringsperf/strings/sec.h\<close>. A filter is a program for the packet-filter machine of the Linux kernel, which runs it
  on every system call. Of the machine the filters use three instructions: a load from the description of the
  call, a comparison with two forward jumps, and a return. The numbers that the headers of the kernel give to architectures
  and system calls depend on the architecture and are a record.
\<close>

section \<open>The machine\<close>

datatype syscall = NR_exit_group | NR_write | NR_read | NR_fstat | NR_mmap | NR_fork | NR_clone | NR_wait4

record abi =
  ARCH_NR :: uint32
  NR :: "syscall \<Rightarrow> uint32"

definition i386 :: abi where
  "i386 = \<lparr>ARCH_NR = 0x40000003, NR = (\<lambda>c. case c of NR_exit_group \<Rightarrow> 252 | NR_write \<Rightarrow> 4 | NR_read \<Rightarrow> 3 | NR_fstat \<Rightarrow> 108
     | NR_mmap \<Rightarrow> 90 | NR_fork \<Rightarrow> 2 | NR_clone \<Rightarrow> 120 | NR_wait4 \<Rightarrow> 114)\<rparr>"

definition x86_64 :: abi where
  "x86_64 = \<lparr>ARCH_NR = 0xC000003E, NR = (\<lambda>c. case c of NR_exit_group \<Rightarrow> 231 | NR_write \<Rightarrow> 1 | NR_read \<Rightarrow> 0 | NR_fstat \<Rightarrow> 5
     | NR_mmap \<Rightarrow> 9 | NR_fork \<Rightarrow> 57 | NR_clone \<Rightarrow> 56 | NR_wait4 \<Rightarrow> 61)\<rparr>"

text \<open>The description of a call: its number at offset 0, the architecture at offset 4, and further words.\<close>

record seccomp_data =
  call_nr :: uint32
  call_arch :: uint32
  call_rest :: "nat \<Rightarrow> uint32"

definition load_word :: "seccomp_data \<Rightarrow> uint32 \<Rightarrow> uint32" where
  "load_word d off = (if off = 0 then call_nr d else if off = 4 then call_arch d else call_rest d (unat off))"

record sock_filter =
  code :: nat
  jt :: nat
  jf :: nat
  k_value :: uint32

abbreviation BPF_LD_W_ABS :: nat where "BPF_LD_W_ABS \<equiv> 0x20"
abbreviation BPF_JMP_JEQ_K :: nat where "BPF_JMP_JEQ_K \<equiv> 0x15"
abbreviation BPF_RET_K :: nat where "BPF_RET_K \<equiv> 0x06"

abbreviation SECCOMP_RET_KILL :: uint32 where "SECCOMP_RET_KILL \<equiv> 0"
abbreviation SECCOMP_RET_TRAP :: uint32 where "SECCOMP_RET_TRAP \<equiv> 0x00030000"
abbreviation SECCOMP_RET_ERRNO :: uint32 where "SECCOMP_RET_ERRNO \<equiv> 0x00050000"
abbreviation SECCOMP_RET_ALLOW :: uint32 where "SECCOMP_RET_ALLOW \<equiv> 0x7FFF0000"

definition BPF_STMT :: "nat \<Rightarrow> uint32 \<Rightarrow> sock_filter" where
  "BPF_STMT c k = \<lparr>code = c, jt = 0, jf = 0, k_value = k\<rparr>"

definition BPF_JUMP :: "nat \<Rightarrow> uint32 \<Rightarrow> nat \<Rightarrow> nat \<Rightarrow> sock_filter" where
  "BPF_JUMP c k t f = \<lparr>code = c, jt = t, jf = f, k_value = k\<rparr>"

text \<open>
  Execution of what is left of a program with an accumulator. Jumps skip instructions; running off the end, or
  an instruction of another kind, has no result.
\<close>

function run_filter :: "sock_filter list \<Rightarrow> seccomp_data \<Rightarrow> uint32 \<Rightarrow> uint32 option" where
  "run_filter [] d acc = None"
| "run_filter (i # is) d acc =
     (if code i = BPF_LD_W_ABS then run_filter is d (load_word d (k_value i))
      else if code i = BPF_JMP_JEQ_K then run_filter (drop (if acc = k_value i then jt i else jf i) is) d acc
      else if code i = BPF_RET_K then Some (k_value i)
      else None)"
  by pat_completeness auto
termination by (relation "measure (\<lambda>(is, d, acc). length is)") auto

text \<open>What the kernel does for a result: the upper half is the action, the lower half its data.\<close>

datatype decision = Kills | Traps | Fails nat | Performs | Other_action

definition kernel_action :: "uint32 \<Rightarrow> decision" where
  "kernel_action r = (let a = r AND 0x7FFF0000 in
     if a = SECCOMP_RET_KILL then Kills else if a = SECCOMP_RET_TRAP then Traps
     else if a = SECCOMP_RET_ERRNO then Fails (unat (r AND 0xFFFF)) else if a = SECCOMP_RET_ALLOW then Performs
     else Other_action)"

section \<open>The filters\<close>

definition ALLOW :: "abi \<Rightarrow> syscall \<Rightarrow> sock_filter list" where
  "ALLOW b c = [BPF_JUMP BPF_JMP_JEQ_K (NR b c) 0 1, BPF_STMT BPF_RET_K SECCOMP_RET_ALLOW]"

definition VALIDATE_ARCH :: "abi \<Rightarrow> sock_filter list" where
  "VALIDATE_ARCH b =
     [BPF_STMT BPF_LD_W_ABS 4, BPF_JUMP BPF_JMP_JEQ_K (ARCH_NR b) 1 0, BPF_STMT BPF_RET_K SECCOMP_RET_KILL]"

definition EXAMINE_SYSCALL :: "sock_filter list" where
  "EXAMINE_SYSCALL = [BPF_STMT BPF_LD_W_ABS 0]"

definition KILL_PROCESS_performance :: "sock_filter list" where
  "KILL_PROCESS_performance = [BPF_STMT BPF_RET_K SECCOMP_RET_ERRNO]"

definition KILL_PROCESS_strings :: "sock_filter list" where
  "KILL_PROCESS_strings = [BPF_STMT BPF_RET_K SECCOMP_RET_TRAP]"

definition filter_performance :: "abi \<Rightarrow> sock_filter list" where
  "filter_performance b = VALIDATE_ARCH b @ EXAMINE_SYSCALL @ ALLOW b NR_exit_group @ ALLOW b NR_write @ ALLOW b NR_read
     @ ALLOW b NR_fstat @ ALLOW b NR_mmap @ KILL_PROCESS_performance"

definition filter_strings :: "abi \<Rightarrow> sock_filter list" where
  "filter_strings b = VALIDATE_ARCH b @ EXAMINE_SYSCALL @ ALLOW b NR_exit_group @ ALLOW b NR_write @ ALLOW b NR_read
     @ ALLOW b NR_fstat @ ALLOW b NR_mmap @ ALLOW b NR_fork @ ALLOW b NR_clone @ ALLOW b NR_wait4 @ KILL_PROCESS_strings"

text \<open>
  \<^verbatim>\<open>install_seccomp\<close>, the same in both files: the results of the two calls of \<^verbatim>\<open>prctl\<close> are parameters; the outcome is an
  exit, with its message, or the program that filters from then on. The length is an \<^verbatim>\<open>unsigned short\<close>.
\<close>

definition install_seccomp :: "int \<Rightarrow> int \<Rightarrow> sock_filter list \<Rightarrow> (string \<times> int) + sock_filter list" where
  "install_seccomp no_new_privs set_seccomp prog =
     (if no_new_privs \<noteq> 0 then Inl (''prctl(NO_NEW_PRIVS)'', 1)
      else if set_seccomp \<noteq> 0 then Inl (''prctl(SECCOMP)'', 1)
      else Inr (take (length prog mod 2 ^ 16) prog))"

section \<open>What the filters decide\<close>

text \<open>
  The interface of both files: a program that tests the architecture, then the number of the call against
  a list, and returns a fixed value for every other call.
\<close>

locale allow_list =
  fixes prog :: "abi \<Rightarrow> sock_filter list" and calls :: "syscall list" and deny :: uint32
  assumes shape: "prog b = VALIDATE_ARCH b @ EXAMINE_SYSCALL @ concat (map (ALLOW b) calls) @ [BPF_STMT BPF_RET_K deny]"
    and short: "length calls < 1000"
begin

lemma run_allow: "run_filter (concat (map (ALLOW b) cs) @ [BPF_STMT BPF_RET_K deny]) d acc
    = Some (if acc \<in> NR b ` set cs then SECCOMP_RET_ALLOW else deny)"
  by (induction cs) (auto simp: ALLOW_def BPF_JUMP_def BPF_STMT_def)

lemma decides: "run_filter (prog b) d acc =
    Some (if call_arch d \<noteq> ARCH_NR b then SECCOMP_RET_KILL else if call_nr d \<in> NR b ` set calls then SECCOMP_RET_ALLOW else deny)"
  by (simp add: shape VALIDATE_ARCH_def EXAMINE_SYSCALL_def BPF_STMT_def [of 32] BPF_JUMP_def load_word_def run_allow)
    (simp add: BPF_STMT_def)

lemma installed: "install_seccomp 0 0 (prog b) = Inr (prog b)"
proof -
  have "length (prog b) = 5 + 2 * length calls"
    by (simp add: shape VALIDATE_ARCH_def EXAMINE_SYSCALL_def length_concat ALLOW_def comp_def sum_list_triv)
  then show ?thesis using short by (simp add: install_seccomp_def)
qed

end

interpretation perf: allow_list filter_performance "[NR_exit_group, NR_write, NR_read, NR_fstat, NR_mmap]" SECCOMP_RET_ERRNO
  by unfold_locales (simp_all add: filter_performance_def KILL_PROCESS_performance_def)

interpretation strs: allow_list filter_strings
    "[NR_exit_group, NR_write, NR_read, NR_fstat, NR_mmap, NR_fork, NR_clone, NR_wait4]" SECCOMP_RET_TRAP
  by unfold_locales (simp_all add: filter_strings_def KILL_PROCESS_strings_def)

lemma kernel_action_values:
  "kernel_action SECCOMP_RET_KILL = Kills" "kernel_action SECCOMP_RET_TRAP = Traps"
  "kernel_action SECCOMP_RET_ERRNO = Fails 0" "kernel_action SECCOMP_RET_ALLOW = Performs"
  by (simp_all add: kernel_action_def)

text \<open>
  C23. Once \<^verbatim>\<open>install_seccomp\<close> has succeeded the filter decides every system call on every architecture, whatever the accumulator
  holds at first: a call of another architecture kills the process, a call on the list is performed, and no other
  call is. There the two files differ: the string tests end with a signal, but the
  performance test goes on, its call failing with error number 0.
\<close>

theorem filters_decide:
  "install_seccomp 0 0 (filter_performance b) = Inr (filter_performance b)
   \<and> map_option kernel_action (run_filter (filter_performance b) d acc) = Some
       (if call_arch d \<noteq> ARCH_NR b then Kills
        else if call_nr d \<in> NR b ` {NR_exit_group, NR_write, NR_read, NR_fstat, NR_mmap} then Performs else Fails 0)
   \<and> install_seccomp 0 0 (filter_strings b) = Inr (filter_strings b)
   \<and> map_option kernel_action (run_filter (filter_strings b) d acc) = Some
       (if call_arch d \<noteq> ARCH_NR b then Kills
        else if call_nr d \<in> NR b ` {NR_exit_group, NR_write, NR_read, NR_fstat, NR_mmap, NR_fork, NR_clone, NR_wait4} then Performs
        else Traps)"
  by (simp add: perf.installed strs.installed perf.decides strs.decides kernel_action_values)

text \<open>
  On both architectures the numbers are different from each other, so the performance test cannot start a process.
\<close>

lemma performance_cannot_fork:
  assumes "b \<in> {i386, x86_64}" "call_arch d = ARCH_NR b" "call_nr d \<in> NR b ` {NR_fork, NR_clone}"
  shows "map_option kernel_action (run_filter (filter_performance b) d acc) = Some (Fails 0)"
  using assms by (auto simp: perf.decides kernel_action_values i386_def x86_64_def)

end
