(* ===== verification/StringTests.thy ===== *)
theory StringTests
  imports CStrings Seccomp
begin

text \<open>
  The test program of the string library, \<^verbatim>\<open>src/stringsperf/strings/strings_tests.c\<close>: the tests of the six functions of the
  library, the choice of tests by the arguments, and what is run and timed. A test is the list
  of its assertions; the functions that count and print them are not in the repository, and an
  assertion passes when what its name says holds. The functions that the library does not
  define (\<^verbatim>\<open>strchr\<close>, \<^verbatim>\<open>strncpy\<close>, \<^verbatim>\<open>strcmp\<close>) are those of the C standard.
\<close>

section \<open>The tests\<close>

definition USEAGE :: string where
  "USEAGE = ''./run_tests <number of times to run test, default to 1000000> <all | names of tests to run>''
     @ [newline]
     @ ''   Ex. \"./run_tests 10000 all\" runs all tests 10000 times each''
     @ [newline]
     @ ''   Ex. \"./run_tests 100 strlen strchr\" runs the strlen and strchr tests 100 times each''
     @ [newline]
     @ ''   Ex. \"./run_tests strtok\" runs the strtok test 1000000 times''"

definition SUPER_LONG_STRING :: string where
  "SUPER_LONG_STRING = USEAGE @ USEAGE @ USEAGE"

text \<open>A string literal as an array, and the string at an offset of an array.\<close>

definition literal :: "string \<Rightarrow> char list" where
  "literal s = s @ [NUL]"

definition string_at :: "char list \<Rightarrow> nat \<Rightarrow> string" where
  "string_at s off = cstr (drop off s)"

datatype assertion = Equal_int int "int option" | Same_sign int "int option" | Equal_str "string option" "string option option"
  | Equal_char char "char option"

text \<open>What is compared is inside \<^const>\<open>Some\<close> when the call under test has a value.\<close>

fun passes :: "assertion \<Rightarrow> bool" where
  "passes (Equal_int e a) \<longleftrightarrow> a = Some e"
| "passes (Same_sign e a) \<longleftrightarrow> (case a of None \<Rightarrow> False | Some r \<Rightarrow> sgn r = sgn e)"
| "passes (Equal_str e a) \<longleftrightarrow> a = Some e"
| "passes (Equal_char e a) \<longleftrightarrow> a = Some e"

text \<open>
  The functions of the standard: \<^verbatim>\<open>strchr\<close> gives an offset into the string, and \<^verbatim>\<open>strncpy\<close> fills up with
  null characters. The destination must have room.
\<close>

fun strchr :: "char list \<Rightarrow> char \<Rightarrow> nat option option" where
  "strchr [] ch = None"
| "strchr (x # xs) ch = (if x = ch then Some (Some 0) else if x = NUL then Some None
     else map_option (map_option Suc) (strchr xs ch))"

definition strncpy :: "char list \<Rightarrow> char list \<Rightarrow> nat \<Rightarrow> char list option" where
  "strncpy dest src n = (if length dest < n \<or> \<not> terminated src \<and> length src < n then None
     else Some (take n (cstr src @ replicate n NUL) @ drop n dest))"

definition test_strlen :: "assertion list" where
  "test_strlen = map (\<lambda>(e, s). Equal_int e (map_option int (strlen (literal s))))
     [(0, []), (4, ''asdf''), (5, ''asdf ''), (2, [newline, newline]), (304, USEAGE)]"

definition test_strchr :: "assertion list" where
  "test_strchr = map (\<lambda>(e, s, ch). Equal_str e (map_option (map_option (string_at (literal s))) (strchr (literal s) ch)))
     [(Some ''12345'', ''12345'', CHR ''1''), (Some (string_at (literal ''12345'') 1), ''12345'', CHR ''2''),
      (None, ''12345'', CHR ''6''), (Some (string_at (literal ''brown university'') 6), ''brown university'', CHR ''u''),
      (Some USEAGE, USEAGE, CHR ''.'')]"

definition char_at :: "char list option \<Rightarrow> char \<times> nat \<Rightarrow> assertion" where
  "char_at buf p = Equal_char (fst p) (buf \<bind> (\<lambda>b. rd b (snd p)))"

text \<open>The three arrays are not initialised; \<open>junk\<close> is what they hold.\<close>

definition test_strncpy :: "char \<Rightarrow> assertion list" where
  "test_strncpy junk =
     (let abbreviation = strncpy (replicate 5 junk) (literal ''professor'') 3;
          buffer = strncpy (replicate 10 junk) (literal ''brown'') 10;
          good_fit = strncpy (replicate 5 junk) (literal ''okay'') 4
      in map (char_at abbreviation) [(CHR ''p'', 0), (CHR ''r'', 1), (CHR ''o'', 2)]
         @ [Equal_str (Some ''brown'') (map_option (\<lambda>b. Some (string_at b 0)) buffer)]
         @ map (\<lambda>i. char_at buffer (NUL, i)) [5..<10]
         @ map (char_at good_fit) [(CHR ''o'', 0), (CHR ''k'', 1), (CHR ''a'', 2), (CHR ''y'', 3)])"

definition test_strcmp :: "assertion list" where
  "test_strcmp = map (\<lambda>(e, s, t). Same_sign e (Some (strcmp s t)))
     [(- 2, ''professor'', ''rpf''), (17, ''test'', ''case''), (0, ''abc'', ''abc''), (101, ''one'', ''on''), (114, ''rpf'', []),
      (- 74, USEAGE, CHR ''x'' # USEAGE)]"

definition test_strspn :: "assertion list" where
  "test_strspn = map (\<lambda>(e, s, a). Equal_int e (map_option int (strspn (literal s) (literal a))))
     [(2, ''professor'', ''rpf''), (0, ''professor'', []), (3, SUPER_LONG_STRING, ''r/.'')]"

definition test_strcspn :: "assertion list" where
  "test_strcspn = map (\<lambda>(e, s, a). Equal_int e (map_option int (strcspn (literal s) (literal a))))
     [(0, ''professor'', ''rpf''), (9, ''professor'', []), (4, ''professor'', ''es''), (0, SUPER_LONG_STRING, ''r/.'')]"

definition test_strncmp :: "assertion list" where
  "test_strncmp = map (\<lambda>(e, s, t, n). Same_sign e (strncmp (literal s) (literal t) n))
     [(- 2, ''professor'', ''rpf'', 3), (17, ''test'', ''case'', 1), (0, ''abc'', ''abc'', 5), (0, ''asdf'', ''asde'', 3),
      (114, ''rpf'', [], 3), (0, ''rpf'', [], 0), (0, USEAGE, USEAGE @ ''x'', 5)]"

definition test_strstr :: "assertion list" where
  "test_strstr = map (\<lambda>(e, h, n). Equal_str e (map_option (map_option (string_at (literal h))) (strstr (literal h) (literal n))))
     [(Some ''defg'', ''abcdefg'', ''de''), (Some ''babab'', ''abbabab'', ''bab''), (Some ''eg'', ''abcdeg'', ''eg''),
      (None, ''abcdeg'', ''dg''), (None, ''abcdeg'', ''f''), (Some ''eg'', ''eg'', ''eg'')]"

text \<open>The calls of \<^verbatim>\<open>strtok\<close> on one array, first with the array and then with \<^verbatim>\<open>NULL\<close>.\<close>

primrec tokens :: "string option list \<Rightarrow> tok_state \<Rightarrow> cptr option \<Rightarrow> char list \<Rightarrow> assertion list" where
  "tokens [] st p delim = []"
| "tokens (e # es) st p delim = (case strtok st p delim of
       None \<Rightarrow> [Equal_str e None]
     | Some (r, st) \<Rightarrow> Equal_str e (Some (map_option (\<lambda>(b, off). string_at (arrays st b) off) r)) # tokens es st None delim)"

definition strtok_case :: "string option list \<Rightarrow> string \<Rightarrow> string \<Rightarrow> assertion list" where
  "strtok_case es s delim = tokens es \<lparr>arrays = (\<lambda>_. s @ replicate (80 - length s) NUL), tok_rem = None\<rparr> (Some (0, 0)) (literal delim)"

definition test_strtok :: "assertion list" where
  "test_strtok = strtok_case [Some ''1'', Some ''2'', Some ''3'', Some ''4'', None] ''1,2,,3,4'' '',''
     @ strtok_case [Some ''33'', Some ''6'', Some ''77'', None] '';;;33;;6;;77;'' '';;''"

section \<open>The choice of tests\<close>

datatype unit_test = strlen_t | strchr_t | strcpy_t | strncpy_t | strcat_t | strncat_t | strpbrk_t | strspn_t | strcspn_t | strcmp_t
  | strncmp_t | strstr_t | strtok_t | All_tests

text \<open>
  What happens: a test is run in a process of its own, with the number of tests and the name that are printed if
  it fails; a test is timed; an unknown name is reported.
\<close>

datatype test_run = Checked unit_test nat string | Timed unit_test int string | Unknown string

text \<open>The seven calls of \<^verbatim>\<open>test_all\<close>.\<close>

definition in_all :: "(unit_test \<times> nat \<times> string) list" where
  "in_all = [(strlen_t, 5, ''strlen''), (strspn_t, 3, ''strspn''), (strcspn_t, 4, ''strcspn''), (strncmp_t, 7, ''strncmp''),
     (strncpy_t, 7, ''strncpy''), (strstr_t, 6, ''strstr''), (strtok_t, 9, ''strtok'')]"

text \<open>
  The two wrappers. In a process of its own \<^verbatim>\<open>test_all\<close> runs each of its tests in another one. Timing it
  sets \<^verbatim>\<open>should_time\<close>, which makes it time each of its tests; a timed test is called a tenth as often before.
\<close>

definition run_test_in_separate_process :: "unit_test \<Rightarrow> nat \<Rightarrow> string \<Rightarrow> test_run list" where
  "run_test_in_separate_process t n message =
     (if t = All_tests then map (\<lambda>(u, n, m). Checked u n m) in_all else []) @ [Checked t n message]"

definition time_test :: "int \<Rightarrow> unit_test \<Rightarrow> nat \<Rightarrow> string \<Rightarrow> test_run list" where
  "time_test num_repeat t n message =
     (if t = All_tests then map (\<lambda>(u, n, m). Timed u (max 0 (num_repeat sdiv 10) + max 0 num_repeat) m) in_all
      else [Timed t (max 0 (num_repeat sdiv 10) + max 0 num_repeat) message])"

definition test_table :: "(string \<times> unit_test \<times> nat) list" where
  "test_table = [(''all'', All_tests, 0), (''strlen'', strlen_t, 5), (''strchr'', strchr_t, 0), (''strcpy'', strcpy_t, 0),
     (''strncpy'', strncpy_t, 0), (''strcat'', strcat_t, 0), (''strncat'', strncat_t, 0), (''strpbrk'', strpbrk_t, 0),
     (''strspn'', strspn_t, 3), (''strcspn'', strcspn_t, 4), (''strcmp'', strcmp_t, 0), (''strncmp'', strncmp_t, 5),
     (''strstr'', strstr_t, 7), (''strtok'', strtok_t, 9)]"

text \<open>\<open>number\<close> says which names \<^verbatim>\<open>sscanf\<close> reads as a number, and which.\<close>

definition foreach_test :: "(string \<Rightarrow> int option) \<Rightarrow> string list \<Rightarrow> (unit_test \<Rightarrow> nat \<Rightarrow> string \<Rightarrow> test_run list) \<Rightarrow> test_run list" where
  "foreach_test number test_names wrapper = concat (map (\<lambda>test_name. case map_of test_table test_name of
       Some (t, n) \<Rightarrow> wrapper t n test_name
     | None \<Rightarrow> if number test_name = None then [Unknown test_name] else []) test_names)"

text \<open>
  The results of the two calls of \<^verbatim>\<open>prctl\<close> in \<^const>\<open>install_seccomp\<close> come first; the result is the exit status with what was run.
\<close>

definition strings_main :: "abi \<Rightarrow> int \<Rightarrow> int \<Rightarrow> (string \<Rightarrow> int option) \<Rightarrow> string list \<Rightarrow> int \<times> test_run list" where
  "strings_main b privs secc number argv = (if argv = [] then (1, [])
     else (let num_repeat = (case number (hd argv) of Some n \<Rightarrow> n | None \<Rightarrow> 1000000) in
       case install_seccomp privs secc (filter_strings b) of
         Inl (_, status) \<Rightarrow> (status, [])
       | Inr _ \<Rightarrow> (0, foreach_test number argv run_test_in_separate_process @ foreach_test number argv (time_test num_repeat))))"

section \<open>Every test passes\<close>

definition assertions :: "char \<Rightarrow> unit_test \<Rightarrow> assertion list" where
  "assertions junk t = (case t of strlen_t \<Rightarrow> test_strlen | strchr_t \<Rightarrow> test_strchr | strncpy_t \<Rightarrow> test_strncpy junk | strcmp_t \<Rightarrow> test_strcmp | strspn_t \<Rightarrow> test_strspn | strcspn_t \<Rightarrow> test_strcspn | strncmp_t \<Rightarrow> test_strncmp
     | strstr_t \<Rightarrow> test_strstr | strtok_t \<Rightarrow> test_strtok | _ \<Rightarrow> [])"

lemma small_literal: "NUL \<notin> set s \<Longrightarrow> length s < 2000 \<Longrightarrow> small_str (literal s) \<and> cstr (literal s) = s"
  by (induction s) (auto simp: small_str_def literal_def)

lemma literal_simps: "terminated (literal s)" "NUL \<notin> set s \<Longrightarrow> cstr (literal s) = s"
  by (induction s) (auto simp: literal_def)

lemma useage: "NUL \<notin> set USEAGE" "length USEAGE = 304"
  by (simp_all add: USEAGE_def)

lemma strlen_passes: "\<forall>a \<in> set test_strlen. passes a"
  using useage by (simp add: test_strlen_def strlen_eq small_literal literal_simps)

lemma strspn_passes: "\<forall>a \<in> set test_strspn. passes a"
  using useage by (simp add: test_strspn_def strspn_eq small_literal literal_simps SUPER_LONG_STRING_def) (simp add: USEAGE_def)

lemma strcspn_passes: "\<forall>a \<in> set test_strcspn. passes a"
  using useage by (simp add: test_strcspn_def strcspn_eq small_literal literal_simps SUPER_LONG_STRING_def) (simp add: USEAGE_def)

lemma strncmp_passes: "\<forall>a \<in> set test_strncmp. passes a"
  by (simp add: test_strncmp_def literal_def schar_def USEAGE_def eval_nat_numeral)

lemma strtok_passes: "\<forall>a \<in> set test_strtok. passes a"
  unfolding test_strtok_def by code_simp

lemma strstr_passes: "\<forall>a \<in> set test_strstr. passes a"
  unfolding test_strstr_def by code_simp

lemma strchr_passes: "\<forall>a \<in> set test_strchr. passes a"
  unfolding test_strchr_def by code_simp

lemma strcmp_passes: "\<forall>a \<in> set test_strcmp. passes a"
  unfolding test_strcmp_def by code_simp

lemma strncpy_passes: "\<forall>a \<in> set (test_strncpy junk). passes a"
  by (simp add: test_strncpy_def Let_def strncpy_def char_at_def rd_def literal_def string_at_def eval_nat_numeral)

theorem library_passes_its_tests: "\<forall>a \<in> set (assertions junk t). passes a"
  using strlen_passes strchr_passes strncpy_passes strcmp_passes strspn_passes strcspn_passes strncmp_passes strstr_passes strtok_passes
  by (cases t) (simp_all add: assertions_def)

text \<open>
  The numbers of tests that are printed when a test process dies: those of \<^verbatim>\<open>test_all\<close> are right but for \<^verbatim>\<open>strncpy\<close>, and two
  of those for a single test of the library are not.
\<close>

lemma announced_numbers:
  "\<forall>(t, n, m) \<in> set in_all. t \<noteq> strncpy_t \<longrightarrow> n = length (assertions junk t)"
  "(strncpy_t, 7, ''strncpy'') \<in> set in_all" "length (assertions junk strncpy_t) = 13"
  "map_of test_table ''strncmp'' = Some (strncmp_t, 5)" "length (assertions junk strncmp_t) = 7"
  "map_of test_table ''strstr'' = Some (strstr_t, 7)" "length (assertions junk strstr_t) = 6"
  by (simp_all add: in_all_def assertions_def test_strlen_def test_strspn_def test_strcspn_def test_strncmp_def test_strstr_def
        test_strncpy_def Let_def test_table_def)
    (simp add: test_strtok_def, code_simp)

end
