(* ===== verification/Poly.thy ===== *)
theory Poly
  imports Prelude
begin

text \<open>
  Polynomial evaluation, \<^verbatim>\<open>src/stringsperf/performance\<close>: the straightforward \<open>poly_naive\<close>
  and the five-way unrolled \<open>poly\<close>. The \<^verbatim>\<open>double\<close> arithmetic is modelled exactly, over an
  arbitrary commutative ring, so the theorems are about the algorithms and not about
  rounding. The coefficient array is a list, its index is a C \<^verbatim>\<open>int\<close>, and a read outside the
  array has no value.
\<close>

definition rdi :: "'a list \<Rightarrow> int \<Rightarrow> 'a option" where
  "rdi a i = (if 0 \<le> i then rd a (nat i) else None)"

lemma rdi_int [simp]: "rdi a (int k) = rd a k"
  by (simp add: rdi_def)

lemma rdi_numeral [simp]: "rdi a 0 = rd a 0" "rdi a 1 = rd a 1" "rdi a (numeral n) = rd a (numeral n)"
  by (simp_all add: rdi_def)

section \<open>The naive evaluation\<close>

function poly_naive_loop :: "'a::comm_ring_1 list \<Rightarrow> 'a \<Rightarrow> int \<Rightarrow> int \<Rightarrow> 'a \<Rightarrow> 'a \<Rightarrow> 'a option" where
  "poly_naive_loop a x degree i result xpwr =
     (if i \<le> degree
      then do {
        ai \<leftarrow> rdi a i;
        poly_naive_loop a x degree (i + 1) (result + ai * xpwr) (x * xpwr)
      }
      else Some result)"
  by auto
termination by (relation "measure (\<lambda>(a, x, degree, i, result, xpwr). nat (degree + 1 - i))") auto

declare poly_naive_loop.simps [simp del]

definition poly_naive :: "'a::comm_ring_1 list \<Rightarrow> 'a \<Rightarrow> int \<Rightarrow> 'a option" where
  "poly_naive a x degree = do {
     result \<leftarrow> rdi a 0;
     poly_naive_loop a x degree 1 result x
   }"

section \<open>The unrolled evaluation\<close>

text \<open>The five accumulators \<^verbatim>\<open>result1\<close> to \<^verbatim>\<open>result5\<close>.\<close>

record 'a results =
  result1 :: 'a
  result2 :: 'a
  result3 :: 'a
  result4 :: 'a
  result5 :: 'a

text \<open>The \<^verbatim>\<open>for\<close> loop; it also returns the final value of the index \<^verbatim>\<open>i\<close>.\<close>

function poly_loop :: "'a::comm_ring_1 list \<Rightarrow> 'a \<Rightarrow> int \<Rightarrow> 'a results \<Rightarrow> ('a results \<times> int) option" where
  "poly_loop a x5 i r =
     (if i \<ge> 5
      then do {
        a0 \<leftarrow> rdi a i;
        a1 \<leftarrow> rdi a (i - 1);
        a2 \<leftarrow> rdi a (i - 2);
        a3 \<leftarrow> rdi a (i - 3);
        a4 \<leftarrow> rdi a (i - 4);
        poly_loop a x5 (i - 5)
          \<lparr>result1 = x5 * result1 r + a0, result2 = x5 * result2 r + a1,
           result3 = x5 * result3 r + a2, result4 = x5 * result4 r + a3,
           result5 = x5 * result5 r + a4\<rparr>
      }
      else Some (r, i))"
  by auto
termination by (relation "measure (\<lambda>(a, x5, i, r). nat i)") auto

declare poly_loop.simps [simp del]

text \<open>The \<^verbatim>\<open>switch\<close> on the remaining index, with its five cases as they are written.\<close>

definition poly_cleanup :: "'a::comm_ring_1 list \<Rightarrow> 'a \<Rightarrow> int \<Rightarrow> 'a results \<Rightarrow> 'a results option" where
  "poly_cleanup a x i r = (
     let x2 = x * x; x3 = x * x2; x4 = x * x3; x5 = x * x4 in
     if i = 0 then
       Some \<lparr>result1 = result1 r * x5, result2 = result2 r * x4, result3 = result3 r * x3,
             result4 = result4 r * x2, result5 = result5 r * x\<rparr>
     else if i = 1 then do {
       a1 \<leftarrow> rdi a 1;
       Some \<lparr>result1 = (x5 * result1 r + a1) * x, result2 = result2 r * x5,
             result3 = result3 r * x4, result4 = result4 r * x3, result5 = result5 r * x2\<rparr>
     }
     else if i = 2 then do {
       a2 \<leftarrow> rdi a 2;
       a1 \<leftarrow> rdi a 1;
       Some \<lparr>result1 = (x5 * result1 r + a2) * x2, result2 = (x5 * result2 r + a1) * x,
             result3 = result3 r * x5, result4 = result4 r * x4, result5 = result5 r * x3\<rparr>
     }
     else if i = 3 then do {
       a3 \<leftarrow> rdi a 3;
       a2 \<leftarrow> rdi a 2;
       a1 \<leftarrow> rdi a 1;
       Some \<lparr>result1 = (x5 * result1 r + a3) * x3, result2 = (x5 * result2 r + a2) * x2,
             result3 = (x5 * result3 r + a1) * x, result4 = result4 r * x4,
             result5 = result5 r * x5\<rparr>
     }
     else if i = 4 then do {
       a4 \<leftarrow> rdi a 4;
       a3 \<leftarrow> rdi a 3;
       a2 \<leftarrow> rdi a 2;
       a1 \<leftarrow> rdi a 1;
       Some \<lparr>result1 = (x5 * result1 r + a4) * x4, result2 = (x5 * result2 r + a3) * x3,
             result3 = (x5 * result3 r + a2) * x2,
             result4 = (result4 r * (x5 * result4 r + a1)) * x,
             result5 = result5 r * x5\<rparr>
     }
     else Some r)"

definition poly :: "'a::comm_ring_1 list \<Rightarrow> 'a \<Rightarrow> int \<Rightarrow> 'a option" where
  "poly a x degree = do {
     let x2 = x * x;
     let x3 = x * x2;
     let x4 = x * x3;
     let x5 = x * x4;
     r1 \<leftarrow> rdi a degree;
     r2 \<leftarrow> rdi a (degree - 1);
     r3 \<leftarrow> rdi a (degree - 2);
     r4 \<leftarrow> rdi a (degree - 3);
     r5 \<leftarrow> rdi a (degree - 4);
     (r, i) \<leftarrow> poly_loop a x5 (degree - 5)
       \<lparr>result1 = r1, result2 = r2, result3 = r3, result4 = r4, result5 = r5\<rparr>;
     r \<leftarrow> poly_cleanup a x i r;
     a0 \<leftarrow> rdi a 0;
     Some (a0 + result1 r + result2 r + result3 r + result4 r + result5 r)
   }"

section \<open>Specification and correctness\<close>

definition peval :: "'a::comm_ring_1 list \<Rightarrow> 'a \<Rightarrow> nat \<Rightarrow> 'a" where
  "peval a x n = (\<Sum>k\<le>n. a ! k * x ^ k)"

lemma peval_Suc: "peval a x (Suc n) = peval a x n + a ! Suc n * x ^ Suc n"
  by (simp add: peval_def)

lemma poly_naive_loop_eq:
  assumes "degree < length a" and "i \<le> degree"
  shows "poly_naive_loop a x (int degree) (int i + 1) (peval a x i) (x ^ Suc i) = Some (peval a x degree)"
  using assms(2)
proof (induction "degree - i" arbitrary: i)
  case 0
  then show ?case by (simp add: poly_naive_loop.simps)
next
  case (Suc d)
  then have "rdi a (int i + 1) = Some (a ! Suc i)" "Suc i \<le> degree" "d = degree - Suc i"
    using assms(1) rdi_int [of a "Suc i"] by (simp_all add: rd_def add.commute)
  with Suc(1) [of "Suc i"] show ?case
    by (subst poly_naive_loop.simps) (simp add: peval_Suc add.commute)
qed

lemma poly_naive_eq: "degree < length a \<Longrightarrow> poly_naive a x (int degree) = Some (peval a x degree)"
  using poly_naive_loop_eq [of degree a 0 x] by (cases a) (simp_all add: poly_naive_def rd_def peval_def)

text \<open>
  What the accumulators stand for when the index is \<open>i\<close>: the terms of degree above \<open>i\<close>.
\<close>

definition contrib :: "'a::comm_ring_1 \<Rightarrow> nat \<Rightarrow> 'a results \<Rightarrow> 'a" where
  "contrib x i r = result1 r * x ^ (i + 5) + result2 r * x ^ (i + 4) + result3 r * x ^ (i + 3)
     + result4 r * x ^ (i + 2) + result5 r * x ^ (i + 1)"

lemma peval_5: "peval a x (n + 5) = peval a x n + contrib x n
    \<lparr>result1 = a ! (n + 5), result2 = a ! (n + 4), result3 = a ! (n + 3), result4 = a ! (n + 2), result5 = a ! (n + 1)\<rparr>"
  using peval_Suc [of a x n] peval_Suc [of a x "n + 1"] peval_Suc [of a x "n + 2"]
    peval_Suc [of a x "n + 3"] peval_Suc [of a x "n + 4"]
  by (simp add: contrib_def eval_nat_numeral algebra_simps)

lemma contrib_step:
  "contrib x n \<lparr>result1 = x ^ 5 * result1 r + c5, result2 = x ^ 5 * result2 r + c4, result3 = x ^ 5 * result3 r + c3,
     result4 = x ^ 5 * result4 r + c2, result5 = x ^ 5 * result5 r + c1\<rparr>
   = contrib x (n + 5) r + contrib x n \<lparr>result1 = c5, result2 = c4, result3 = c3, result4 = c2, result5 = c1\<rparr>"
  by (simp add: contrib_def power_add eval_nat_numeral algebra_simps)

lemma poly_loop_eq:
  assumes "i < length a"
  shows "\<exists>r'. poly_loop a (x ^ 5) (int i) r = Some (r', int (i mod 5)) \<and>
    contrib x (i mod 5) r' + peval a x (i mod 5) = contrib x i r + peval a x i"
  using assms
proof (induction i arbitrary: r rule: less_induct)
  case (less i)
  show ?case
  proof (cases "i < 5")
    case True
    then show ?thesis by (simp add: poly_loop.simps)
  next
    case False
    then obtain n where i: "i = n + 5" by (metis add.commute le_Suc_ex not_less)
    let ?r = "\<lparr>result1 = x ^ 5 * result1 r + a ! (n + 5), result2 = x ^ 5 * result2 r + a ! (n + 4),
      result3 = x ^ 5 * result3 r + a ! (n + 3), result4 = x ^ 5 * result4 r + a ! (n + 2),
      result5 = x ^ 5 * result5 r + a ! (n + 1)\<rparr>"
    have "rdi a (int i - int k) = Some (a ! (i - k))" if "k \<le> 4" for k
      using rdi_int [of a "i - k"] that less.prems False by (simp add: rd_def of_nat_diff)
    from this [of 0] this [of 1] this [of 2] this [of 3] this [of 4]
    have "poly_loop a (x ^ 5) (int i) r = poly_loop a (x ^ 5) (int n) ?r"
      by (subst poly_loop.simps) (simp add: i eval_nat_numeral)
    moreover have "contrib x n ?r + peval a x n = contrib x i r + peval a x i"
      unfolding i peval_5 contrib_step by (simp only: ac_simps)
    moreover have "i mod 5 = n mod 5" "n < i" "n < length a" using i less.prems by simp_all
    ultimately show ?thesis using less.IH [of n ?r] by simp
  qed
qed

lemma cleanup_eq:
  assumes "i \<le> 2" and "i < length a"
  shows "\<exists>r'. poly_cleanup a x (int i) r = Some r' \<and>
    a ! 0 + result1 r' + result2 r' + result3 r' + result4 r' + result5 r' = contrib x i r + peval a x i"
proof -
  have "i = 0 \<or> i = 1 \<or> i = 2" using assms(1) by linarith
  with assms(2) show ?thesis
    by (elim disjE)
      (simp_all add: poly_cleanup_def rd_def contrib_def peval_def Let_def eval_nat_numeral algebra_simps)
qed

lemma poly_eq:
  assumes "5 \<le> degree" "degree < length a" "degree mod 5 \<le> 2"
  shows "poly a x (int degree) = Some (peval a x degree)"
proof -
  obtain n where n: "degree = n + 5" using assms(1) by (metis add.commute le_Suc_ex)
  let ?r = "\<lparr>result1 = a ! (n + 5), result2 = a ! (n + 4), result3 = a ! (n + 3),
    result4 = a ! (n + 2), result5 = a ! (n + 1)\<rparr>"
  have rds: "rdi a (int degree - int k) = Some (a ! (degree - k))" if "k \<le> 4" for k
    using rdi_int [of a "degree - k"] that assms by (simp add: rd_def of_nat_diff)
  obtain r' where r': "poly_loop a (x ^ 5) (int n) ?r = Some (r', int (n mod 5))"
    "contrib x (n mod 5) r' + peval a x (n mod 5) = contrib x n ?r + peval a x n"
    using poly_loop_eq [of n a x ?r] assms n by auto
  obtain r'' where r'': "poly_cleanup a x (int (n mod 5)) r' = Some r''"
    "a ! 0 + result1 r'' + result2 r'' + result3 r'' + result4 r'' + result5 r'' =
       contrib x (n mod 5) r' + peval a x (n mod 5)"
    using cleanup_eq [of "n mod 5" a x r'] assms n by auto
  have x5: "x * (x * (x * (x * x))) = x ^ 5" by (simp add: eval_nat_numeral)
  have "rdi a (int degree) = Some (a ! (n + 5))" "rdi a (int degree - 1) = Some (a ! (n + 4))"
    "rdi a (int degree - 2) = Some (a ! (n + 3))" "rdi a (int degree - 3) = Some (a ! (n + 2))"
    "rdi a (int degree - 4) = Some (a ! (n + 1))" "rdi a 0 = Some (a ! 0)"
    using rds [of 0] rds [of 1] rds [of 2] rds [of 3] rds [of 4] n assms(2)
    by (cases a; simp add: rd_def eval_nat_numeral)+
  moreover have "int degree - 5 = int n" using n by simp
  ultimately have "poly a x (int degree) =
      Some (a ! 0 + result1 r'' + result2 r'' + result3 r'' + result4 r'' + result5 r'')"
    using r'(1) r''(1) by (simp add: poly_def x5 del: rdi_int rdi_numeral)
  then show ?thesis unfolding r''(2) r'(2) n peval_5 by (simp only: ac_simps)
qed

text \<open>
  The naive evaluation reads only the array and returns the value of the polynomial.
\<close>

theorem poly_naive_value:
  assumes "degree < length a"
  shows "poly_naive a x (int degree) = Some (\<Sum>k\<le>degree. a ! k * x ^ k)"
  using poly_naive_eq [OF assms] by (simp add: peval_def)

theorem poly_naive_value_witness: "poly_naive [1, 2, 3] (2::int) 2 = Some 17"
  using poly_naive_value [of 2 "[1, 2, 3]" "2::int"] by (simp add: eval_nat_numeral)



text \<open>
  The other two remainders are wrong: the fourth case swaps two factors and the fifth
  multiplies an accumulator into itself. Degree four leaves the switch by its default case
  with no factor applied at all.
\<close>

lemma poly_degree_8:
  "poly [0, 0, 0, 0, 1, 0, 0, 0, 0] (2::int) 8 = Some 32"
  "poly_naive [0, 0, 0, 0, 1, 0, 0, 0, 0] (2::int) 8 = Some 16"
  using poly_naive_eq [of 8 "[0, 0, 0, 0, 1, 0, 0, 0, 0]" "2::int"]
  by (simp_all add: poly_def poly_loop.simps poly_cleanup_def rd_def peval_def eval_nat_numeral)

lemma poly_degree_9:
  "poly [0, 1, 0, 0, 0, 0, 0, 0, 0, 0] (2::int) 9 = Some 0"
  "poly_naive [0, 1, 0, 0, 0, 0, 0, 0, 0, 0] (2::int) 9 = Some 2"
  using poly_naive_eq [of 9 "[0, 1, 0, 0, 0, 0, 0, 0, 0, 0]" "2::int"]
  by (simp_all add: poly_def poly_loop.simps poly_cleanup_def rd_def peval_def eval_nat_numeral)

lemma poly_degree_4:
  "poly [0, 1, 0, 0, 0] (2::int) 4 = Some 1" "poly_naive [0, 1, 0, 0, 0] (2::int) 4 = Some 2"
  using poly_naive_eq [of 4 "[0, 1, 0, 0, 0]" "2::int"]
  by (simp_all add: poly_def poly_loop.simps poly_cleanup_def rd_def peval_def eval_nat_numeral)

end
