(* ===== verification/PolyMain.thy ===== *)
theory PolyMain
  imports Poly Seccomp
begin

text \<open>
  The test program of the polynomial evaluation, \<^verbatim>\<open>src/stringsperf/performance/main.c\<close>: its arguments, the
  twenty coefficient arrays, the speed test and the correctness test. \<open>double\<close> is an element of a linearly
  ordered field. The values of \<^verbatim>\<open>rand\<close>, the readings of the clock, what \<^verbatim>\<open>malloc\<close> returns and the evaluator
  \<^verbatim>\<open>poly_fast\<close>, of which the repository has only the object file, are parameters. What the program prints is a
  list of outputs, one for each call that prints.
\<close>

section \<open>Arguments\<close>

record poly_options =
  degree :: int
  iterations :: int
  all_flag :: bool
  correct_flag :: bool
  speed_flag :: bool

definition c_llong :: "int \<Rightarrow> int option" where
  "c_llong i = (if - 9223372036854775808 \<le> i \<and> i \<le> 9223372036854775807 then Some i else None)"

definition atoll :: "string \<Rightarrow> int option" where
  "atoll s = (case dropWhile isspace s of
       [] \<Rightarrow> Some 0
     | c # cs \<Rightarrow> c_llong (if c = CHR ''-'' then - digits_val 0 cs
                        else if c = CHR ''+'' then digits_val 0 cs
                        else digits_val 0 (c # cs)))"

text \<open>The loop over the arguments from the third on sets \<^verbatim>\<open>correct_flag\<close> and \<^verbatim>\<open>all_flag\<close>.\<close>

primrec read_flags :: "string list \<Rightarrow> bool \<times> bool \<Rightarrow> bool \<times> bool" where
  "read_flags [] fl = fl"
| "read_flags (s # ss) fl =
     (let fl = (if s = ''--check'' \<or> s = ''-c'' then (True, snd fl) else fl);
          fl = (if s = ''--all'' \<or> s = ''-a'' then (fst fl, True) else fl)
      in read_flags ss fl)"

text \<open>\<^const>\<open>Inl\<close> is the status of an exit. A number out of range has no defined value.\<close>

definition parse_args :: "string list \<Rightarrow> (int + poly_options) option" where
  "parse_args argv =
     (if length argv < 3 \<or> 5 < length argv then Some (Inl 1)
      else do {
        deg \<leftarrow> atoi (argv ! 1);
        iters \<leftarrow> atoll (argv ! 2);
        let (correct, al) = read_flags (drop 3 argv) (False, False);
        Some (if deg < 15 then Inl 1
              else Inr \<lparr>degree = deg, iterations = iters, all_flag = al, correct_flag = correct,
                        speed_flag = \<not> (correct \<and> \<not> al)\<rparr>)
      })"

section \<open>Coefficients\<close>

text \<open>
  \<^verbatim>\<open>update_coefficients\<close> draws the coefficients of one power for all arrays before those of the next. The
  state is the arrays with the number of random values drawn.
\<close>

fun update_power :: "(nat \<Rightarrow> nat) \<Rightarrow> nat \<Rightarrow> 'a::linordered_field list list \<times> nat \<Rightarrow> ('a list list \<times> nat) option" where
  "update_power rand i ([], n) = Some ([], n)"
| "update_power rand i (a # as, n) = do {
     rd a i;
     (as, m) \<leftarrow> update_power rand i (as, n + 1);
     Some (a[i := of_nat (rand n mod 10)] # as, m)
   }"

definition update_coefficients :: "(nat \<Rightarrow> nat) \<Rightarrow> int \<Rightarrow> 'a::linordered_field list list \<times> nat \<Rightarrow> ('a list list \<times> nat) option" where
  "update_coefficients rand deg = foldM (update_power rand) [0..<nat (deg + 1)]"

section \<open>The speed test\<close>

datatype 'a report =
    Testing string
  | Elapsed int int
  | Result 'a
  | Speed_header
  | Performance_header
  | Yes
  | No
  | Correct_header
  | Total nat nat
  | Not_enough_memory

text \<open>\<^verbatim>\<open>timersub\<close> of the C library on a pair of seconds and microseconds.\<close>

definition timersub :: "int \<times> int \<Rightarrow> int \<times> int \<Rightarrow> int \<times> int" where
  "timersub b a = (let s = fst b - fst a; u = snd b - snd a in if u < 0 then (s - 1, u + 1000000) else (s, u))"

text \<open>The evaluations of one round; the last value stays in \<^verbatim>\<open>result\<close>.\<close>

definition eval_arrays :: "('a list \<Rightarrow> 'a \<Rightarrow> int \<Rightarrow> 'a option) \<Rightarrow> 'a list list \<Rightarrow> 'a \<Rightarrow> int \<Rightarrow> 'a option \<Rightarrow> 'a option option" where
  "eval_arrays f as x deg = foldM (\<lambda>a _. do { v \<leftarrow> f a x deg; Some (Some v) }) as"

text \<open>The loop counts in steps of twenty; the counter must not overflow.\<close>

function test_loop :: "('a list \<Rightarrow> 'a \<Rightarrow> int \<Rightarrow> 'a option) \<Rightarrow> 'a list list \<Rightarrow> 'a \<Rightarrow> int \<Rightarrow> int \<Rightarrow> int \<Rightarrow> 'a option \<Rightarrow> 'a option option" where
  "test_loop f as x deg iters i result =
     (if i < iters
      then do {
        result \<leftarrow> eval_arrays f as x deg result;
        i' \<leftarrow> c_llong (i + 20);
        test_loop f as x deg iters i' result
      }
      else Some result)"
  by auto
termination
  by (relation "measure (\<lambda>(f, as, x, deg, iters, i, result). nat (iters - i))")
    (auto simp: c_llong_def split: if_splits)

declare test_loop.simps [simp del]

text \<open>
  The state of the tests: the arrays, the values drawn and the readings of the clock taken. A result that no
  round has set must not be printed. The time comes back as an \<^verbatim>\<open>int\<close>.
\<close>

record 'a tests =
  arrays :: "'a list list"
  draws :: nat
  readings :: nat

definition test_poly :: "(nat \<Rightarrow> nat) \<Rightarrow> (nat \<Rightarrow> int \<times> int) \<Rightarrow> 'a \<Rightarrow> int \<Rightarrow> string \<Rightarrow> ('a list \<Rightarrow> 'a \<Rightarrow> int \<Rightarrow> 'a option) \<Rightarrow> int \<Rightarrow>
    'a::linordered_field tests \<Rightarrow> (int \<times> 'a report list \<times> 'a tests) option" where
  "test_poly rand clock x deg name f iters s = do {
     (as, n) \<leftarrow> update_coefficients rand deg (arrays s, draws s);
     result \<leftarrow> test_loop f as x deg iters 0 None;
     let (sec, usec) = timersub (clock (readings s + 1)) (clock (readings s));
     v \<leftarrow> result;
     Some (sint (word_of_int (sec * 1000000 + usec) :: int32), [Testing name, Elapsed sec usec, Result v],
           \<lparr>arrays = as, draws = n, readings = readings s + 2\<rparr>)
   }"

text \<open>The verdict on the three times.\<close>

definition verdict :: "int \<Rightarrow> int \<Rightarrow> int \<Rightarrow> bool option" where
  "verdict time_naive time_fast time_user = do {
     d \<leftarrow> c_int (time_naive - time_fast);
     t \<leftarrow> c_int (d sdiv 3 + time_fast);
     Some (t > time_user)
   }"

definition speed_test :: "(nat \<Rightarrow> nat) \<Rightarrow> (nat \<Rightarrow> int \<times> int) \<Rightarrow> ('a list \<Rightarrow> 'a \<Rightarrow> int \<Rightarrow> 'a option) \<Rightarrow> poly_options \<Rightarrow> 'a \<Rightarrow>
    'a::linordered_field tests \<Rightarrow> ('a report list \<times> 'a tests) option" where
  "speed_test rand clock poly_fast opts x s =
     (let test = \<lambda>name f. test_poly rand clock x (degree opts) name f (iterations opts) in
      if all_flag opts then do {
        (time_naive, out1, s) \<leftarrow> test ''poly_naive'' poly_naive s;
        (time_user, out2, s) \<leftarrow> test ''poly'' poly s;
        (time_fast, out3, s) \<leftarrow> test ''poly_fast'' poly_fast s;
        v \<leftarrow> verdict time_naive time_fast time_user;
        Some (Speed_header # out1 @ out2 @ out3 @ [Performance_header, if v then Yes else No], s)
      } else do {
        (time_user, out, s) \<leftarrow> test ''poly'' poly s;
        Some (Speed_header # out, s)
      })"

section \<open>The correctness test\<close>

abbreviation CORRECT_TESTS :: nat where "CORRECT_TESTS \<equiv> 1000000"

definition random_coefficients :: "(nat \<Rightarrow> nat) \<Rightarrow> int \<Rightarrow> 'a::linordered_field list \<times> nat \<Rightarrow> ('a list \<times> nat) option" where
  "random_coefficients rand deg =
     foldM (\<lambda>j (a, n). do { rd a j; Some (a[j := of_nat (rand n mod 10)], n + 1) }) [0..<nat (deg + 1)]"

text \<open>The loop with \<open>k\<close> tests to go, on the first array, the values drawn and the count.\<close>

primrec correct_loop :: "(nat \<Rightarrow> nat) \<Rightarrow> int \<Rightarrow> 'a::linordered_field \<Rightarrow> nat \<Rightarrow> 'a list \<times> nat \<times> nat \<Rightarrow> ('a list \<times> nat \<times> nat) option" where
  "correct_loop rand deg x 0 s = Some s"
| "correct_loop rand deg x (Suc k) s = (let (a, n, correct) = s in do {
     (a, n) \<leftarrow> random_coefficients rand deg (a, n);
     v \<leftarrow> poly a x deg;
     w \<leftarrow> poly_naive a x deg;
     let res = v - w;
     correct_loop rand deg x k
       (a, n, if res \<le> 1 / 100000 \<and> 0 - 1 / 100000 \<le> res then correct + 1 else correct)
   })"

definition correctness_test :: "(nat \<Rightarrow> nat) \<Rightarrow> poly_options \<Rightarrow> 'a::linordered_field \<Rightarrow> 'a tests \<Rightarrow>
    ('a report list \<times> 'a tests) option" where
  "correctness_test rand opts x s = do {
     a1 \<leftarrow> rd (arrays s) 0;
     (a1, n, correct) \<leftarrow> correct_loop rand (degree opts) x CORRECT_TESTS (a1, draws s, 0);
     Some ([Correct_header, Total correct CORRECT_TESTS], s\<lparr>arrays := (arrays s)[0 := a1], draws := n\<rparr>)
   }"

section \<open>The program\<close>

text \<open>
  The arrays that \<^verbatim>\<open>malloc\<close> returns; only the last one is tested, and using another that is \<^verbatim>\<open>NULL\<close> is undefined,
  as is a size that overflows. \<open>privs\<close> and \<open>secc\<close> are the results of the two calls of \<^verbatim>\<open>prctl\<close>. The status of the exit comes with
  the output.
\<close>

definition poly_main :: "abi \<Rightarrow> int \<Rightarrow> int \<Rightarrow> (nat \<Rightarrow> nat) \<Rightarrow> (nat \<Rightarrow> int \<times> int) \<Rightarrow> (nat \<Rightarrow> nat \<Rightarrow> 'a list option) \<Rightarrow>
    ('a list \<Rightarrow> 'a \<Rightarrow> int \<Rightarrow> 'a option) \<Rightarrow> string list \<Rightarrow> (int \<times> 'a::linordered_field report list) option" where
  "poly_main b privs secc rand clock malloc poly_fast argv = do {
     r \<leftarrow> parse_args argv;
     case r of Inl status \<Rightarrow> Some (status, [])
     | Inr opts \<Rightarrow> do {
         len \<leftarrow> c_int (degree opts + 1);
         let blocks = map (\<lambda>k. malloc k (nat len)) [0..<20];
         let x = 1 + 1 / of_int (degree opts);
         if blocks ! 19 = None then Some (1, [Not_enough_memory])
         else (case install_seccomp privs secc (filter_performance b) of
             Inl (_, status) \<Rightarrow> Some (status, [])
           | Inr _ \<Rightarrow> do {
             as \<leftarrow> those blocks;
             (out1, s) \<leftarrow> (if speed_flag opts then speed_test rand clock poly_fast opts x \<lparr>arrays = as, draws = 0, readings = 0\<rparr>
                          else Some ([], \<lparr>arrays = as, draws = 0, readings = 0\<rparr>));
             (out2, s) \<leftarrow> (if correct_flag opts then correctness_test rand opts x s else Some ([], s));
             Some (0, out1 @ out2)
           })
       }
   }"

section \<open>The correctness test counts every test\<close>

text \<open>
  For a degree whose remainder modulo five is at most two the two evaluators agree on every array, so the
  difference is zero in every test.
\<close>

lemma random_coefficients_total:
  assumes "length a = Suc d"
  shows "\<exists>b m. random_coefficients rand (int d) (a, n) = Some (b, m) \<and> length b = Suc d"
proof -
  have "\<exists>t. random_coefficients rand (int d) (a, n) = Some t \<and> length (fst t) = Suc d"
    unfolding random_coefficients_def
  proof (rule foldM_invariant [where I = "\<lambda>_ t. length (fst t) = Suc d"])
    fix ds x rest and t :: "'a list \<times> nat"
    assume e: "[0..<nat (int d + 1)] = ds @ x # rest" and l: "length (fst t) = Suc d"
    have "x \<in> set [0..<nat (int d + 1)]" unfolding e by simp
    then have "x < Suc d" by auto
    then show "\<exists>t'. (case t of (a, n) \<Rightarrow> do { rd a x; Some (a[x := of_nat (rand n mod 10)], n + 1) }) = Some t' \<and>
        length (fst t') = Suc d"
      using l by (cases t) (simp add: rd_def)
  qed (use assms in simp)
  then show ?thesis by force
qed

lemma correct_loop_total:
  assumes "length a = Suc d" "5 \<le> d" "d mod 5 \<le> 2"
  shows "\<exists>b m. correct_loop rand (int d) x k (a, n, c) = Some (b, m, c + k) \<and> length b = Suc d"
  using assms(1)
proof (induction k arbitrary: a n c)
  case (Suc k)
  obtain b m where b: "random_coefficients rand (int d) (a, n) = Some (b, m)" "length b = Suc d"
    using random_coefficients_total [OF Suc.prems] by blast
  then have "poly b x (int d) = Some (peval b x d)" "poly_naive b x (int d) = Some (peval b x d)"
    using assms by (simp_all add: poly_eq poly_naive_eq)
  with b Suc.IH [OF b(2), of m "c + 1"] show ?case by simp
qed simp

lemma correctness_test_passes:
  assumes "degree opts = int d" "15 \<le> d" "d mod 5 \<le> 2" and "arrays s = a # as" "length a = Suc d"
  shows "\<exists>s'. correctness_test rand opts x s = Some ([Correct_header, Total CORRECT_TESTS CORRECT_TESTS], s')"
proof -
  obtain b m where "correct_loop rand (int d) x CORRECT_TESTS (a, draws s, 0) = Some (b, m, CORRECT_TESTS)"
    using correct_loop_total [of a d rand x CORRECT_TESTS "draws s" 0] assms by auto
  then show ?thesis
    using assms by (simp add: correctness_test_def rd_def del: correct_loop.simps)
qed

text \<open>The whole program with the argument that asks for the correctness test only.\<close>

theorem check_run_counts_all:
  assumes "atoi deg = Some (int d)" "15 \<le> d" "int d < INT_MAX" "d mod 5 \<le> 2"
    and "atoll iters = Some n" and "flag = ''-c'' \<or> flag = ''--check''"
    and "\<And>k. k < 20 \<Longrightarrow> \<exists>a. malloc k (Suc d) = Some a \<and> length a = Suc d"
  shows "poly_main b 0 0 rand clock malloc poly_fast [prog, deg, iters, flag]
    = Some (0, [Correct_header, Total CORRECT_TESTS CORRECT_TESTS])"
proof -
  define block where "block k = the (malloc k (Suc d))" for k
  have m: "malloc k (Suc d) = Some (block k)" "length (block k) = Suc d" if "k < 20" for k
    using assms(7) [OF that] by (auto simp: block_def)
  then have "those (map (\<lambda>k. malloc k (Suc d)) [0..<20]) = Some (map block [0..<20])"
    by (intro those_map_Some) simp
  moreover have "map block [0..<20] = block 0 # map block [1..<20]" by (simp add: upt_conv_Cons)
  moreover obtain opts where "parse_args [prog, deg, iters, flag] = Some (Inr opts)"
    "degree opts = int d" "\<not> speed_flag opts" "correct_flag opts"
    using assms by (auto simp: parse_args_def)
  moreover have "nat (1 + int d) = Suc d" by simp
  ultimately show ?thesis
    using assms m(1) [of 19] m(2) [of 0]
      correctness_test_passes [of opts d "\<lparr>arrays = map block [0..<20], draws = 0, readings = 0\<rparr>" "block 0" "map block [1..<20]"
        rand "1 + 1 / of_int (int d)"]
    by (auto simp: poly_main_def perf.installed add.commute c_int_def simp del: upt_conv_Cons upt_rec_numeral)
qed

text \<open>
  Without a positive number of iterations no round of the speed test runs, and the value printed at the end
  has never been set.
\<close>

lemma test_poly_no_rounds: "iters \<le> 0 \<Longrightarrow> test_poly rand clock x deg name f iters s = None"
  by (auto simp: test_poly_def test_loop.simps split: prod.split bind_splits)

end
