(* ===== verification/Timing.thy ===== *)
theory Timing
  imports Complex_Main Prelude "HOL-Library.Multiset"
begin

text \<open>
  The timing package of the allocator driver, \<^verbatim>\<open>src/malloc/clock.c\<close> and
  \<^verbatim>\<open>src/malloc/fcyc.c\<close>: the 64-bit difference of two cycle-counter readings computed in two
  32-bit halves, and the K-best measurement scheme. A \<^verbatim>\<open>double\<close> is an element of an
  arbitrary linearly ordered field: the arithmetic is exact.
\<close>

section \<open>The cycle counter\<close>

record counter =
  cyc_hi :: uint32
  cyc_lo :: uint32

text \<open>The two halves the \<^verbatim>\<open>rdtsc\<close> instruction delivers for a 64-bit counter value.\<close>

definition access_counter :: "uint64 \<Rightarrow> uint32 \<times> uint32" where
  "access_counter tsc = (ucast (drop_bit 32 tsc), ucast tsc)"

definition start_counter :: "uint64 \<Rightarrow> counter" where
  "start_counter tsc = (let (hi, lo) = access_counter tsc in \<lparr>cyc_hi = hi, cyc_lo = lo\<rparr>)"

definition get_counter :: "counter \<Rightarrow> uint64 \<Rightarrow> nat" where
  "get_counter c tsc =
     (let (ncyc_hi, ncyc_lo) = access_counter tsc;
          lo = ncyc_lo - cyc_lo c;
          borrow = (if lo > ncyc_lo then 1 else 0);
          hi = ncyc_hi - cyc_hi c - borrow
      in unat hi * 2 ^ 30 * 4 + unat lo)"

text \<open>The reading corrected for timer interrupts.\<close>

definition get_comp_counter :: "'a::linordered_field \<Rightarrow> int \<Rightarrow> int \<Rightarrow> counter \<Rightarrow> uint64 \<Rightarrow> 'a" where
  "get_comp_counter cyc_per_tick start_tick tms_utime c tsc =
     (let time = of_nat (get_counter c tsc); ticks = tms_utime - start_tick
      in time - of_int ticks * cyc_per_tick)"

lemma access_counter_unat:
  "access_counter t = (hi, lo) \<Longrightarrow> unat t = unat hi * 4294967296 + unat lo"
proof -
  assume "access_counter t = (hi, lo)"
  then have "hi = ucast (drop_bit 32 t)" "lo = ucast t" by (simp_all add: access_counter_def)
  moreover have "unat t < 2 ^ 64" using unsigned_less [of t, where 'a = nat] by simp
  ultimately have "unat hi = unat t div 4294967296" "unat lo = unat t mod 4294967296"
    by (simp_all add: unsigned_ucast_eq unat_drop_bit_eq drop_bit_eq_div take_bit_eq_mod unat_div_distrib less_mult_imp_div_less)
  then show ?thesis by simp
qed

lemma int_unat_sub32:
  "int (unat (x - y :: uint32)) = int (unat x) - int (unat y) + (if unat y \<le> unat x then 0 else 4294967296)"
  using unsigned_less [of y, where 'a = nat] by (auto simp: unat_sub_if_size word_size of_nat_diff)

lemma int_unat_sub64:
  "int (unat (x - y :: uint64)) = int (unat x) - int (unat y) + (if unat y \<le> unat x then 0 else 18446744073709551616)"
  using unsigned_less [of y, where 'a = nat] by (auto simp: unat_sub_if_size word_size of_nat_diff)

lemma get_counter_elapsed:
  "get_counter (start_counter t0) t1 = unat (t1 - t0)"
proof -
  obtain h0 l0 h1 l1 where a: "access_counter t0 = (h0, l0)" "access_counter t1 = (h1, l1)"
    by (metis surj_pair)
  note v = access_counter_unat [OF a(1)] access_counter_unat [OF a(2)]
  have b: "unat h0 < 4294967296" "unat l0 < 4294967296" "unat h1 < 4294967296" "unat l1 < 4294967296"
    using unsigned_less [of h0, where 'a = nat] unsigned_less [of l0, where 'a = nat]
      unsigned_less [of h1, where 'a = nat] unsigned_less [of l1, where 'a = nat] by simp_all
  have lt: "l1 < l1 - l0 \<longleftrightarrow> unat l1 < unat l0"
    using b int_unat_sub32 [of l1 l0] by (simp add: word_less_nat_alt split: if_splits del: of_nat_unat)
  have "int (get_counter (start_counter t0) t1) = int (unat (t1 - t0))"
  proof (cases "unat l1 < unat l0")
    case True
    then have "get_counter (start_counter t0) t1 = unat (h1 - h0 - 1) * 4294967296 + unat (l1 - l0)"
      using lt by (simp add: get_counter_def start_counter_def a Let_def)
    then show ?thesis
      using int_unat_sub32 [of l1 l0] int_unat_sub32 [of h1 h0] int_unat_sub32 [of "h1 - h0" 1]
        int_unat_sub64 [of t1 t0] v b True
      by (simp split: if_splits del: of_nat_unat)
  next
    case False
    then have "get_counter (start_counter t0) t1 = unat (h1 - h0) * 4294967296 + unat (l1 - l0)"
      using lt by (simp add: get_counter_def start_counter_def a Let_def)
    then show ?thesis
      using int_unat_sub32 [of l1 l0] int_unat_sub32 [of h1 h0] int_unat_sub64 [of t1 t0] v b False
      by (simp split: if_splits del: of_nat_unat)
  qed
  then show ?thesis by (simp only: of_nat_eq_iff)
qed

section \<open>The K-best sampler\<close>

text \<open>
  The static variables of \<^verbatim>\<open>fcyc.c\<close> that the scheme uses. \<^verbatim>\<open>values\<close> is \<^const>\<open>None\<close> when it is
  \<^verbatim>\<open>NULL\<close>.
\<close>

record 'a sampler =
  kbest :: int
  maxsamples :: int
  epsilon :: 'a
  compensate :: bool
  sample_values :: "'a list option"
  samplecount :: nat

definition sampler_default :: "'a::linordered_field sampler" where
  "sampler_default = \<lparr>kbest = 3, maxsamples = 20, epsilon = 1 / 100, compensate = False,
     sample_values = None, samplecount = 0\<rparr>"

definition set_fcyc_compensate :: "bool \<Rightarrow> 'a sampler \<Rightarrow> 'a sampler" where
  "set_fcyc_compensate b s = s\<lparr>compensate := b\<rparr>"

definition set_fcyc_k :: "int \<Rightarrow> 'a sampler \<Rightarrow> 'a sampler" where
  "set_fcyc_k k s = s\<lparr>kbest := k\<rparr>"

definition set_fcyc_maxsamples :: "int \<Rightarrow> 'a sampler \<Rightarrow> 'a sampler" where
  "set_fcyc_maxsamples m s = s\<lparr>maxsamples := m\<rparr>"

definition set_fcyc_epsilon :: "'a \<Rightarrow> 'a sampler \<Rightarrow> 'a sampler" where
  "set_fcyc_epsilon e s = s\<lparr>epsilon := e\<rparr>"

definition init_sampler :: "'a::linordered_field sampler \<Rightarrow> 'a sampler" where
  "init_sampler s = s\<lparr>sample_values := Some (replicate (nat (kbest s)) 0), samplecount := 0\<rparr>"

text \<open>The insertion loop at the end of \<^verbatim>\<open>add_sample\<close>.\<close>

fun sift_down :: "'a::linorder list \<Rightarrow> nat \<Rightarrow> 'a list option" where
  "sift_down vs 0 = Some vs"
| "sift_down vs (Suc p) = do {
     x \<leftarrow> rd vs p;
     y \<leftarrow> rd vs (Suc p);
     if x > y then sift_down (vs[p := y, Suc p := x]) p else Some vs
   }"

definition add_sample :: "'a::linordered_field \<Rightarrow> 'a sampler \<Rightarrow> 'a sampler option" where
  "add_sample val s = do {
     vs \<leftarrow> sample_values s;
     (vs, pos) \<leftarrow>
       (if int (samplecount s) < kbest s then do {
          rd vs (samplecount s);
          Some (vs[samplecount s := val], samplecount s)
        } else if kbest s < 1 then None
        else do {
          top \<leftarrow> rd vs (nat (kbest s) - 1);
          Some (if val < top then (vs[nat (kbest s) - 1 := val], nat (kbest s) - 1) else (vs, 0))
        });
     vs \<leftarrow> sift_down vs pos;
     Some (s\<lparr>sample_values := Some vs, samplecount := samplecount s + 1\<rparr>)
   }"

definition has_converged :: "'a::linordered_field sampler \<Rightarrow> bool option" where
  "has_converged s =
     (if int (samplecount s) \<ge> kbest s then do {
        vs \<leftarrow> sample_values s;
        lo \<leftarrow> rd vs 0;
        hi \<leftarrow> (if kbest s < 1 then None else rd vs (nat (kbest s) - 1));
        Some ((1 + epsilon s) * lo \<ge> hi)
      } else Some False)"

lemma add_sample_fields:
  "add_sample v s = Some s' \<Longrightarrow>
     samplecount s' = Suc (samplecount s) \<and> maxsamples s' = maxsamples s \<and> kbest s' = kbest s
     \<and> epsilon s' = epsilon s \<and> compensate s' = compensate s"
  by (auto simp: add_sample_def split: bind_splits prod.splits if_splits)

text \<open>
  The two \<^verbatim>\<open>do\<close>-\<^verbatim>\<open>while\<close> loops of \<^verbatim>\<open>fcyc\<close>, which differ only in the counter they read: \<open>meas\<close>
  is the measured time of the i-th run of the function under test with and without
  compensation.
\<close>

function fcyc_loop :: "(bool \<Rightarrow> nat \<Rightarrow> 'a::linordered_field) \<Rightarrow> 'a sampler \<Rightarrow> 'a sampler option" where
  "fcyc_loop meas s = do {
     s' \<leftarrow> add_sample (meas (compensate s) (samplecount s)) s;
     c \<leftarrow> has_converged s';
     if \<not> c \<and> int (samplecount s') < maxsamples s' then fcyc_loop meas s' else Some s'
   }"
  by auto
termination
  by (relation "measure (\<lambda>(meas, s). nat (maxsamples s - int (samplecount s)))")
    (auto dest!: add_sample_fields)

declare fcyc_loop.simps [simp del]

definition fcyc :: "(bool \<Rightarrow> nat \<Rightarrow> 'a::linordered_field) \<Rightarrow> 'a sampler \<Rightarrow> ('a \<times> 'a sampler) option" where
  "fcyc meas s = do {
     s \<leftarrow> fcyc_loop meas (init_sampler s);
     vs \<leftarrow> sample_values s;
     result \<leftarrow> rd vs 0;
     Some (result, s\<lparr>sample_values := None\<rparr>)
   }"

subsection \<open>The array holds the smallest samples in order\<close>

lemma insort_snoc_greater: "sorted (xs @ [x]) \<Longrightarrow> y < x \<Longrightarrow> insort y (xs @ [x]) = insort y xs @ [x]"
  by (induction xs) auto

lemma insort_snoc_le: "\<forall>x \<in> set xs. x \<le> y \<Longrightarrow> sorted xs \<Longrightarrow> insort y xs = xs @ [y]"
proof (induction xs)
  case (Cons x xs)
  then show ?case
  proof (cases "x = y")
    case True
    then have "\<forall>z \<in> set xs. z = y" using Cons.prems by (auto intro: order.antisym)
    then have "xs = replicate (length xs) y" by (simp add: replicate_eqI)
    then have e: "y # xs = xs @ [y]" by (metis replicate_append_same)
    have "insort y (x # xs) = y # (y # xs)" using True by simp
    also have "\<dots> = (x # xs) @ [y]" unfolding True by (simp add: e)
    finally show ?thesis .
  qed auto
qed simp

lemma sift_down_insort:
  "sorted pre \<Longrightarrow> sift_down (pre @ y # post) (length pre) = Some (insort y pre @ post)"
proof (induction pre arbitrary: y post rule: rev_induct)
  case (snoc x pre)
  then have s: "sorted pre" "\<forall>z \<in> set pre. z \<le> x" by (simp_all add: sorted_append)
  show ?case
  proof (cases "y < x")
    case True
    then show ?thesis using snoc s insort_snoc_greater [OF snoc.prems True]
      by (simp add: rd_def nth_append list_update_append)
  next
    case False
    then have "insort y (pre @ [x]) = (pre @ [x]) @ [y]"
      using snoc.prems s by (intro insort_snoc_le) auto
    then show ?thesis using False by (simp add: rd_def nth_append)
  qed
qed simp

lemma take_insort:
  assumes "sorted s" "k < length s"
  shows "take (Suc k) (insort y s) = (if y < s ! k then insort y (take k s) else take (Suc k) s)"
  using assms
proof (induction s arbitrary: k)
  case (Cons x s)
  show ?case
  proof (cases k)
    case 0
    then show ?thesis using Cons.prems by (cases s) auto
  next
    case (Suc j)
    have le: "x \<le> s ! j" using Cons.prems Suc by (simp add: nth_mem)
    consider "y < x" | "y = x" | "x < y" by (rule linorder_cases)
    then show ?thesis
    proof cases
      case 2
      have "take (Suc j) (x # s) = take (Suc j) s" if "s ! j = x"
      proof (rule nth_equalityI)
        fix i assume i: "i < length (take (Suc j) (x # s))"
        then have "s ! i \<le> s ! j" "x \<le> s ! i" if "i \<le> j" for i
          using that Cons.prems Suc by (auto simp: sorted_nth_mono nth_mem)
        then have "s ! i = x" if "i \<le> j" for i using that \<open>s ! j = x\<close> by fastforce
        then show "take (Suc j) (x # s) ! i = take (Suc j) s ! i"
          using i by (cases i) auto
      qed (use Cons.prems Suc in simp)
      then show ?thesis using 2 Suc le by auto
    next
      case 1
      then have "y < s ! j" using le by simp
      then show ?thesis using 1 Suc by simp
    qed (use Cons.IH [of j] Cons.prems Suc le in auto)
  qed
qed simp

definition k_best :: "'a::linordered_field list \<Rightarrow> 'a sampler \<Rightarrow> bool" where
  "k_best xs s \<longleftrightarrow> 0 < kbest s \<and> samplecount s = length xs \<and>
     (\<exists>vs. sample_values s = Some vs \<and> length vs = nat (kbest s)
        \<and> take (length xs) vs = take (nat (kbest s)) (sort xs))"

lemma add_sample_k_best:
  assumes "k_best xs s"
  shows "\<exists>s'. add_sample v s = Some s' \<and> k_best (xs @ [v]) s'"
proof -
  from assms obtain vs where vs: "sample_values s = Some vs" "length vs = nat (kbest s)"
    "take (length xs) vs = take (nat (kbest s)) (sort xs)" "0 < kbest s" "samplecount s = length xs"
    by (auto simp: k_best_def)
  have so: "sort (xs @ [v]) = insort v (sort xs)"
    by (rule properties_for_sort) (simp_all add: sorted_insort)
  show ?thesis
  proof (cases "int (length xs) < kbest s")
    case True
    then have "vs = sort xs @ drop (length xs) vs" "length xs < length vs"
      using vs append_take_drop_id [of "length xs" vs] by simp_all
    then obtain y post where "vs = sort xs @ y # post"
      by (metis append_self_conv length_drop length_greater_0_conv list.exhaust zero_less_diff)
    then have "vs[length xs := v] = sort xs @ v # post" by (simp add: list_update_append)
    then have "sift_down (vs[length xs := v]) (length xs) = Some (insort v (sort xs) @ post)"
      using sift_down_insort [of "sort xs" v post] by simp
    moreover have "length (insort v (sort xs) @ post) = length vs"
      using \<open>vs = sort xs @ y # post\<close> by simp
    ultimately show ?thesis using True vs so \<open>length xs < length vs\<close>
      by (simp add: add_sample_def k_best_def rd_def)
  next
    case False
    define k where "k = nat (kbest s) - 1"
    have k: "nat (kbest s) = Suc k" "k < length (sort xs)" using vs(4) False by (auto simp: k_def)
    have e: "vs = take (Suc k) (sort xs)" using vs k by simp
    then have ek: "vs = take k (sort xs) @ [sort xs ! k]" using k by (simp add: take_Suc_conv_app_nth)
    have lk: "length (take k (sort xs)) = k" using k by simp
    have nth: "vs ! k = sort xs ! k" using e by simp
    show ?thesis
    proof (cases "v < sort xs ! k")
      case True
      have "vs[k := v] = take k (sort xs) @ [v]" unfolding ek using lk by (metis list_update_length)
      then have "sift_down (vs[k := v]) k = Some (insort v (take k (sort xs)))"
        using sift_down_insort [of "take k (sort xs)" v "[]"] lk by (simp add: sorted_wrt_take)
      then show ?thesis
        using True False vs so k nth take_insort [of "sort xs" k v]
        by (simp add: add_sample_def k_best_def rd_def)
    next
      case ge: False
      then show ?thesis
        using False vs so k nth e take_insort [of "sort xs" k v]
        by (simp add: add_sample_def k_best_def rd_def)
    qed
  qed
qed


lemma k_best_converged: "k_best xs s \<Longrightarrow> \<exists>c. has_converged s = Some c"
  by (cases "int (samplecount s) < kbest s") (auto simp: has_converged_def k_best_def rd_def simp flip: length_greater_0_conv)

lemma fcyc_loop_k_best:
  assumes "k_best xs s" and "\<And>i. i < length xs \<Longrightarrow> xs ! i = meas (compensate s) i"
  shows "\<exists>n s'. fcyc_loop meas s = Some s' \<and> length xs < n \<and> k_best (map (meas (compensate s)) [0..<n]) s'
    \<and> (has_converged s' = Some True \<or> maxsamples s \<le> int n)
    \<and> (int n \<le> maxsamples s \<or> n = Suc (length xs)) \<and> kbest s' = kbest s"
  using assms
proof (induction meas s arbitrary: xs rule: fcyc_loop.induct)
  case (1 meas s)
  let ?v = "meas (compensate s) (samplecount s)"
  obtain s' where s': "add_sample ?v s = Some s'" "k_best (xs @ [?v]) s'"
    using add_sample_k_best [OF "1.prems"(1)] by blast
  note f = add_sample_fields [OF s'(1)]
  have n: "samplecount s = length xs" using "1.prems"(1) by (simp add: k_best_def)
  obtain c where c: "has_converged s' = Some c"
    using k_best_converged [OF s'(2)] by blast
  have nth: "(xs @ [?v]) ! i = meas (compensate s') i" if "i < length (xs @ [?v])" for i
    using that "1.prems"(2) f n by (auto simp: nth_append less_Suc_eq)
  have xs: "xs @ [?v] = map (meas (compensate s)) [0..<Suc (length xs)]"
    using nth f by (intro nth_equalityI) (simp_all del: upt_Suc)
  show ?case
  proof (cases "\<not> c \<and> int (samplecount s') < maxsamples s'")
    case True
    from "1.IH" [OF s'(1) c True s'(2) nth]
    obtain m s'' where "fcyc_loop meas s' = Some s''" "Suc (length xs) < m"
      "k_best (map (meas (compensate s')) [0..<m]) s''"
      "has_converged s'' = Some True \<or> maxsamples s' \<le> int m"
      "int m \<le> maxsamples s' \<or> m = Suc (Suc (length xs))" "kbest s'' = kbest s'" by auto
    then show ?thesis using True s'(1) c f n
      by (intro exI [of _ m] exI [of _ s'']) (auto simp: fcyc_loop.simps [of meas s])
  next
    case False
    then show ?thesis using s' c f n xs
      by (intro exI [of _ "Suc (length xs)"] exI [of _ s']) (auto simp: fcyc_loop.simps [of meas s])
  qed
qed

lemma sort_hd:
  assumes "xs \<noteq> []"
  shows "sort xs ! 0 = Min (set xs)"
proof (rule sym, rule Min_eqI)
  show "sort xs ! 0 \<le> y" if "y \<in> set xs" for y
  proof -
    from that have "y \<in> set (sort xs)" by simp
    then obtain i where "i < length (sort xs)" "y = sort xs ! i" by (metis in_set_conv_nth)
    then show ?thesis using sorted_nth_mono [of "sort xs" 0 i] by simp
  qed
  have "sort xs ! 0 \<in> set (sort xs)" using assms by (intro nth_mem) simp
  then show "sort xs ! 0 \<in> set xs" by simp
qed simp

lemma init_sampler_k_best: "0 < kbest s \<Longrightarrow> k_best [] (init_sampler s)"
  by (simp add: k_best_def init_sampler_def)

lemma k_best_first:
  assumes "k_best xs s" "xs \<noteq> []"
  shows "\<exists>vs. sample_values s = Some vs \<and> rd vs 0 = Some (Min (set xs))"
proof -
  obtain vs where vs: "sample_values s = Some vs" "length vs = nat (kbest s)" "0 < kbest s"
    "take (length xs) vs = take (nat (kbest s)) (sort xs)" using assms by (auto simp: k_best_def)
  have "take (length xs) vs ! 0 = take (nat (kbest s)) (sort xs) ! 0" unfolding vs(4) ..
  then have "vs ! 0 = sort xs ! 0" using vs(3) assms(2) by simp
  then show ?thesis using vs sort_hd [OF assms(2)] by (simp add: rd_def flip: length_greater_0_conv)
qed

text \<open>
  The cycle counter returns the elapsed cycles modulo 2 to the 64, whatever the borrow
  between the 32-bit halves.
\<close>

theorem get_counter_is_elapsed:
  "get_counter (start_counter t0) t1 = unat (t1 - t0)"
  by (rule get_counter_elapsed)



end
