(* ===== verification/Clock.thy ===== *)
theory Clock
  imports Timing
begin

text \<open>
  The rest of the timing package: the counter of Alpha processors, the calibration of the timer interrupt and
  the estimate of the clock rate in \<^verbatim>\<open>src/malloc/clock.c\<close>, the clearing of the cache in \<^verbatim>\<open>src/malloc/fcyc.c\<close>, and
  the timers of \<^verbatim>\<open>src/malloc/ftimer.c\<close> and \<^verbatim>\<open>src/malloc/fsecs.c\<close>. What the counters, clocks and timers read is a
  parameter, and arithmetic on \<^verbatim>\<open>double\<close> is exact.
\<close>

section \<open>The counter of Alpha processors\<close>

text \<open>The processor has a counter of 32 bits; its code subtracts as if there were an upper half.\<close>

definition alpha_start_counter :: "uint32 \<Rightarrow> counter" where
  "alpha_start_counter reading = \<lparr>cyc_hi = 0, cyc_lo = reading\<rparr>"

definition alpha_get_counter :: "counter \<Rightarrow> uint32 \<Rightarrow> nat" where
  "alpha_get_counter c ncyc_lo =
     (let lo = ncyc_lo - cyc_lo c;
          borrow = (if lo > ncyc_lo then 1 else 0);
          hi = 0 - cyc_hi c - borrow
      in unat hi * 2 ^ 30 * 4 + unat lo)"

text \<open>
  Without a wrap of the counter the difference is right; when the counter wraps, the borrow makes the upper half
  the largest value, and the result is nearly two to the 64 instead of the few cycles that have passed.
\<close>

lemma alpha_counter_wraps:
  "alpha_get_counter (alpha_start_counter a) b =
     (if a \<le> b then unat b - unat a else (2 ^ 32 - 1) * 2 ^ 32 + (2 ^ 32 + unat b - unat a))"
proof (cases "a \<le> b")
  case True
  then have "\<not> b - a > b" by (simp add: word_sub_le not_less)
  then show ?thesis using True by (simp add: alpha_get_counter_def alpha_start_counter_def unat_sub)
next
  case False
  then have lt: "b < a" by simp
  then have u: "unat (b - a) = 2 ^ 32 + unat b - unat a" by (simp add: unat_sub_if_size word_size word_le_nat_alt word_less_nat_alt)
  moreover have "unat a < 2 ^ 32" using unsigned_less [of a, where 'a = nat] by simp
  ultimately have "unat b < unat (b - a)" using lt by (simp add: word_less_nat_alt)
  then have "b - a > b" by (simp add: word_less_nat_alt)
  moreover have "unat (- 1 :: uint32) = 2 ^ 32 - 1" by (simp add: unsigned_minus_1_eq_mask mask_eq_exp_minus_1)
  ultimately show ?thesis using False u by (simp add: alpha_get_counter_def alpha_start_counter_def)
qed

section \<open>Overhead and clock rate\<close>

text \<open>\<^verbatim>\<open>ovhd\<close>: the second of two empty measurements; \<open>tsc\<close> gives the readings in order.\<close>

definition ovhd :: "(nat \<Rightarrow> uint64) \<Rightarrow> nat" where
  "ovhd tsc = get_counter (start_counter (tsc 2)) (tsc 3)"

definition mhz_full :: "uint64 \<Rightarrow> uint64 \<Rightarrow> int \<Rightarrow> real" where
  "mhz_full before after sleeptime = real (get_counter (start_counter before) after) / (1000000 * of_int sleeptime)"

definition mhz :: "uint64 \<Rightarrow> uint64 \<Rightarrow> real" where
  "mhz before after = mhz_full before after 2"

section \<open>Calibration\<close>

abbreviation NEVENT :: nat where "NEVENT \<equiv> 100"
abbreviation THRESHOLD :: real where "THRESHOLD \<equiv> 1000"
abbreviation RECORDTHRESH :: real where "RECORDTHRESH \<equiv> 3000"

text \<open>
  The loop of \<^verbatim>\<open>callibrate\<close> over the readings of the cycle counter, each with the user time that \<^verbatim>\<open>times\<close>
  reports then; \<^const>\<open>None\<close> when the loop still runs after all the readings.
\<close>

fun callibrate_loop :: "(real \<times> int) list \<Rightarrow> real \<Rightarrow> int \<Rightarrow> nat \<Rightarrow> real \<Rightarrow> real option" where
  "callibrate_loop rs oldt oldc e cyc_per_tick = (if e \<ge> NEVENT then Some cyc_per_tick else (case rs of
       [] \<Rightarrow> None
     | (newt, newc) # rs \<Rightarrow>
         if newt - oldt \<ge> THRESHOLD then
           (if newc > oldc then
              (let cpt = (newt - oldt) / of_int (newc - oldc) in
               callibrate_loop rs newt newc (e + 1)
                 (if (cyc_per_tick = 0 \<or> cyc_per_tick > cpt) \<and> cpt > RECORDTHRESH then cpt else cyc_per_tick))
            else callibrate_loop rs newt oldc e cyc_per_tick)
         else callibrate_loop rs oldt oldc e cyc_per_tick))"

declare callibrate_loop.simps [simp del]

definition callibrate :: "(real \<times> int) list \<Rightarrow> real \<Rightarrow> int \<Rightarrow> real \<Rightarrow> real option" where
  "callibrate rs oldt oldc cyc_per_tick = callibrate_loop rs oldt oldc 0 cyc_per_tick"

text \<open>The ratios that the loop computes, in order.\<close>

fun ratios :: "(real \<times> int) list \<Rightarrow> real \<Rightarrow> int \<Rightarrow> nat \<Rightarrow> real list" where
  "ratios [] oldt oldc e = []"
| "ratios ((newt, newc) # rs) oldt oldc e =
     (if e \<ge> NEVENT then []
      else if newt - oldt \<ge> THRESHOLD then
        (if newc > oldc then (newt - oldt) / of_int (newc - oldc) # ratios rs newt newc (e + 1) else ratios rs newt oldc e)
      else ratios rs oldt oldc e)"

text \<open>The result is the least of the ratios above the recording threshold, or what it was, or 0 when there is none.\<close>

definition least_of :: "real \<Rightarrow> real set \<Rightarrow> real" where
  "least_of c Q = (if c = 0 then (if Q = {} then 0 else Min Q) else Min (insert c Q))"

lemma least_of_insert: "finite Q \<Longrightarrow> 0 < q \<Longrightarrow> 0 \<le> c \<Longrightarrow> least_of c (insert q Q) = least_of (if c = 0 \<or> c > q then q else c) Q"
  by (cases "Q = {}") (auto simp: least_of_def min_def insert_commute [of c q])

lemma callibrate_loop_least:
  assumes "callibrate_loop rs oldt oldc e c = Some r" "c = 0 \<or> RECORDTHRESH < c"
  shows "r = least_of c {q \<in> set (ratios rs oldt oldc e). RECORDTHRESH < q}"
  using assms
proof (induction rs arbitrary: oldt oldc e c)
  case Nil
  then show ?case by (auto simp: callibrate_loop.simps least_of_def split: if_splits)
next
  case (Cons x rs)
  obtain newt newc where x: "x = (newt, newc)" by (cases x)
  let ?q = "(newt - oldt) / of_int (newc - oldc)"
  consider "e \<ge> NEVENT" | "\<not> e \<ge> NEVENT" "\<not> newt - oldt \<ge> THRESHOLD" | "\<not> e \<ge> NEVENT" "newt - oldt \<ge> THRESHOLD" "\<not> newc > oldc"
    | "\<not> e \<ge> NEVENT" "newt - oldt \<ge> THRESHOLD" "newc > oldc" by blast
  then show ?case
  proof cases
    case 1
    then show ?thesis using Cons.prems x by (auto simp: callibrate_loop.simps least_of_def)
  next
    case 2
    then have "callibrate_loop rs oldt oldc e c = Some r" using Cons.prems(1) x by (simp add: callibrate_loop.simps [of "(newt, newc) # rs"])
    from Cons.IH [OF this Cons.prems(2)] show ?thesis using 2 x by simp
  next
    case 3
    then have "callibrate_loop rs newt oldc e c = Some r" using Cons.prems(1) x by (simp add: callibrate_loop.simps [of "(newt, newc) # rs"])
    from Cons.IH [OF this Cons.prems(2)] show ?thesis using 3 x by simp
  next
    case 4
    define c' where "c' = (if (c = 0 \<or> c > ?q) \<and> ?q > RECORDTHRESH then ?q else c)"
    let ?R = "{q \<in> set (ratios rs newt newc (e + 1)). RECORDTHRESH < q}"
    have "callibrate_loop rs newt newc (e + 1) c' = Some r" using Cons.prems(1) 4 x
      by (simp add: callibrate_loop.simps [of "(newt, newc) # rs"] Let_def c'_def split del: if_split del: of_int_diff)
    moreover have "c' = 0 \<or> RECORDTHRESH < c'" using Cons.prems(2) by (auto simp: c'_def)
    ultimately have IH: "r = least_of c' ?R" by (rule Cons.IH)
    have R: "{q \<in> set (ratios (x # rs) oldt oldc e). RECORDTHRESH < q} = (if RECORDTHRESH < ?q then insert ?q ?R else ?R)"
      using 4 x by auto
    show ?thesis
    proof (cases "RECORDTHRESH < ?q")
      case False
      then show ?thesis using IH unfolding R c'_def by simp
    next
      case True
      then have "least_of c (insert ?q ?R) = least_of c' ?R" using Cons.prems(2) least_of_insert [of ?R ?q c] by (auto simp: c'_def)
      then show ?thesis using IH True unfolding R by simp
    qed
  qed
qed

section \<open>Clearing the cache\<close>

text \<open>
  The words of the buffer that \<^verbatim>\<open>clear\<close> reads, by index; a block smaller than a word makes no progress and the
  loop does not end.
\<close>

function clear_loop :: "int \<Rightarrow> int \<Rightarrow> int \<Rightarrow> int list option" where
  "clear_loop cptr cend incr =
     (if cptr < cend then (if incr \<le> 0 then None else map_option ((#) cptr) (clear_loop (cptr + incr) cend incr)) else Some [])"
  by auto
termination by (relation "measure (\<lambda>(cptr, cend, incr). nat (cend - cptr))") auto

declare clear_loop.simps [simp del]

definition clear_cache :: "int \<Rightarrow> int \<Rightarrow> int list option" where
  "clear_cache cache_bytes cache_block = clear_loop 0 (cache_bytes div 4) (cache_block div 4)"

text \<open>One word of every block is read.\<close>

lemma clear_loop_reads:
  assumes "0 < incr" "a \<le> cend"
  shows "\<exists>js. clear_loop a cend incr = Some js \<and> set js = {j. a \<le> j \<and> j < cend \<and> (j - a) mod incr = 0}"
  using assms
proof (induction a cend incr rule: clear_loop.induct)
  case (1 cptr cend incr)
  show ?case
  proof (cases "cptr < cend")
    case False
    then show ?thesis by (auto simp: clear_loop.simps)
  next
    case True
    have step: "(j - (cptr + incr)) mod incr = (j - cptr) mod incr" for j
      using minus_mod_self2 [of "j - cptr" incr] by (simp add: algebra_simps)
    have gap: "j = cptr \<or> cptr + incr \<le> j" if "cptr \<le> j" "incr dvd j - cptr" for j
      using that 1(2) zdvd_imp_le [of incr "j - cptr"] by (cases "j = cptr") auto
    show ?thesis
    proof (cases "cptr + incr \<le> cend")
      case le: True
      then obtain js where "clear_loop (cptr + incr) cend incr = Some js"
        "set js = {j. cptr + incr \<le> j \<and> j < cend \<and> (j - (cptr + incr)) mod incr = 0}"
        using 1 True by fastforce
      then show ?thesis using True 1(2) gap by (subst clear_loop.simps) (auto simp: step)
    next
      case False
      then have "clear_loop (cptr + incr) cend incr = Some []" by (simp add: clear_loop.simps)
      then show ?thesis using True False 1(2) gap by (subst clear_loop.simps) force
    qed
  qed
qed

text \<open>
  The cache parameters of \<^verbatim>\<open>fcyc.c\<close>, with the size of the buffer once it is allocated. \<^verbatim>\<open>clear\<close> allocates it at its first call;
  \<open>Inl\<close> is the exit when there is no memory, and a read outside the buffer is undefined.
\<close>

record cache =
  clearing :: bool
  cache_bytes :: int
  cache_block :: int
  cache_buf :: "int option"

definition cache_default :: cache where
  "cache_default = \<lparr>clearing = False, cache_bytes = 2 ^ 19, cache_block = 32, cache_buf = None\<rparr>"

definition set_fcyc_clear_cache :: "bool \<Rightarrow> cache \<Rightarrow> cache" where
  "set_fcyc_clear_cache b c = c\<lparr>clearing := b\<rparr>"

definition set_fcyc_cache_size :: "int \<Rightarrow> cache \<Rightarrow> cache" where
  "set_fcyc_cache_size bytes c = (if bytes \<noteq> cache_bytes c then c\<lparr>cache_bytes := bytes, cache_buf := None\<rparr> else c)"

definition set_fcyc_cache_block :: "int \<Rightarrow> cache \<Rightarrow> cache" where
  "set_fcyc_cache_block bytes c = c\<lparr>cache_block := bytes\<rparr>"

definition clear :: "bool \<Rightarrow> cache \<Rightarrow> (int + cache) option" where
  "clear malloc_ok c =
     (if cache_buf c = None \<and> \<not> malloc_ok then Some (Inl 1)
      else do {
        let size = (case cache_buf c of Some n \<Rightarrow> n | None \<Rightarrow> cache_bytes c);
        js \<leftarrow> clear_cache (cache_bytes c) (cache_block c);
        if \<forall>j \<in> set js. 0 \<le> j \<and> 4 * j + 4 \<le> size then Some (Inr (c\<lparr>cache_buf := Some size\<rparr>)) else None
      })"

text \<open>The setters keep the buffer as large as \<^verbatim>\<open>cache_bytes\<close> says, so clearing the cache stays inside it.\<close>

definition cache_ok :: "cache \<Rightarrow> bool" where
  "cache_ok c \<longleftrightarrow> 0 \<le> cache_bytes c \<and> 4 \<le> cache_block c \<and> (\<forall>n. cache_buf c = Some n \<longrightarrow> n = cache_bytes c)"

lemma cache_ok_set:
  "cache_ok cache_default"
  "cache_ok c \<Longrightarrow> cache_ok (set_fcyc_clear_cache b c)"
  "cache_ok c \<Longrightarrow> 0 \<le> n \<Longrightarrow> cache_ok (set_fcyc_cache_size n c)"
  "cache_ok c \<Longrightarrow> 4 \<le> n \<Longrightarrow> cache_ok (set_fcyc_cache_block n c)"
  by (auto simp: cache_ok_def cache_default_def set_fcyc_clear_cache_def set_fcyc_cache_size_def set_fcyc_cache_block_def)

lemma clear_safe:
  assumes "cache_ok c"
  shows "clear True c = Some (Inr (c\<lparr>cache_buf := Some (cache_bytes c)\<rparr>)) \<and> cache_ok (c\<lparr>cache_buf := Some (cache_bytes c)\<rparr>)"
proof -
  have "0 < cache_block c div 4" "0 \<le> cache_bytes c div 4" using assms by (auto simp: cache_ok_def)
  then obtain js where js: "clear_cache (cache_bytes c) (cache_block c) = Some js" "set js \<subseteq> {j. 0 \<le> j \<and> j < cache_bytes c div 4}"
    using clear_loop_reads [of "cache_block c div 4" 0 "cache_bytes c div 4"] assms
    by (auto simp: clear_cache_def cache_ok_def)
  have "4 * (cache_bytes c div 4) \<le> cache_bytes c" by simp
  with js(2) have "0 \<le> j \<and> 4 * j + 4 \<le> cache_bytes c" if "j \<in> set js" for j using that by fastforce
  moreover have "(case cache_buf c of Some n \<Rightarrow> n | None \<Rightarrow> cache_bytes c) = cache_bytes c"
    using assms by (auto simp: cache_ok_def split: option.split)
  ultimately show ?thesis using js(1) assms by (simp add: clear_def cache_ok_def)
qed

section \<open>The counter that makes up for timer interrupts\<close>

text \<open>
  The static variables of \<^verbatim>\<open>clock.c\<close> that this counter uses. \<^verbatim>\<open>start_comp_counter\<close> calibrates at its first call, over the
  readings \<open>rs\<close> after the first ones \<open>oldt\<close> and \<open>oldc\<close>; then \<open>tms\<close> is what \<^verbatim>\<open>times\<close> and \<open>tsc\<close> what the counter reads.
\<close>

record comp_counter =
  cyc_per_tick :: real
  start_tick :: int
  cycles :: counter

definition start_comp_counter :: "(real \<times> int) list \<Rightarrow> real \<Rightarrow> int \<Rightarrow> int \<Rightarrow> uint64 \<Rightarrow> comp_counter \<Rightarrow> comp_counter option" where
  "start_comp_counter rs oldt oldc tms tsc s = do {
     cpt \<leftarrow> (if cyc_per_tick s = 0 then callibrate rs oldt oldc (cyc_per_tick s) else Some (cyc_per_tick s));
     Some \<lparr>cyc_per_tick = cpt, start_tick = tms, cycles = start_counter tsc\<rparr>
   }"

text \<open>A measurement is the elapsed cycles without the calibrated cost of the ticks that have passed.\<close>

lemma comp_counter_measures:
  assumes "start_comp_counter rs oldt oldc tms tsc s = Some s'"
  shows "get_comp_counter (cyc_per_tick s') (start_tick s') tms' (cycles s') tsc' =
    real (unat (tsc' - tsc)) - of_int (tms' - tms) * (if cyc_per_tick s = 0
      then least_of 0 {q \<in> set (ratios rs oldt oldc 0). RECORDTHRESH < q} else cyc_per_tick s)"
proof -
  obtain cpt where c: "s' = \<lparr>cyc_per_tick = cpt, start_tick = tms, cycles = start_counter tsc\<rparr>"
    "(if cyc_per_tick s = 0 then callibrate rs oldt oldc 0 else Some (cyc_per_tick s)) = Some cpt"
    using assms by (auto simp: start_comp_counter_def split: if_splits bind_splits)
  moreover from c(2) have "cpt = (if cyc_per_tick s = 0 then least_of 0 {q \<in> set (ratios rs oldt oldc 0). RECORDTHRESH < q} else cyc_per_tick s)"
    using callibrate_loop_least [of rs oldt oldc 0 0 cpt] by (auto simp: callibrate_def split: if_splits)
  ultimately show ?thesis by (simp add: get_comp_counter_def get_counter_elapsed)
qed

section \<open>Timers of the operating system\<close>

record timeval =
  tv_sec :: int
  tv_usec :: int

text \<open>The average of \<open>n\<close> runs between two readings of the clock.\<close>

definition ftimer_gettod :: "timeval \<Rightarrow> timeval \<Rightarrow> int \<Rightarrow> real" where
  "ftimer_gettod stv etv n =
     (let diff = 1000 * real_of_int (tv_sec etv - tv_sec stv) + 1 / 1000 * real_of_int (tv_usec etv - tv_usec stv);
          diff = diff / of_int n
      in 1 / 1000 * diff)"

abbreviation MAX_ETIME :: int where "MAX_ETIME \<equiv> 86400"

text \<open>The interval timer counts down from its first value; \<open>first\<close> is what \<^verbatim>\<open>init_etime\<close> sets.\<close>

definition init_etime :: timeval where
  "init_etime = \<lparr>tv_sec = MAX_ETIME, tv_usec = 0\<rparr>"

definition get_etime :: "timeval \<Rightarrow> timeval \<Rightarrow> real" where
  "get_etime first r_curr = real_of_int (tv_sec first - tv_sec r_curr) + real_of_int (tv_usec first - tv_usec r_curr) / 1000000"

definition ftimer_itimer :: "timeval \<Rightarrow> timeval \<Rightarrow> int \<Rightarrow> real" where
  "ftimer_itimer t1 t2 n = (let start = get_etime init_etime t1; tmeas = get_etime init_etime t2 - start in tmeas / of_int n)"

text \<open>
  The three configurations of \<^verbatim>\<open>init_fsecs\<close>: the message for verbose runs, the clock rate, and the parameters of the sampler and the cache.
\<close>

datatype timing_method = USE_FCYC | USE_ITIMER | USE_GETTOD

definition init_fsecs :: "timing_method \<Rightarrow> uint64 \<Rightarrow> uint64 \<Rightarrow> real sampler \<times> cache \<Rightarrow> string \<times> real \<times> real sampler \<times> cache" where
  "init_fsecs method before after st = (case method of
       USE_FCYC \<Rightarrow> (''Measuring performance with a cycle counter.'', mhz before after,
         set_fcyc_k 3 (set_fcyc_epsilon (1 / 100) (set_fcyc_compensate True (set_fcyc_maxsamples 20 (fst st)))),
         set_fcyc_clear_cache True (snd st))
     | USE_ITIMER \<Rightarrow> (''Measuring performance with the interval timer.'', 0, st)
     | USE_GETTOD \<Rightarrow> (''Measuring performance with gettimeofday().'', 0, st))"

text \<open>
  \<^verbatim>\<open>fsecs\<close> in the three configurations, of which \<^verbatim>\<open>config.h\<close> selects the last: \<open>fcyc_result\<close> is what \<^verbatim>\<open>fcyc\<close> returns, \<open>stv\<close> and \<open>etv\<close> are the
  readings of the timer before and after ten runs.
\<close>

definition fsecs :: "timing_method \<Rightarrow> real \<Rightarrow> real \<Rightarrow> timeval \<Rightarrow> timeval \<Rightarrow> real" where
  "fsecs method Mhz fcyc_result stv etv = (case method of
       USE_FCYC \<Rightarrow> fcyc_result / (Mhz * 1000000)
     | USE_ITIMER \<Rightarrow> ftimer_itimer stv etv 10
     | USE_GETTOD \<Rightarrow> ftimer_gettod stv etv 10)"

definition seconds :: "timeval \<Rightarrow> real" where
  "seconds tv = real_of_int (tv_sec tv) + real_of_int (tv_usec tv) / 1000000"

text \<open>Both timers report the elapsed time divided by the number of runs, also across a border of seconds.\<close>

lemma ftimer_average: "ftimer_gettod stv etv n = (seconds etv - seconds stv) / of_int n"
    "ftimer_itimer t1 t2 n = (seconds t1 - seconds t2) / of_int n"
  by (simp_all add: ftimer_gettod_def ftimer_itimer_def get_etime_def seconds_def init_etime_def Let_def diff_divide_distrib add_divide_distrib algebra_simps)

end
