(* ===== verification/MazeCommon.thy ===== *)
theory MazeCommon
  imports Prelude
begin

text \<open>
  The maze data shared by the generator and the solver, \<^verbatim>\<open>src/maze/common.c\<close> and
  \<^verbatim>\<open>common.h\<close>. A \<^verbatim>\<open>struct maze_room *\<close> into the maze array is the index of the room in the
  array, and \<^verbatim>\<open>int connections[4]\<close>, which is only indexed by a \<^verbatim>\<open>Direction\<close>, is a function of the
  direction. \<open>pos\<close> are the grid positions the theorems speak about.
\<close>

datatype Direction = NORTH | SOUTH | WEST | EAST

record maze_room =
  r :: int
  c :: int
  visited :: int
  connections :: "Direction \<Rightarrow> int"
  next_room :: "nat option"

type_synonym maze = "maze_room list"
type_synonym pos = "int \<times> int"

definition get_index :: "int \<Rightarrow> int \<Rightarrow> int \<Rightarrow> int option" where
  "get_index row col num_cols = c_int (row * num_cols) \<bind> (\<lambda>i. c_int (i + col))"

definition is_in_range :: "int \<Rightarrow> int \<Rightarrow> int \<Rightarrow> int \<Rightarrow> bool" where
  "is_in_range row col num_rows num_cols \<longleftrightarrow> row < num_rows \<and> row \<ge> 0 \<and> col < num_cols \<and> col \<ge> 0"

fun direction_index :: "int \<Rightarrow> int \<Rightarrow> Direction \<Rightarrow> int \<Rightarrow> int \<Rightarrow> bool" where
  "direction_index row col NORTH num_rows num_cols = is_in_range (row - 1) col num_rows num_cols"
| "direction_index row col SOUTH num_rows num_cols = is_in_range (row + 1) col num_rows num_cols"
| "direction_index row col WEST num_rows num_cols = is_in_range row (col - 1) num_rows num_cols"
| "direction_index row col EAST num_rows num_cols = is_in_range row (col + 1) num_rows num_cols"

text \<open>The pointer \<^verbatim>\<open>&maze[i]\<close>: only formed inside the array.\<close>

definition room_ptr :: "maze \<Rightarrow> int option \<Rightarrow> nat option" where
  "room_ptr maze i = i \<bind> (\<lambda>i. if 0 \<le> i \<and> nat i < length maze then Some (nat i) else None)"

definition get_neighbor :: "maze \<Rightarrow> int \<Rightarrow> int \<Rightarrow> nat \<Rightarrow> Direction \<Rightarrow> nat option" where
  "get_neighbor maze num_rows num_cols room dir = do {
     rm \<leftarrow> rd maze room;
     if \<not> is_in_range (r rm) (c rm) num_rows num_cols then None
     else room_ptr maze (case dir of
         NORTH \<Rightarrow> get_index (r rm - 1) (c rm) num_cols
       | SOUTH \<Rightarrow> get_index (r rm + 1) (c rm) num_cols
       | WEST \<Rightarrow> get_index (r rm) (c rm - 1) num_cols
       | EAST \<Rightarrow> get_index (r rm) (c rm + 1) num_cols)
   }"

section \<open>Grid geometry\<close>

text \<open>A grid whose room indices are \<^verbatim>\<open>int\<close>s and whose array has one room per position.\<close>

definition grid :: "int \<Rightarrow> int \<Rightarrow> bool" where
  "grid nr nc \<longleftrightarrow> 0 < nr \<and> 0 < nc \<and> nr * nc \<le> INT_MAX"

definition inside :: "int \<Rightarrow> int \<Rightarrow> pos \<Rightarrow> bool" where
  "inside nr nc p \<longleftrightarrow> is_in_range (fst p) (snd p) nr nc"

definition idx :: "int \<Rightarrow> pos \<Rightarrow> nat" where
  "idx nc p = nat (fst p * nc + snd p)"

fun move :: "Direction \<Rightarrow> pos \<Rightarrow> pos" where
  "move NORTH (row, col) = (row - 1, col)"
| "move SOUTH (row, col) = (row + 1, col)"
| "move WEST (row, col) = (row, col - 1)"
| "move EAST (row, col) = (row, col + 1)"

lemma direction_index_inside: "direction_index row col d nr nc \<longleftrightarrow> inside nr nc (move d (row, col))"
  by (cases d) (simp_all add: inside_def)

lemma idx_bound: "0 \<le> a \<Longrightarrow> a < nr \<Longrightarrow> 0 \<le> b \<Longrightarrow> b < nc \<Longrightarrow> a * nc + b < nr * (nc::int)"
  using mult_right_mono [of "a + 1" nr nc] by (simp add: algebra_simps)

lemma idx_less: "inside nr nc p \<Longrightarrow> idx nc p < nat (nr * nc)"
  using idx_bound [of "fst p" nr "snd p" nc] by (auto simp: inside_def is_in_range_def idx_def)

lemma idx_inj:
  assumes "inside nr nc p" "inside nr nc q" "idx nc p = idx nc q"
  shows "p = q"
proof -
  have b: "0 \<le> fst p" "0 \<le> snd p" "snd p < nc" "0 \<le> fst q" "0 \<le> snd q" "snd q < nc"
    using assms by (auto simp: inside_def is_in_range_def)
  then have "fst p * nc + snd p = fst q * nc + snd q"
    using assms(3) by (simp add: idx_def eq_nat_nat_iff)
  moreover have "(fst p * nc + snd p) div nc = fst p" "(fst q * nc + snd q) div nc = fst q"
    using b by simp_all
  ultimately show ?thesis by (auto simp: prod_eq_iff)
qed

lemma idx_surj:
  assumes "i < nat (nr * nc)" "0 < nr" "0 < nc"
  shows "\<exists>p. inside nr nc p \<and> idx nc p = i"
proof (intro exI conjI)
  have "int i < nc * nr" using assms by (simp add: mult.commute)
  then have "int i div nc < nr" using assms(3) using zdiv_mono1 [of "int i" "nc * nr - 1" nc]
    by (smt (verit) div_pos_geq nonzero_mult_div_cancel_left pos_mod_bound minus_div_mult_eq_mod mult.commute mult_less_cancel_right pos_mod_sign)
  then show "inside nr nc (int i div nc, int i mod nc)"
    using assms by (simp add: inside_def is_in_range_def pos_imp_zdiv_nonneg_iff)
  show "idx nc (int i div nc, int i mod nc) = i" by (simp add: idx_def)
qed

lemma get_index_inside:
  assumes "grid nr nc" "inside nr nc (row, col)"
  shows "get_index row col nc = Some (int (idx nc (row, col)))"
proof -
  have b: "0 \<le> row" "row < nr" "0 \<le> col" "col < nc" using assms by (auto simp: inside_def is_in_range_def)
  have m: "row * nc + col < nr * nc" "0 \<le> row * nc" "nr * nc \<le> INT_MAX"
    using b idx_bound assms(1) by (simp_all add: grid_def)
  have "c_int (row * nc) = Some (row * nc)" "c_int (row * nc + col) = Some (row * nc + col)"
    using m b(3) by (intro c_int_id; linarith)+
  then show ?thesis using m b(3) by (simp add: get_index_def idx_def)
qed

lemma room_ptr_inside:
  assumes "grid nr nc" "inside nr nc (row, col)" "length maze = nat (nr * nc)"
  shows "room_ptr maze (get_index row col nc) = Some (idx nc (row, col))"
  using idx_less [OF assms(2)] unfolding get_index_inside [OF assms(1,2)] room_ptr_def assms(3)
  by (simp add: zless_nat_eq_int_zless)

lemma get_neighbor_inside:
  assumes "grid nr nc" "length maze = nat (nr * nc)" "rd maze i = Some rm"
    and "inside nr nc (r rm, c rm)" "inside nr nc (move d (r rm, c rm))"
  shows "get_neighbor maze nr nc i d = Some (idx nc (move d (r rm, c rm)))"
proof -
  have "get_neighbor maze nr nc i d = room_ptr maze (get_index (fst (move d (r rm, c rm))) (snd (move d (r rm, c rm))) nc)"
    using assms(3,4) by (cases d) (simp_all add: get_neighbor_def inside_def)
  then show ?thesis
    using room_ptr_inside [OF assms(1) _ assms(2), of "fst (move d (r rm, c rm))" "snd (move d (r rm, c rm))"] assms(5)
    by simp
qed

section \<open>Rooms by position\<close>

definition room_at :: "int \<Rightarrow> maze \<Rightarrow> pos \<Rightarrow> maze_room" where
  "room_at nc maze p = maze ! idx nc p"

text \<open>\<open>passage\<close>: one step through an open side, inside the grid.\<close>

definition passage :: "int \<Rightarrow> int \<Rightarrow> maze \<Rightarrow> pos \<Rightarrow> pos \<Rightarrow> bool" where
  "passage nr nc maze p q \<longleftrightarrow> inside nr nc p \<and> inside nr nc q \<and>
     (\<exists>d. q = move d p \<and> connections (room_at nc maze p) d = 0)"

lemma room_at_update:
  assumes "inside nr nc p" "inside nr nc q" "length maze = nat (nr * nc)"
  shows "room_at nc (maze[idx nc p := x]) q = (if q = p then x else room_at nc maze q)"
  using assms idx_less [OF assms(1)] idx_inj [OF assms(1,2)]
  by (auto simp: room_at_def nth_list_update)

lemma rd_room: "inside nr nc p \<Longrightarrow> length maze = nat (nr * nc) \<Longrightarrow> rd maze (idx nc p) = Some (room_at nc maze p)"
  using idx_less [of nr nc p] by (simp add: rd_def room_at_def)

definition unvisited_rooms :: "int \<Rightarrow> int \<Rightarrow> maze \<Rightarrow> pos set" where
  "unvisited_rooms nr nc maze = {p. inside nr nc p \<and> visited (room_at nc maze p) = 0}"

lemma finite_inside: "finite {p. inside nr nc p}"
proof (rule finite_subset)
  show "{p. inside nr nc p} \<subseteq> {0..<nr} \<times> {0..<nc}" by (auto simp: inside_def is_in_range_def)
qed simp

lemma finite_unvisited [simp]: "finite (unvisited_rooms nr nc maze)"
  by (rule finite_subset [OF _ finite_inside]) (auto simp: unvisited_rooms_def)

lemma card_inside: "0 \<le> nr \<Longrightarrow> 0 \<le> nc \<Longrightarrow> card {p. inside nr nc p} = nat (nr * nc)"
proof -
  assume "0 \<le> nr" "0 \<le> nc"
  moreover have "{p. inside nr nc p} = {0..<nr} \<times> {0..<nc}" by (auto simp: inside_def is_in_range_def)
  ultimately show ?thesis by (simp add: card_cartesian_product nat_mult_distrib)
qed

lemma card_unvisited_le: "0 \<le> nr \<Longrightarrow> 0 \<le> nc \<Longrightarrow> card (unvisited_rooms nr nc maze) \<le> nat (nr * nc)"
  using card_mono [OF finite_inside, of "unvisited_rooms nr nc maze" nr nc] card_inside [of nr nc]
  by (auto simp: unvisited_rooms_def)

lemma passage_grid_connected:
  assumes "inside nr nc p" and "P (0, 0)"
    and "\<And>p d. inside nr nc p \<Longrightarrow> inside nr nc (move d p) \<Longrightarrow> P p \<Longrightarrow> P (move d p)"
  shows "P p"
proof -
  have row: "P (int k, 0)" if "int k < nr" for k
    using that
  proof (induction k)
    case (Suc k)
    then show ?case using assms(1) assms(3) [of "(int k, 0)" SOUTH]
      by (simp add: inside_def is_in_range_def add.commute)
  qed (use assms in simp)
  have "P (int k, int j)" if "int k < nr" "int j < nc" for k j
    using that(2)
  proof (induction j)
    case (Suc j)
    then show ?case using that(1) assms(3) [of "(int k, int j)" EAST]
      by (simp add: inside_def is_in_range_def add.commute)
  qed (use row [OF that(1)] in simp)
  from this [of "nat (fst p)" "nat (snd p)"] show ?thesis
    using assms(1) by (cases p) (simp add: inside_def is_in_range_def)
qed

end
