(* ===== verification/MazeGenerator.thy ===== *)
theory MazeGenerator
  imports MazeCommon "HOL-Library.Multiset"
begin

text \<open>
  The maze generator, \<^verbatim>\<open>src/maze/generator.c\<close>. \<^verbatim>\<open>rand()\<close> is the parameter \<open>rnd\<close>, the k-th
  value drawn, and the number of values drawn so far is part of the state. The recursion of
  \<open>drunken_walk\<close> carries fuel for its depth; the theorems show that one unit per unvisited
  room is enough.
\<close>

fun get_opposite_dir :: "Direction \<Rightarrow> Direction" where
  "get_opposite_dir NORTH = SOUTH"
| "get_opposite_dir SOUTH = NORTH"
| "get_opposite_dir WEST = EAST"
| "get_opposite_dir EAST = WEST"

definition shuffle_step :: "(nat \<Rightarrow> nat) \<Rightarrow> nat \<Rightarrow> Direction list \<times> nat \<Rightarrow> (Direction list \<times> nat) option" where
  "shuffle_step rnd i s = (case s of (directions, k) \<Rightarrow> do {
     let random = rnd k mod 4;
     temp \<leftarrow> rd directions i;
     other \<leftarrow> rd directions random;
     Some (directions[i := other, random := temp], Suc k)
   })"

definition shuffle_array :: "(nat \<Rightarrow> nat) \<Rightarrow> Direction list \<Rightarrow> nat \<Rightarrow> (Direction list \<times> nat) option" where
  "shuffle_array rnd directions k = foldM (shuffle_step rnd) [0, 1, 2, 3] (directions, k)"

type_synonym walk_state = "maze \<times> nat"

definition set_connection :: "nat \<Rightarrow> Direction \<Rightarrow> int \<Rightarrow> maze \<Rightarrow> maze option" where
  "set_connection room d v maze = do {
     rm \<leftarrow> rd maze room;
     Some (maze[room := rm\<lparr>connections := (connections rm)(d := v)\<rparr>])
   }"

text \<open>
  One iteration of the loop of \<^verbatim>\<open>drunken_walk\<close>; \<open>walk\<close> is the recursive call.
\<close>

definition walk_dir :: "(walk_state \<Rightarrow> int \<Rightarrow> int \<Rightarrow> walk_state option) \<Rightarrow> int \<Rightarrow> int \<Rightarrow> int \<Rightarrow> int \<Rightarrow>
    nat \<Rightarrow> Direction \<Rightarrow> walk_state \<Rightarrow> walk_state option" where
  "walk_dir walk row col num_rows num_cols room d s = (case s of (maze, k) \<Rightarrow>
     if \<not> direction_index row col d num_rows num_cols then do {
       maze \<leftarrow> set_connection room d 1 maze;
       Some (maze, k)
     } else do {
       neighbor \<leftarrow> get_neighbor maze num_rows num_cols room d;
       nb \<leftarrow> rd maze neighbor;
       if visited nb = 0 then do {
         maze \<leftarrow> set_connection room d 0 maze;
         nb \<leftarrow> rd maze neighbor;
         let nb = (case d of
             NORTH \<Rightarrow> nb\<lparr>c := col, r := row - 1\<rparr>
           | SOUTH \<Rightarrow> nb\<lparr>c := col, r := row + 1\<rparr>
           | WEST \<Rightarrow> nb\<lparr>r := row, c := col - 1\<rparr>
           | EAST \<Rightarrow> nb\<lparr>r := row, c := col + 1\<rparr>);
         walk (maze[neighbor := nb], k) (r nb) (c nb)
       } else do {
         let w = connections nb (get_opposite_dir d);
         maze \<leftarrow> set_connection room d (if w = 1 \<or> w = 0 then w else 1) maze;
         Some (maze, k)
       }
     })"

primrec drunken_walk :: "nat \<Rightarrow> (nat \<Rightarrow> nat) \<Rightarrow> int \<Rightarrow> int \<Rightarrow> walk_state \<Rightarrow> int \<Rightarrow> int \<Rightarrow> walk_state option" where
  "drunken_walk 0 rnd num_rows num_cols s row col = None"
| "drunken_walk (Suc fuel) rnd num_rows num_cols s row col = (case s of (maze, k) \<Rightarrow> do {
     room \<leftarrow> room_ptr maze (get_index row col num_cols);
     rm \<leftarrow> rd maze room;
     let maze = maze[room := rm\<lparr>visited := 1, r := row, c := col, next_room := None\<rparr>];
     (dir, k) \<leftarrow> shuffle_array rnd [NORTH, SOUTH, WEST, EAST] k;
     foldM (walk_dir (drunken_walk fuel rnd num_rows num_cols) row col num_rows num_cols room) dir (maze, k)
   })"

definition encode_room :: "maze_room \<Rightarrow> int" where
  "encode_room room = connections room NORTH * 1 + connections room SOUTH * 2
     + connections room WEST * 4 + connections room EAST * 8"

definition encode_maze :: "maze \<Rightarrow> int \<Rightarrow> int \<Rightarrow> int list option" where
  "encode_maze maze num_rows num_cols = do {
     n \<leftarrow> c_int (num_rows * num_cols);
     those (map (\<lambda>i. map_option encode_room (rd maze i)) [0..<nat n])
   }"

text \<open>\<^verbatim>\<open>fprintf(file, "%x", v)\<close> for an \<^verbatim>\<open>int\<close>: the value is converted to \<^verbatim>\<open>unsigned\<close>.\<close>

definition hex_digit :: "nat \<Rightarrow> char" where
  "hex_digit n = ''0123456789abcdef'' ! n"

fun hex_nat :: "nat \<Rightarrow> string" where
  "hex_nat n = (if n < 16 then [hex_digit n] else hex_nat (n div 16) @ [hex_digit (n mod 16)])"

declare hex_nat.simps [simp del]

definition print_x :: "int \<Rightarrow> string" where
  "print_x v = hex_nat (nat (v mod 2 ^ 32))"

text \<open>
  The maze array before the walk: uninitialised stack memory \<open>junk\<close> with \<^verbatim>\<open>visited\<close> cleared
  and the connections set to -1. Then the whole of \<^verbatim>\<open>main\<close>: the exit status and the contents
  of the output file. \<open>open_out\<close> and \<open>close_ok\<close> say whether \<^verbatim>\<open>fopen\<close> and \<^verbatim>\<open>fclose\<close> succeed.
\<close>

definition init_maze :: "maze \<Rightarrow> maze" where
  "init_maze junk = map (\<lambda>rm. rm\<lparr>visited := 0, connections := (\<lambda>_. - 1)\<rparr>) junk"

definition print_maze :: "int list \<Rightarrow> int \<Rightarrow> int \<Rightarrow> string option" where
  "print_maze result num_rows num_cols =
     foldM (\<lambda>i file. do {
         file \<leftarrow> foldM (\<lambda>k file. do {
             v \<leftarrow> rd result (i * nat num_cols + k);
             Some (file @ print_x v)
           }) [0..<nat num_cols] file;
         Some (file @ [CHR 0x0A])
       }) [0..<nat num_rows] []"

definition generator_main :: "nat \<Rightarrow> (nat \<Rightarrow> nat) \<Rightarrow> maze \<Rightarrow> (string \<Rightarrow> bool) \<Rightarrow> bool \<Rightarrow> string list \<Rightarrow>
    (int \<times> string) option" where
  "generator_main fuel rnd junk open_out close_ok argv =
     (if length argv \<noteq> 4 then Some (1, [])
      else do {
        num_rows \<leftarrow> atoi (argv ! 2);
        num_cols \<leftarrow> atoi (argv ! 3);
        if num_cols \<le> 0 \<or> num_rows \<le> 0 then Some (1, [])
        else do {
          (maze, k) \<leftarrow> drunken_walk fuel rnd num_rows num_cols (init_maze junk, 0) 0 0;
          result \<leftarrow> encode_maze maze num_rows num_cols;
          if \<not> open_out (argv ! 1) then Some (1, [])
          else do {
            file \<leftarrow> print_maze result num_rows num_cols;
            if close_ok then Some (0, file) else Some (1, file)
          }
        }
      })"

section \<open>Shuffling\<close>

lemma shuffle_step_mset:
  "length ds = 4 \<Longrightarrow> i < 4 \<Longrightarrow> \<exists>ds'. shuffle_step rnd i (ds, k) = Some (ds', Suc k) \<and> mset ds' = mset ds \<and> length ds' = 4"
  by (simp add: shuffle_step_def rd_def mset_swap Let_def)

lemma shuffle_array_ok:
  assumes "length ds = 4"
  shows "\<exists>ds' k'. shuffle_array rnd ds k = Some (ds', k') \<and> mset ds' = mset ds"
proof -
  have "\<exists>t. foldM (shuffle_step rnd) [0, 1, 2, 3] (ds, k) = Some t
      \<and> (\<lambda>_ (ds', _ :: nat). length ds' = 4 \<and> mset ds' = mset ds) [0::nat, 1, 2, 3] t"
  proof (rule foldM_invariant)
    fix dn x rest and t :: "Direction list \<times> nat"
    assume x: "[0::nat, 1, 2, 3] = dn @ x # rest" and "case t of (ds', k') \<Rightarrow> length ds' = 4 \<and> mset ds' = mset ds"
    moreover from x have "x \<in> set [0::nat, 1, 2, 3]" by simp
    then have "x < 4" by auto
    ultimately show "\<exists>t'. shuffle_step rnd x t = Some t' \<and> (case t' of (ds', k') \<Rightarrow> length ds' = 4 \<and> mset ds' = mset ds)"
      using shuffle_step_mset [of "fst t" x rnd "snd t"] by (cases t) auto
  qed (use assms in simp)
  then show ?thesis by (auto simp: shuffle_array_def)
qed

lemma shuffle_dirs:
  "\<exists>ds k'. shuffle_array rnd [NORTH, SOUTH, WEST, EAST] k = Some (ds, k') \<and> distinct ds \<and> set ds = UNIV"
proof -
  obtain ds k' where s: "shuffle_array rnd [NORTH, SOUTH, WEST, EAST] k = Some (ds, k')"
    "mset ds = mset [NORTH, SOUTH, WEST, EAST]" using shuffle_array_ok [of "[NORTH, SOUTH, WEST, EAST]" rnd k] by auto
  have "distinct ds" using mset_eq_imp_distinct_iff [OF s(2)] by simp
  moreover have "set ds = UNIV" using mset_eq_setD [OF s(2)] by (auto intro: Direction.exhaust)
  ultimately show ?thesis using s(1) by blast
qed

section \<open>The walk\<close>

lemma opposite_opposite [simp]: "get_opposite_dir (get_opposite_dir d) = d"
  by (cases d) simp_all

lemma move_opposite [simp]: "move (get_opposite_dir d) (move d p) = p"
  by (cases d; cases p) simp_all

lemma move_neq [simp]: "move d p \<noteq> p" "p \<noteq> move d p"
  by (cases d; cases p; simp)+

lemma move_eq_opposite: "move d p = q \<longleftrightarrow> p = move (get_opposite_dir d) q"
  by (cases d; cases p; cases q) auto

lemma move_inj: "move d p = move d' p \<longleftrightarrow> d = d'"
  by (cases d; cases d'; cases p) auto

abbreviation vis :: "int \<Rightarrow> maze \<Rightarrow> pos \<Rightarrow> bool" where
  "vis nc s p \<equiv> visited (room_at nc s p) \<noteq> 0"

abbreviation conn :: "int \<Rightarrow> maze \<Rightarrow> pos \<Rightarrow> Direction \<Rightarrow> int" where
  "conn nc s p d \<equiv> connections (room_at nc s p) d"

text \<open>
  \<open>settled\<close>: side \<open>d\<close> of room \<open>p\<close> has its final value. It is open or walled, a wall at
  the border, the room behind it has been visited, and it agrees with the other room's side
  as soon as that one has a value too.
\<close>

definition settled :: "int \<Rightarrow> int \<Rightarrow> maze \<Rightarrow> pos \<Rightarrow> Direction \<Rightarrow> bool" where
  "settled nr nc s p d \<longleftrightarrow> conn nc s p d \<in> {0, 1} \<and>
     (if inside nr nc (move d p)
      then vis nc s (move d p) \<and>
        (conn nc s (move d p) (get_opposite_dir d) \<in> {0, 1} \<longrightarrow>
         conn nc s (move d p) (get_opposite_dir d) = conn nc s p d)
      else conn nc s p d = 1)"

definition fresh :: "int \<Rightarrow> int \<Rightarrow> maze \<Rightarrow> bool" where
  "fresh nr nc s \<longleftrightarrow> length s = nat (nr * nc) \<and>
     (\<forall>p. inside nr nc p \<longrightarrow> \<not> vis nc s p \<longrightarrow> (\<forall>d. conn nc s p d = - 1))"

definition extends :: "int \<Rightarrow> int \<Rightarrow> maze \<Rightarrow> maze \<Rightarrow> bool" where
  "extends nr nc m s \<longleftrightarrow> (\<forall>p. inside nr nc p \<longrightarrow> vis nc m p \<longrightarrow> room_at nc s p = room_at nc m p)"

lemma freshD: "fresh nr nc s \<Longrightarrow> inside nr nc p \<Longrightarrow> \<not> vis nc s p \<Longrightarrow> conn nc s p d = - 1"
  unfolding fresh_def by blast

text \<open>What a call on room \<open>u\<close> in maze \<open>m\<close> leaves in \<open>s\<close>, and the loop invariant inside it.\<close>

definition walked :: "int \<Rightarrow> int \<Rightarrow> maze \<Rightarrow> pos \<Rightarrow> maze \<Rightarrow> bool" where
  "walked nr nc m u s \<longleftrightarrow> fresh nr nc s \<and> extends nr nc m s \<and> vis nc s u \<and>
     (\<forall>p. inside nr nc p \<longrightarrow> vis nc s p \<longrightarrow> \<not> vis nc m p \<longrightarrow>
        (\<forall>d. settled nr nc s p d) \<and> (passage nr nc s)\<^sup>*\<^sup>* u p)"

definition walking :: "int \<Rightarrow> int \<Rightarrow> maze \<Rightarrow> pos \<Rightarrow> Direction set \<Rightarrow> maze \<Rightarrow> bool" where
  "walking nr nc m u S s \<longleftrightarrow> fresh nr nc s \<and> extends nr nc m s \<and> vis nc s u \<and> \<not> vis nc m u \<and>
     inside nr nc u \<and> (r (room_at nc s u), c (room_at nc s u)) = u \<and>
     (\<forall>d. if d \<in> S then settled nr nc s u d else conn nc s u d = - 1) \<and>
     (\<forall>p. inside nr nc p \<longrightarrow> vis nc s p \<longrightarrow> \<not> vis nc m p \<longrightarrow>
        (p \<noteq> u \<longrightarrow> (\<forall>d. settled nr nc s p d)) \<and> (passage nr nc s)\<^sup>*\<^sup>* u p)"

definition conn_upd :: "int \<Rightarrow> pos \<Rightarrow> Direction \<Rightarrow> int \<Rightarrow> maze \<Rightarrow> maze" where
  "conn_upd nc u d v s = s[idx nc u := (room_at nc s u)\<lparr>connections := (connections (room_at nc s u))(d := v)\<rparr>]"

lemma set_connection_eq:
  "inside nr nc u \<Longrightarrow> length s = nat (nr * nc) \<Longrightarrow> set_connection (idx nc u) d v s = Some (conn_upd nc u d v s)"
  by (simp add: set_connection_def conn_upd_def rd_room)

lemma length_conn_upd [simp]: "length (conn_upd nc u d v s) = length s"
  by (simp add: conn_upd_def)

lemma room_at_conn_upd:
  assumes "inside nr nc u" "length s = nat (nr * nc)" "inside nr nc p"
  shows "room_at nc (conn_upd nc u d v s) p =
    (if p = u then (room_at nc s u)\<lparr>connections := (connections (room_at nc s u))(d := v)\<rparr> else room_at nc s p)"
  unfolding conn_upd_def using room_at_update [OF assms(1,3,2)] by simp

lemma passage_mono:
  assumes "\<And>p d. inside nr nc p \<Longrightarrow> conn nc s p d = 0 \<Longrightarrow> conn nc s' p d = 0"
  shows "(passage nr nc s)\<^sup>*\<^sup>* u p \<Longrightarrow> (passage nr nc s')\<^sup>*\<^sup>* u p"
proof (induction rule: rtranclp_induct)
  case (step y z)
  then have "passage nr nc s' y z" using assms unfolding passage_def by blast
  then show ?case using step.IH by simp
qed simp

lemma walking_update:
  assumes w: "walking nr nc m u S s" and d: "d \<notin> S" and v: "v \<in> {0, 1}"
    and q: "if inside nr nc (move d u)
      then vis nc s (move d u) \<and> (conn nc s (move d u) (get_opposite_dir d) \<in> {0, 1} \<longrightarrow>
        conn nc s (move d u) (get_opposite_dir d) = v)
      else v = 1"
  shows "walking nr nc m u (insert d S) (conn_upd nc u d v s)"
proof -
  let ?s = "conn_upd nc u d v s"
  from w have u: "inside nr nc u" and len: "length s = nat (nr * nc)"
    by (auto simp: walking_def fresh_def)
  note ra = room_at_conn_upd [OF u len, where d = d and v = v]
  have viseq: "vis nc ?s p = vis nc s p" if "inside nr nc p" for p
    using ra [OF that] by simp
  have cu: "conn nc ?s u d' = (if d' = d then v else conn nc s u d')" for d'
    using ra [OF u] by simp
  have cp: "conn nc ?s p = conn nc s p" if "inside nr nc p" "p \<noteq> u" for p
    using ra [OF that(1)] that(2) by simp
  have "conn nc s u d = - 1" using w d by (auto simp: walking_def)
  then have mono: "(passage nr nc s)\<^sup>*\<^sup>* u p \<Longrightarrow> (passage nr nc ?s)\<^sup>*\<^sup>* u p" for p
    using cu cp by (elim passage_mono [rotated]) (metis neg_equal_0_iff_equal zero_neq_one)
  have other: "settled nr nc ?s p d'" if "settled nr nc s p d'" "inside nr nc p" "p \<noteq> u" for p d'
  proof (cases "move d' p = u \<and> d = get_opposite_dir d'")
    case True
    then have p: "p = move d u" "d' = get_opposite_dir d" by auto
    then have "v = conn nc s p d'" using q that by (auto simp: settled_def)
    then show ?thesis using True that cu u viseq [OF u] cp [OF that(2,3)] by (auto simp: settled_def)
  next
    case False
    then show ?thesis using that cu cp [OF that(2,3)] viseq cp [of "move d' p"]
      by (cases "move d' p = u") (auto simp: settled_def)
  qed
  have own: "if d' \<in> insert d S then settled nr nc ?s u d' else conn nc ?s u d' = - 1" for d'
  proof (cases "d' = d")
    case True
    then show ?thesis using q v cu cp [of "move d u"] viseq [of "move d u"] by (auto simp: settled_def)
  next
    case False
    then have "if d' \<in> S then settled nr nc s u d' else conn nc s u d' = - 1" using w by (simp add: walking_def)
    with False show ?thesis using cu cp [of "move d' u"] viseq [of "move d' u"]
      by (auto simp: settled_def)
  qed
  show ?thesis unfolding walking_def
  proof (intro conjI allI impI)
    have "conn nc ?s p d' = - 1" if "inside nr nc p" "\<not> vis nc ?s p" for p d'
    proof -
      have "\<not> vis nc s p" using that viseq by simp
      then have "p \<noteq> u" "conn nc s p d' = - 1" using w that(1) unfolding walking_def fresh_def by blast+
      then show ?thesis using cp that(1) by simp
    qed
    then show "fresh nr nc ?s" using len unfolding fresh_def by simp
    show "extends nr nc m ?s" using w ra by (auto simp: walking_def extends_def)
  qed (use w own other mono viseq u ra [OF u] in \<open>auto simp: walking_def\<close>)
qed


lemma walking_recurse:
  assumes w: "walking nr nc m u S s" and d: "d \<notin> S" and q: "inside nr nc (move d u)"
    and nv: "\<not> vis nc s (move d u)"
    and s1: "s1 = (conn_upd nc u d 0 s)[idx nc (move d u) := (room_at nc s (move d u))\<lparr>r := a, c := b\<rparr>]"
    and post: "walked nr nc s1 (move d u) s2"
  shows "walking nr nc m u (insert d S) s2"
proof -
  let ?q = "move d u"
  from w have u: "inside nr nc u" and len: "length s = nat (nr * nc)" and uv: "vis nc s u" "\<not> vis nc m u"
    by (auto simp: walking_def fresh_def)
  have r1: "room_at nc s1 p = (if p = ?q then (room_at nc s p)\<lparr>r := a, c := b\<rparr>
      else if p = u then (room_at nc s u)\<lparr>connections := (connections (room_at nc s u))(d := 0)\<rparr>
      else room_at nc s p)" if "inside nr nc p" for p
    using that unfolding s1 by (simp add: room_at_update [OF q that] room_at_conn_upd [OF u len that] len)
  have r2: "room_at nc s2 p = room_at nc s1 p" if "inside nr nc p" "vis nc s1 p" for p
    using post that unfolding walked_def extends_def by blast
  have v1: "vis nc s1 p = vis nc s p" if "inside nr nc p" for p using r1 [OF that] by simp
  have v2: "room_at nc s2 p = room_at nc s p" if "inside nr nc p" "vis nc s p" "p \<noteq> u" for p
    using r1 [OF that(1)] r2 [OF that(1)] v1 [OF that(1)] that nv by auto
  have ru: "room_at nc s2 u = (room_at nc s u)\<lparr>connections := (connections (room_at nc s u))(d := 0)\<rparr>"
    using r1 [OF u] r2 [OF u] v1 [OF u] uv by simp
  have vs2: "vis nc s2 p" if "inside nr nc p" "vis nc s p" for p
    using v2 [OF that] ru uv that(2) by (cases "p = u") simp_all
  have cu: "conn nc s u d = - 1" using w d unfolding walking_def by metis
  have fr: "conn nc s p d' = - 1" if "inside nr nc p" "\<not> vis nc s p" for p d'
    using w that unfolding walking_def fresh_def by blast
  have c2: "conn nc s2 p d' = 0" if "inside nr nc p" "conn nc s p d' = 0" for p d'
  proof (cases "p = u")
    case True
    then show ?thesis using ru that(2) cu by (cases "d' = d") simp_all
  next
    case False
    have "vis nc s p" using fr [OF that(1), of d'] that(2) by fastforce
    then show ?thesis using v2 that False by simp
  qed
  note mono = passage_mono [where s = s and s' = s2, OF c2]
  have other: "settled nr nc s2 p d'" if "settled nr nc s p d'" "inside nr nc p" "vis nc s p" "p \<noteq> u \<or> d' \<noteq> d" for p d'
  proof -
    have cp: "conn nc s2 p d' = conn nc s p d'" using v2 [OF that(2,3)] ru that(4) by (cases "p = u") auto
    show ?thesis
    proof (cases "inside nr nc (move d' p)")
      case True
      then have n: "vis nc s (move d' p)" using that(1) by (simp add: settled_def)
      have "conn nc s2 (move d' p) (get_opposite_dir d') = conn nc s (move d' p) (get_opposite_dir d')"
      proof (cases "move d' p = u")
        case True
        then have "p = move (get_opposite_dir d') u" by auto
        then have "get_opposite_dir d' \<noteq> d" using that(3) nv by auto
        then show ?thesis using ru True by simp
      qed (use v2 n \<open>inside nr nc (move d' p)\<close> in simp)
      then show ?thesis using that(1) cp vs2 [OF True n] by (simp add: settled_def)
    qed (use that(1) cp in \<open>simp add: settled_def\<close>)
  qed
  have q2: "\<forall>d'. settled nr nc s2 ?q d'" and vq: "vis nc s2 ?q"
    using post q v1 [OF q] nv unfolding walked_def by blast+
  have new: "(\<forall>d'. settled nr nc s2 p d') \<and> (passage nr nc s2)\<^sup>*\<^sup>* ?q p"
    if "inside nr nc p" "vis nc s2 p" "\<not> vis nc s p" for p
    using post that v1 [OF that(1)] unfolding walked_def by blast
  have "conn nc s2 ?q (get_opposite_dir d) = 0"
    using spec [OF q2, of "get_opposite_dir d"] ru u by (simp add: settled_def)
  then have ud: "settled nr nc s2 u d" using ru vq q by (simp add: settled_def)
  have "passage nr nc s2 u ?q" using ru u q by (auto simp: passage_def intro!: exI [of _ d])
  then have reach: "(passage nr nc s2)\<^sup>*\<^sup>* u p" if "(passage nr nc s2)\<^sup>*\<^sup>* ?q p" for p
    using that by (rule converse_rtranclp_into_rtranclp)
  have own: "if d' \<in> insert d S then settled nr nc s2 u d' else conn nc s2 u d' = - 1" for d'
  proof (cases "d' = d")
    case False
    have "if d' \<in> S then settled nr nc s u d' else conn nc s u d' = - 1" using w unfolding walking_def by metis
    then show ?thesis using other [of u d'] False ru u uv by (auto split: if_splits)
  qed (use ud in simp)
  have "extends nr nc m s2" unfolding extends_def
  proof (intro allI impI)
    fix p assume p: "inside nr nc p" "vis nc m p"
    then have "room_at nc s p = room_at nc m p" using w unfolding walking_def extends_def by blast
    moreover have "p \<noteq> u" using p uv by auto
    ultimately show "room_at nc s2 p = room_at nc m p" using v2 [OF p(1)] p(2) by simp
  qed
  moreover have "(p \<noteq> u \<longrightarrow> (\<forall>d. settled nr nc s2 p d)) \<and> (passage nr nc s2)\<^sup>*\<^sup>* u p"
    if p: "inside nr nc p" "vis nc s2 p" "\<not> vis nc m p" for p
  proof (cases "vis nc s p")
    case True
    then have "(p \<noteq> u \<longrightarrow> (\<forall>d. settled nr nc s p d)) \<and> (passage nr nc s)\<^sup>*\<^sup>* u p"
      using w p unfolding walking_def by blast
    then show ?thesis using other [OF _ p(1) True] mono by blast
  qed (use new [OF p(1,2)] reach in blast)
  moreover have "fresh nr nc s2" using post unfolding walked_def by blast
  moreover have "(r (room_at nc s2 u), c (room_at nc s2 u)) = u" using w ru unfolding walking_def by simp
  ultimately show ?thesis unfolding walking_def using own u uv vs2 [OF u] by blast
qed

text \<open>The contract of the recursive call, for mazes with at most \<open>n\<close> unvisited rooms.\<close>

definition walk_contract :: "int \<Rightarrow> int \<Rightarrow> nat \<Rightarrow> (walk_state \<Rightarrow> int \<Rightarrow> int \<Rightarrow> walk_state option) \<Rightarrow> bool" where
  "walk_contract nr nc n walk \<longleftrightarrow> (\<forall>m k u. fresh nr nc m \<longrightarrow> inside nr nc u \<longrightarrow> \<not> vis nc m u \<longrightarrow>
     card (unvisited_rooms nr nc m) \<le> n \<longrightarrow>
     (\<exists>m' k'. walk (m, k) (fst u) (snd u) = Some (m', k') \<and> walked nr nc m u m'))"

lemma rc_commute: "(rm::maze_room)\<lparr>c := y, r := x\<rparr> = rm\<lparr>r := x, c := y\<rparr>"
  by simp

lemma walk_dir_walking:
  assumes g: "grid nr nc" and con: "walk_contract nr nc n walk"
    and w: "walking nr nc m u S s" and d: "d \<notin> S" and n: "card (unvisited_rooms nr nc m) \<le> Suc n"
  shows "\<exists>s' k'. walk_dir walk (fst u) (snd u) nr nc (idx nc u) d (s, k) = Some (s', k')
    \<and> walking nr nc m u (insert d S) s'"
proof -
  from w have u: "inside nr nc u" and len: "length s = nat (nr * nc)" and uv: "vis nc s u" "\<not> vis nc m u"
    and rc: "(r (room_at nc s u), c (room_at nc s u)) = u"
    by (auto simp: walking_def fresh_def)
  note sc = set_connection_eq [OF u len]
  have di: "direction_index (fst u) (snd u) d nr nc = inside nr nc (move d u)"
    by (simp add: direction_index_inside)
  show ?thesis
  proof (cases "inside nr nc (move d u)")
    case False
    then show ?thesis using walking_update [OF w d, of 1] sc di by (simp add: walk_dir_def)
  next
    case q: True
    have gn: "get_neighbor s nr nc (idx nc u) d = Some (idx nc (move d u))"
      using get_neighbor_inside [OF g len rd_room [OF u len], of d] rc u q by simp
    show ?thesis
    proof (cases "vis nc s (move d u)")
      case True
      let ?w = "conn nc s (move d u) (get_opposite_dir d)"
      have "walking nr nc m u (insert d S) (conn_upd nc u d (if ?w = 1 \<or> ?w = 0 then ?w else 1) s)"
        using q True by (intro walking_update [OF w d]) auto
      then show ?thesis using q True di gn sc rd_room [OF q len] by (simp add: walk_dir_def Let_def)
    next
      case False
      define s1 where "s1 = (conn_upd nc u d 0 s)[idx nc (move d u) :=
        (room_at nc s (move d u))\<lparr>r := fst (move d u), c := snd (move d u)\<rparr>]"
      have nb: "rd (conn_upd nc u d 0 s) (idx nc (move d u)) = Some (room_at nc s (move d u))"
        using rd_room [OF q, of "conn_upd nc u d 0 s"] room_at_conn_upd [OF u len q] len by simp
      have call: "walk_dir walk (fst u) (snd u) nr nc (idx nc u) d (s, k) =
          walk (s1, k) (fst (move d u)) (snd (move d u))"
        using False q di gn sc rd_room [OF q len] nb
        by (cases d; cases u) (simp_all add: walk_dir_def s1_def Let_def rc_commute)
      have ra: "room_at nc s1 p = (if p = move d u then (room_at nc s p)\<lparr>r := fst p, c := snd p\<rparr>
          else if p = u then (room_at nc s u)\<lparr>connections := (connections (room_at nc s u))(d := 0)\<rparr>
          else room_at nc s p)" if "inside nr nc p" for p
        using that unfolding s1_def by (simp add: room_at_update [OF q that] room_at_conn_upd [OF u len that] len)
      have fs: "fresh nr nc s" using w by (simp add: walking_def)
      have "conn nc s1 p d' = - 1" if "inside nr nc p" "\<not> vis nc s1 p" for p d'
      proof -
        have "\<not> vis nc s p" using ra [OF that(1)] that(2) by (auto split: if_splits)
        then have "p \<noteq> u" "conn nc s p d' = - 1" using uv freshD [OF fs that(1)] by auto
        then show ?thesis using ra [OF that(1)] by (cases "p = move d u") simp_all
      qed
      then have fr: "fresh nr nc s1" using len by (simp add: fresh_def s1_def)
      have ex: "extends nr nc m s" using w by (simp add: walking_def)
      have old: "vis nc s p" if "inside nr nc p" "vis nc m p" for p
      proof -
        have "room_at nc s p = room_at nc m p" using ex that unfolding extends_def by blast
        then show ?thesis using that(2) by simp
      qed
      have "vis nc s1 p = vis nc s p" if "inside nr nc p" for p
        unfolding ra [OF that] by simp
      then have "unvisited_rooms nr nc s1 \<subseteq> unvisited_rooms nr nc m - {u}"
        using old uv unfolding unvisited_rooms_def by blast
      moreover have "u \<in> unvisited_rooms nr nc m" using u uv by (simp add: unvisited_rooms_def)
      ultimately have cn: "card (unvisited_rooms nr nc s1) \<le> n"
        using n card_mono [of "unvisited_rooms nr nc m - {u}" "unvisited_rooms nr nc s1"] by simp
      have nv1: "\<not> vis nc s1 (move d u)" using ra [OF q] False by simp
      obtain m' k' where "walk (s1, k) (fst (move d u)) (snd (move d u)) = Some (m', k')"
        "walked nr nc s1 (move d u) m'"
        using con [unfolded walk_contract_def, rule_format, OF fr q nv1 cn, of k] by blast
      then have "walk_dir walk (fst u) (snd u) nr nc (idx nc u) d (s, k) = Some (m', k')"
        and "walking nr nc m u (insert d S) m'"
        using call walking_recurse [OF w d q False s1_def] by simp_all
      then show ?thesis by blast
    qed
  qed
qed

lemma drunken_walk_contract:
  assumes g: "grid nr nc"
  shows "walk_contract nr nc fuel (drunken_walk fuel rnd nr nc)"
proof (induction fuel)
  case 0
  have "unvisited_rooms nr nc m \<noteq> {}" if "inside nr nc u" "\<not> vis nc m u" for m u
    using that unfolding unvisited_rooms_def by blast
  then show ?case by (simp add: walk_contract_def)
next
  case (Suc n)
  show ?case unfolding walk_contract_def
  proof (intro allI impI)
    fix m k u
    assume fr: "fresh nr nc m" and u: "inside nr nc u" and nv: "\<not> vis nc m u"
      and card: "card (unvisited_rooms nr nc m) \<le> Suc n"
    have len: "length m = nat (nr * nc)" using fr by (simp add: fresh_def)
    let ?rm = "(room_at nc m u)\<lparr>visited := 1, r := fst u, c := snd u, next_room := None\<rparr>"
    let ?m = "m[idx nc u := ?rm]"
    have ra: "room_at nc ?m p = (if p = u then ?rm else room_at nc m p)" if "inside nr nc p" for p
      using room_at_update [OF u that len] by simp
    have "conn nc m u d = - 1" for d by (rule freshD [OF fr u nv])
    then have start: "walking nr nc m u {} ?m"
      using fr u nv ra len by (auto simp: walking_def fresh_def extends_def)
    obtain ds k' where ds: "shuffle_array rnd [NORTH, SOUTH, WEST, EAST] k = Some (ds, k')" "distinct ds" "set ds = UNIV"
      using shuffle_dirs by blast
    let ?step = "walk_dir (drunken_walk n rnd nr nc) (fst u) (snd u) nr nc (idx nc u)"
    have "\<exists>t. foldM ?step ds (?m, k') = Some t \<and> walking nr nc m u (set ds) (fst t)"
    proof (rule foldM_invariant)
      fix dn d rest and t :: walk_state
      assume "ds = dn @ d # rest" and "walking nr nc m u (set dn) (fst t)"
      then show "\<exists>t'. ?step d t = Some t' \<and> walking nr nc m u (set (dn @ [d])) (fst t')"
        using walk_dir_walking [OF g Suc.IH, of m u "set dn" "fst t" d "snd t"] ds(2) card by (cases t) auto
    qed (use start in simp)
    then obtain s' k'' where "foldM ?step ds (?m, k') = Some (s', k'')" "walking nr nc m u UNIV s'"
      using ds(3) by auto
    moreover have "room_ptr m (get_index (fst u) (snd u) nc) = Some (idx nc u)"
      using room_ptr_inside [OF g _ len, of "fst u" "snd u"] u by simp
    ultimately show "\<exists>m' k'. drunken_walk (Suc n) rnd nr nc (m, k) (fst u) (snd u) = Some (m', k') \<and> walked nr nc m u m'"
      using ds(1) rd_room [OF u len] by (auto simp: walked_def walking_def)
  qed
qed


section \<open>The generated maze\<close>

text \<open>
  A well-formed maze: every side of every room is open or walled, the border is walled, the
  two rooms at a side agree about it, and every room can be reached from the corner.
\<close>

definition well_formed_maze :: "int \<Rightarrow> int \<Rightarrow> maze \<Rightarrow> bool" where
  "well_formed_maze nr nc s \<longleftrightarrow> length s = nat (nr * nc) \<and>
     (\<forall>p. inside nr nc p \<longrightarrow> (passage nr nc s)\<^sup>*\<^sup>* (0, 0) p \<and>
       (\<forall>d. conn nc s p d \<in> {0, 1} \<and>
         (if inside nr nc (move d p) then conn nc s (move d p) (get_opposite_dir d) = conn nc s p d
          else conn nc s p d = 1)))"

lemma init_maze_fresh:
  assumes "length junk = nat (nr * nc)"
  shows "fresh nr nc (init_maze junk)" and "inside nr nc p \<Longrightarrow> \<not> vis nc (init_maze junk) p"
  using assms idx_less by (simp_all add: fresh_def init_maze_def room_at_def)

lemma drunken_walk_well_formed:
  assumes g: "grid nr nc" and len: "length junk = nat (nr * nc)" and fuel: "nat (nr * nc) \<le> fuel"
  shows "\<exists>s k. drunken_walk fuel rnd nr nc (init_maze junk, 0) 0 0 = Some (s, k) \<and> well_formed_maze nr nc s"
proof -
  have o: "inside nr nc (0, 0)" using g by (simp add: grid_def inside_def is_in_range_def)
  have "card (unvisited_rooms nr nc (init_maze junk)) \<le> fuel"
    using card_unvisited_le [of nr nc "init_maze junk"] g fuel by (simp add: grid_def)
  then obtain s k where s: "drunken_walk fuel rnd nr nc (init_maze junk, 0) 0 0 = Some (s, k)"
    "walked nr nc (init_maze junk) (0, 0) s"
    using drunken_walk_contract [OF g, of fuel rnd] init_maze_fresh [OF len] o
    unfolding walk_contract_def by (metis fst_conv snd_conv)
  have new: "(\<forall>d. settled nr nc s p d) \<and> (passage nr nc s)\<^sup>*\<^sup>* (0, 0) p" if "inside nr nc p" "vis nc s p" for p
    using s(2) init_maze_fresh(2) [OF len that(1)] that unfolding walked_def by blast
  have all: "vis nc s p" if "inside nr nc p" for p
    using that
  proof (rule passage_grid_connected)
    show "vis nc s (0, 0)" using s(2) by (simp add: walked_def)
    show "vis nc s (move d q)" if "inside nr nc q" "inside nr nc (move d q)" "vis nc s q" for q d
      using new [OF that(1,3)] that(2) by (simp add: settled_def)
  qed
  have "conn nc s (move d p) (get_opposite_dir d) = conn nc s p d"
    if "inside nr nc p" "inside nr nc (move d p)" for p d
    using new [OF that(1) all [OF that(1)]] new [OF that(2) all [OF that(2)]] that(2) by (simp add: settled_def)
  moreover have "length s = nat (nr * nc)" using s(2) by (simp add: walked_def fresh_def)
  moreover have "conn nc s p d \<in> {0, 1}" "\<not> inside nr nc (move d p) \<Longrightarrow> conn nc s p d = 1" if "inside nr nc p" for p d
    using new [OF that all [OF that]] unfolding settled_def by metis+
  ultimately have "well_formed_maze nr nc s"
    using new [OF _ all] unfolding well_formed_maze_def by simp
  then show ?thesis using s(1) by blast
qed

lemma encode_room_bounds:
  "(\<And>d. connections rm d \<in> {0, 1}) \<Longrightarrow> 0 \<le> encode_room rm \<and> encode_room rm < 16"
proof -
  assume "\<And>d. connections rm d \<in> {0, 1}"
  then have "0 \<le> connections rm d \<and> connections rm d \<le> 1" for d by (cases "connections rm d = 0") force+
  from this [of NORTH] this [of SOUTH] this [of WEST] this [of EAST]
  show ?thesis by (simp add: encode_room_def)
qed

lemma encode_maze_eq:
  assumes "grid nr nc" "length s = nat (nr * nc)"
  shows "encode_maze s nr nc = Some (map encode_room s)"
proof -
  have "c_int (nr * nc) = Some (nr * nc)" using assms(1) mult_pos_pos [of nr nc]
    by (intro c_int_id; simp only: grid_def; linarith)
  moreover have "those (map (\<lambda>i. map_option encode_room (rd s i)) [0..<length s]) =
      Some (map (\<lambda>i. encode_room (s ! i)) [0..<length s])"
    by (rule those_map_Some) (simp add: rd_def)
  moreover have "map (\<lambda>i. encode_room (s ! i)) [0..<length s] = map encode_room s"
    by (rule nth_equalityI) simp_all
  ultimately show ?thesis using assms(2) by (simp add: encode_maze_def)
qed

text \<open>The file the generator writes for a maze: one line of hexadecimal digits per row.\<close>

definition maze_digit :: "int \<Rightarrow> maze \<Rightarrow> pos \<Rightarrow> char" where
  "maze_digit nc s p = hex_digit (nat (encode_room (room_at nc s p)))"

definition maze_line :: "int \<Rightarrow> maze \<Rightarrow> nat \<Rightarrow> string" where
  "maze_line nc s i = map (\<lambda>k. maze_digit nc s (int i, int k)) [0..<nat nc] @ [CHR 0x0A]"

definition maze_file :: "int \<Rightarrow> int \<Rightarrow> maze \<Rightarrow> string" where
  "maze_file nr nc s = concat (map (maze_line nc s) [0..<nat nr])"

lemma idx_nat: "0 \<le> nc \<Longrightarrow> idx nc (int i, int k) = i * nat nc + k"
  by (simp add: idx_def nat_add_distrib nat_mult_distrib)

lemma print_maze_eq:
  assumes "grid nr nc" "well_formed_maze nr nc s"
  shows "print_maze (map encode_room s) nr nc = Some (maze_file nr nc s)"
proof -
  have cell: "rd (map encode_room s) (i * nat nc + k) = Some (encode_room (room_at nc s (int i, int k)))"
    "print_x (encode_room (room_at nc s (int i, int k))) = [maze_digit nc s (int i, int k)]"
    if "i < nat nr" "k < nat nc" for i k
  proof -
    have p: "inside nr nc (int i, int k)" using that by (simp add: inside_def is_in_range_def zless_nat_eq_int_zless)
    have "idx nc (int i, int k) = i * nat nc + k" using assms(1) by (simp add: grid_def idx_nat)
    then show "rd (map encode_room s) (i * nat nc + k) = Some (encode_room (room_at nc s (int i, int k)))"
      using idx_less [OF p] assms(2) by (simp add: rd_def room_at_def well_formed_maze_def)
    have "0 \<le> encode_room (room_at nc s (int i, int k)) \<and> encode_room (room_at nc s (int i, int k)) < 16"
      using assms(2) p by (intro encode_room_bounds) (auto simp: well_formed_maze_def)
    then show "print_x (encode_room (room_at nc s (int i, int k))) = [maze_digit nc s (int i, int k)]"
      by (simp add: print_x_def maze_digit_def hex_nat.simps nat_less_iff)
  qed
  have line: "foldM (\<lambda>k file. do { v \<leftarrow> rd (map encode_room s) (i * nat nc + k); Some (file @ print_x v) }) [0..<n] f
      = Some (f @ map (\<lambda>k. maze_digit nc s (int i, int k)) [0..<n])" if "i < nat nr" "n \<le> nat nc" for i n f
    using that(2) by (induction n) (simp_all add: foldM_append cell [OF that(1)])
  have "foldM (\<lambda>i file. do {
         file \<leftarrow> foldM (\<lambda>k file. do { v \<leftarrow> rd (map encode_room s) (i * nat nc + k); Some (file @ print_x v) }) [0..<nat nc] file;
         Some (file @ [CHR 0x0A]) }) [0..<n] [] = Some (concat (map (maze_line nc s) [0..<n]))" if "n \<le> nat nr" for n
    using that by (induction n) (simp_all add: foldM_append line maze_line_def)
  then show ?thesis by (simp add: print_maze_def maze_file_def)
qed

lemma generator_main_eq:
  assumes "length argv = 4" "atoi (argv ! 2) = Some nr" "atoi (argv ! 3) = Some nc"
    and "grid nr nc" "length junk = nat (nr * nc)" "nat (nr * nc) \<le> fuel" "open_out (argv ! 1)"
  shows "\<exists>s. well_formed_maze nr nc s \<and> generator_main fuel rnd junk open_out True argv = Some (0, maze_file nr nc s)"
proof -
  obtain s k where s: "drunken_walk fuel rnd nr nc (init_maze junk, 0) 0 0 = Some (s, k)" "well_formed_maze nr nc s"
    using drunken_walk_well_formed [OF assms(4-6)] by blast
  then have "encode_maze s nr nc = Some (map encode_room s)"
    using encode_maze_eq [OF assms(4)] by (simp add: well_formed_maze_def)
  then show ?thesis using s assms(1-4,7) print_maze_eq [OF assms(4) s(2)]
    by (auto simp: generator_main_def grid_def)
qed

text \<open>
  C32. The random walk from the corner of a grid of unvisited rooms returns, whatever numbers
  are drawn and whatever the memory held, and leaves a maze in which every side has a value
  the two rooms at it agree on, the border is closed, and every room is reachable.
\<close>

theorem drunken_walk_makes_maze:
  assumes "grid nr nc" and "length junk = nat (nr * nc)" and "nat (nr * nc) \<le> fuel"
  shows "\<exists>s k. drunken_walk fuel rnd nr nc (init_maze junk, 0) 0 0 = Some (s, k) \<and> well_formed_maze nr nc s"
  by (rule drunken_walk_well_formed [OF assms])

theorem drunken_walk_makes_maze_witness:
  "\<exists>s k. drunken_walk 6 (\<lambda>k. 7 * k + 3) 2 3
     (init_maze (replicate 6 \<lparr>r = 9, c = 9, visited = 9, connections = (\<lambda>_. 9), next_room = Some 9\<rparr>), 0) 0 0
     = Some (s, k) \<and> well_formed_maze 2 3 s"
  using drunken_walk_makes_maze [of 2 3 "replicate 6 \<lparr>r = 9, c = 9, visited = 9, connections = (\<lambda>_. 9), next_room = Some 9\<rparr>" 6 "\<lambda>k. 7 * k + 3"]
  by (simp add: grid_def)

end
