(* ===== verification/MazeSolver.thy ===== *)
theory MazeSolver
  imports MazeGenerator
begin

text \<open>
  The maze solver, \<^verbatim>\<open>src/maze/solver.c\<close>: decoding of the hexadecimal maze file, the recursive
  depth-first search, and the printing of the pruned path. The compile-time macro \<^verbatim>\<open>FULL\<close> is
  the parameter \<open>full\<close>; a line \<^verbatim>\<open>"%d, %d\n"\<close> of the output file is the position it names. The
  search and the printing carry fuel for their recursion depth.
\<close>

definition create_room_connections :: "maze_room \<Rightarrow> nat \<Rightarrow> maze_room" where
  "create_room_connections room hex =
     (let (hex, east) = (if hex \<ge> 8 then (hex - 8, 1) else (hex, 0));
          (hex, west) = (if hex \<ge> 4 then (hex - 4, 1) else (hex, 0));
          (hex, south) = (if hex \<ge> 2 then (hex - 2, 1) else (hex, 0));
          north = (if hex = 1 then 1 else 0)
      in room\<lparr>connections := (connections room)(EAST := east, WEST := west, SOUTH := south, NORTH := north)\<rparr>)"

type_synonym dfs_state = "maze \<times> pos list"

text \<open>The loop of \<^verbatim>\<open>dfs\<close> over the remaining directions; \<open>search\<close> is the recursive call.\<close>

primrec dfs_loop :: "(dfs_state \<Rightarrow> int \<Rightarrow> int \<Rightarrow> (bool \<times> dfs_state) option) \<Rightarrow> bool \<Rightarrow> int \<Rightarrow> int \<Rightarrow>
    int \<Rightarrow> int \<Rightarrow> nat \<Rightarrow> Direction list \<Rightarrow> dfs_state \<Rightarrow> (bool \<times> dfs_state) option" where
  "dfs_loop search full row col num_rows num_cols room [] s = Some (False, s)"
| "dfs_loop search full row col num_rows num_cols room (i # is) s = (case s of (m, file) \<Rightarrow>
     if direction_index row col i num_rows num_cols then do {
       neighbor \<leftarrow> get_neighbor m num_rows num_cols room i;
       rm \<leftarrow> rd m room;
       let m = m[room := rm\<lparr>next_room := Some neighbor\<rparr>];
       nb \<leftarrow> rd m neighbor;
       if connections rm i = 0 \<and> visited nb = 0 then do {
         (found, m, file) \<leftarrow> search (m, file) (r nb) (c nb);
         if found then Some (True, m, file)
         else dfs_loop search full row col num_rows num_cols room is
           (m, if full then file @ [(row, col)] else file)
       } else dfs_loop search full row col num_rows num_cols room is (m, file)
     } else dfs_loop search full row col num_rows num_cols room is (m, file))"

primrec dfs :: "nat \<Rightarrow> bool \<Rightarrow> int \<Rightarrow> int \<Rightarrow> int \<Rightarrow> int \<Rightarrow> dfs_state \<Rightarrow> int \<Rightarrow> int \<Rightarrow> (bool \<times> dfs_state) option" where
  "dfs 0 full goal_row goal_col num_rows num_cols s row col = None"
| "dfs (Suc fuel) full goal_row goal_col num_rows num_cols s row col = (case s of (maze, file) \<Rightarrow> do {
     let file = (if full then file @ [(row, col)] else file);
     room \<leftarrow> room_ptr maze (get_index row col num_cols);
     rm \<leftarrow> rd maze room;
     if row = goal_row \<and> col = goal_col
     then Some (True, maze[room := rm\<lparr>next_room := Some room, visited := 1\<rparr>], file)
     else dfs_loop (dfs fuel full goal_row goal_col num_rows num_cols) full row col num_rows num_cols room
       [NORTH, SOUTH, WEST, EAST] (maze[room := rm\<lparr>visited := 1\<rparr>], file)
   })"

primrec print_prunned :: "nat \<Rightarrow> maze \<Rightarrow> nat \<Rightarrow> pos list \<Rightarrow> int \<Rightarrow> int \<Rightarrow> pos list option" where
  "print_prunned 0 maze room file goal_row goal_col = None"
| "print_prunned (Suc fuel) maze room file goal_row goal_col = do {
     rm \<leftarrow> rd maze room;
     let file = file @ [(r rm, c rm)];
     if \<not> (r rm = goal_row \<and> c rm = goal_col) then do {
       n \<leftarrow> next_room rm;
       print_prunned fuel maze n file goal_row goal_col
     } else Some file
   }"

text \<open>
  \<^verbatim>\<open>fscanf(file, "%1x", &hex)\<close>: skip white space, then one hexadecimal digit. A lone sign
  is consumed without a conversion, and a failed conversion leaves \<^verbatim>\<open>hex\<close> as it was.
\<close>

definition xdigit_val :: "char \<Rightarrow> nat option" where
  "xdigit_val ch = (let n = of_char ch :: nat in
     if 48 \<le> n \<and> n \<le> 57 then Some (n - 48)
     else if 97 \<le> n \<and> n \<le> 102 then Some (n - 87)
     else if 65 \<le> n \<and> n \<le> 70 then Some (n - 55)
     else None)"

definition scan_1x :: "string \<Rightarrow> nat \<Rightarrow> nat \<times> string" where
  "scan_1x file hex = (case dropWhile isspace file of
       [] \<Rightarrow> (hex, [])
     | ch # rest \<Rightarrow> (case xdigit_val ch of
           Some v \<Rightarrow> (v, rest)
         | None \<Rightarrow> if ch = CHR ''+'' \<or> ch = CHR ''-'' then (hex, rest) else (hex, ch # rest)))"

type_synonym read_state = "string \<times> nat \<times> maze"

definition read_cell :: "int \<Rightarrow> nat \<Rightarrow> nat \<Rightarrow> read_state \<Rightarrow> read_state option" where
  "read_cell num_cols i j s = (case s of (file, hex, maze) \<Rightarrow> do {
     let (hex, file) = scan_1x file hex;
     index \<leftarrow> room_ptr maze (get_index (int i) (int j) num_cols);
     rm \<leftarrow> rd maze index;
     let rm = create_room_connections rm hex;
     Some (file, hex, maze[index := rm\<lparr>r := int i, c := int j, visited := 0, next_room := None\<rparr>])
   })"

definition read_maze :: "int \<Rightarrow> int \<Rightarrow> read_state \<Rightarrow> read_state option" where
  "read_maze num_rows num_cols s =
     foldM (\<lambda>i s. foldM (\<lambda>j s. read_cell num_cols i j s) [0..<nat num_cols] s) [0..<nat num_rows] s"

text \<open>
  \<^verbatim>\<open>main\<close>: \<open>open_in\<close> and \<open>open_out\<close> say what opening the two files yields and \<open>close_ok\<close> whether
  closing the maze file succeeds (closing the path file only prints a message), \<open>junk\<close> and \<open>hex\<close> are
  the uninitialised stack variables. The result is the exit status, whether a solution was
  found, and the lines of the path file after its heading.
\<close>

definition solver_main :: "nat \<Rightarrow> bool \<Rightarrow> (string \<Rightarrow> string option) \<Rightarrow> (string \<Rightarrow> bool) \<Rightarrow> bool \<Rightarrow> maze \<Rightarrow> nat \<Rightarrow>
    string list \<Rightarrow> (int \<times> bool \<times> pos list) option" where
  "solver_main fuel full open_in open_out close_ok junk hex argv =
     (if length argv \<noteq> 9 then Some (1, False, [])
      else do {
        num_rows \<leftarrow> atoi (argv ! 2);
        num_cols \<leftarrow> atoi (argv ! 3);
        start_row \<leftarrow> atoi (argv ! 5);
        start_col \<leftarrow> atoi (argv ! 6);
        goal_row \<leftarrow> atoi (argv ! 7);
        goal_col \<leftarrow> atoi (argv ! 8);
        if num_cols \<le> 0 \<or> num_rows \<le> 0 then Some (1, False, [])
        else if num_rows \<le> start_row \<or> start_row < 0 \<or> num_cols \<le> start_col \<or> start_col < 0
          then Some (1, False, [])
        else if num_rows \<le> goal_row \<or> goal_row < 0 \<or> num_cols \<le> goal_col \<or> goal_col < 0
          then Some (1, False, [])
        else (case open_in (argv ! 1) of
            None \<Rightarrow> Some (1, False, [])
          | Some file \<Rightarrow>
              if \<not> open_out (argv ! 4) then Some (1, False, [])
              else do {
                (file, hex, maze) \<leftarrow> read_maze num_rows num_cols (file, hex, junk);
                (found, m, pfile) \<leftarrow> dfs fuel full goal_row goal_col num_rows num_cols (maze, []) start_row start_col;
                let status = (if close_ok then 0 else 1);
                if \<not> found then Some (status, False, pfile)
                else if full then Some (status, True, pfile)
                else do {
                  room \<leftarrow> room_ptr m (get_index start_row start_col num_cols);
                  pfile \<leftarrow> print_prunned fuel m room pfile goal_row goal_col;
                  Some (status, True, pfile)
                }
              })
      })"

section \<open>Decoding\<close>

lemma create_encode:
  assumes "\<And>d. connections rm d \<in> {0, 1}"
  shows "connections (create_room_connections rm' (nat (encode_room rm))) = connections rm"
proof
  fix d
  from assms [of NORTH] assms [of SOUTH] assms [of WEST] assms [of EAST]
  show "connections (create_room_connections rm' (nat (encode_room rm))) d = connections rm d"
    unfolding insert_iff empty_iff encode_room_def create_room_connections_def
    by (elim disjE FalseE; cases d; simp add: Let_def)
qed

lemma below_16: "(n::nat) < 16 \<Longrightarrow> n \<in> {0, 1, 2, 3, 4, 5, 6, 7, 8, 9, 10, 11, 12, 13, 14, 15}"
  unfolding insert_iff empty_iff by presburger

lemma encode_create: "h < 16 \<Longrightarrow> encode_room (create_room_connections rm h) = int h"
  by (drule below_16, elim insertE) (simp_all add: encode_room_def create_room_connections_def)

lemma hex_digit_val: "n < 16 \<Longrightarrow> xdigit_val (hex_digit n) = Some n \<and> \<not> isspace (hex_digit n)"
  by (drule below_16, elim insertE) (simp_all add: hex_digit_def xdigit_val_def isspace_def)

lemma scan_digit:
  "\<forall>ch \<in> set pre. isspace ch \<Longrightarrow> n < 16 \<Longrightarrow> scan_1x (pre @ hex_digit n # rest) hex = (n, rest)"
  using hex_digit_val [of n] by (simp add: scan_1x_def dropWhile_append2)


section \<open>Reading a maze file\<close>

text \<open>The room the solver builds for a position of a generated maze.\<close>

definition read_room :: "int \<Rightarrow> maze \<Rightarrow> pos \<Rightarrow> maze_room" where
  "read_room nc s p = \<lparr>r = fst p, c = snd p, visited = 0, connections = connections (room_at nc s p), next_room = None\<rparr>"

definition before :: "pos \<Rightarrow> nat \<Rightarrow> nat \<Rightarrow> bool" where
  "before p i k \<longleftrightarrow> fst p < int i \<or> fst p = int i \<and> snd p < int k"

definition read_upto :: "int \<Rightarrow> int \<Rightarrow> maze \<Rightarrow> nat \<Rightarrow> nat \<Rightarrow> string \<Rightarrow> read_state \<Rightarrow> bool" where
  "read_upto nr nc s i k todo st \<longleftrightarrow> (case st of (file, hex, maze) \<Rightarrow>
     (\<exists>pre. (\<forall>ch \<in> set pre. isspace ch) \<and> file = pre @ todo) \<and> length maze = nat (nr * nc) \<and>
     (\<forall>p. inside nr nc p \<longrightarrow> before p i k \<longrightarrow> room_at nc maze p = read_room nc s p))"

lemma read_cell_step:
  assumes g: "grid nr nc" and wf: "well_formed_maze nr nc s" and ik: "i < nat nr" "k < nat nc"
    and st: "read_upto nr nc s i k (maze_digit nc s (int i, int k) # todo) st"
  shows "\<exists>st'. read_cell nc i k st = Some st' \<and> read_upto nr nc s i (Suc k) todo st'"
proof -
  let ?p = "(int i, int k)"
  obtain pre hex maze where st': "st = (pre @ maze_digit nc s ?p # todo, hex, maze)" "\<forall>ch \<in> set pre. isspace ch"
    "length maze = nat (nr * nc)" "\<And>p. inside nr nc p \<Longrightarrow> before p i k \<Longrightarrow> room_at nc maze p = read_room nc s p"
    using st by (auto simp: read_upto_def)
  have p: "inside nr nc ?p" using ik by (simp add: inside_def is_in_range_def zless_nat_eq_int_zless)
  have bits: "connections (room_at nc s ?p) d \<in> {0, 1}" for d
    using wf p unfolding well_formed_maze_def by blast
  let ?h = "nat (encode_room (room_at nc s ?p))"
  have "?h < 16" using encode_room_bounds [OF bits] by (simp add: nat_less_iff)
  then have scan: "scan_1x (pre @ maze_digit nc s ?p # todo) hex = (?h, todo)"
    using scan_digit [OF st'(2)] by (simp add: maze_digit_def)
  let ?rm = "(create_room_connections (room_at nc maze ?p) ?h)\<lparr>r := int i, c := int k, visited := 0, next_room := None\<rparr>"
  have "?rm = read_room nc s ?p"
    using create_encode [OF bits] by (simp add: read_room_def)
  then have cell: "read_cell nc i k st = Some (todo, ?h, maze[idx nc ?p := read_room nc s ?p])"
    using scan room_ptr_inside [OF g p st'(3)] rd_room [OF p st'(3)] by (simp add: read_cell_def st'(1))
  have "room_at nc (maze[idx nc ?p := read_room nc s ?p]) q = read_room nc s q"
    if "inside nr nc q" "before q i (Suc k)" for q
    using room_at_update [OF p that(1) st'(3)] st'(4) [OF that(1)] that(2) by (cases q) (auto simp: before_def)
  then have "read_upto nr nc s i (Suc k) todo (todo, ?h, maze[idx nc ?p := read_room nc s ?p])"
    using st'(3) by (auto simp: read_upto_def intro: exI [of _ "[]"])
  then show ?thesis using cell by blast
qed

lemma read_line:
  assumes g: "grid nr nc" and wf: "well_formed_maze nr nc s" and i: "i < nat nr"
    and st: "read_upto nr nc s i 0 (maze_line nc s i @ todo) st"
  shows "\<exists>st'. foldM (\<lambda>j s. read_cell nc i j s) [0..<nat nc] st = Some st' \<and> read_upto nr nc s (Suc i) 0 todo st'"
proof -
  let ?cells = "\<lambda>k. map (\<lambda>k. maze_digit nc s (int i, int k)) [k..<nat nc] @ CHR 0x0A # todo"
  have "\<exists>st'. foldM (\<lambda>j s. read_cell nc i j s) [0..<n] st = Some st' \<and> read_upto nr nc s i n (?cells n) st'"
    if "n \<le> nat nc" for n
    using that
  proof (induction n)
    case 0
    then show ?case using st by (simp add: maze_line_def)
  next
    case (Suc n)
    then obtain st' where st': "foldM (\<lambda>j s. read_cell nc i j s) [0..<n] st = Some st'" "read_upto nr nc s i n (?cells n) st'"
      by auto
    have "?cells n = maze_digit nc s (int i, int n) # ?cells (Suc n)" using Suc.prems by (simp add: upt_conv_Cons)
    then show ?case using read_cell_step [OF g wf i, of n "?cells (Suc n)" st'] st' Suc.prems
      by (auto simp: foldM_append)
  qed
  from this [of "nat nc"] obtain f hex maze where st': "foldM (\<lambda>j s. read_cell nc i j s) [0..<nat nc] st = Some (f, hex, maze)"
    "read_upto nr nc s i (nat nc) (CHR 0x0A # todo) (f, hex, maze)" by (auto simp del: Product_Type.split_paired_Ex)
  have "before p i (nat nc)" if "inside nr nc p" "before p (Suc i) 0" for p
    using that by (auto simp: before_def inside_def is_in_range_def)
  moreover obtain pre where pre: "\<forall>ch \<in> set pre. isspace ch" "f = pre @ CHR 0x0A # todo"
    using st'(2) by (auto simp: read_upto_def)
  then have "\<forall>ch \<in> set (pre @ [CHR 0x0A]). isspace ch" "f = (pre @ [CHR 0x0A]) @ todo"
    by (simp_all add: isspace_def)
  ultimately have "read_upto nr nc s (Suc i) 0 todo (f, hex, maze)"
    using st'(2) unfolding read_upto_def by blast
  then show ?thesis using st'(1) by blast
qed

lemma read_maze_file:
  assumes g: "grid nr nc" and wf: "well_formed_maze nr nc s" and len: "length junk = nat (nr * nc)"
  shows "\<exists>file' hex' maze. read_maze nr nc (maze_file nr nc s, hex, junk) = Some (file', hex', maze)
    \<and> length maze = nat (nr * nc) \<and> (\<forall>p. inside nr nc p \<longrightarrow> room_at nc maze p = read_room nc s p)"
proof -
  let ?lines = "\<lambda>i. concat (map (maze_line nc s) [i..<nat nr])"
  let ?body = "\<lambda>i s. foldM (\<lambda>j s. read_cell nc i j s) [0..<nat nc] s"
  have "\<exists>st. foldM ?body [0..<n] (maze_file nr nc s, hex, junk) = Some st \<and> read_upto nr nc s n 0 (?lines n) st"
    if "n \<le> nat nr" for n
    using that
  proof (induction n)
    case 0
    have "\<not> before p 0 0" if "inside nr nc p" for p using that by (auto simp: before_def inside_def is_in_range_def)
    then show ?case using len by (auto simp: read_upto_def maze_file_def intro!: exI [of _ "[]"])
  next
    case (Suc n)
    then obtain st where st: "foldM ?body [0..<n] (maze_file nr nc s, hex, junk) = Some st"
      "read_upto nr nc s n 0 (?lines n) st" by auto
    have "?lines n = maze_line nc s n @ ?lines (Suc n)" using Suc.prems by (simp add: upt_conv_Cons)
    then show ?case using read_line [OF g wf, of n "?lines (Suc n)" st] st Suc.prems by (auto simp: foldM_append)
  qed
  from this [of "nat nr"] obtain file' hex' maze where
    "read_maze nr nc (maze_file nr nc s, hex, junk) = Some (file', hex', maze)"
    "read_upto nr nc s (nat nr) 0 [] (file', hex', maze)"
    by (auto simp: read_maze_def simp del: Product_Type.split_paired_Ex)
  moreover have "before p (nat nr) 0" if "inside nr nc p" for p
    using that by (simp add: before_def inside_def is_in_range_def)
  ultimately show ?thesis by (auto simp: read_upto_def)
qed


section \<open>The search\<close>

declare split_paired_All [simp del] split_paired_Ex [simp del]

definition coords :: "int \<Rightarrow> int \<Rightarrow> maze \<Rightarrow> bool" where
  "coords nr nc s \<longleftrightarrow> length s = nat (nr * nc) \<and>
     (\<forall>p. inside nr nc p \<longrightarrow> (r (room_at nc s p), c (room_at nc s p)) = p)"

definition same_walls :: "int \<Rightarrow> int \<Rightarrow> maze \<Rightarrow> maze \<Rightarrow> bool" where
  "same_walls nr nc m s \<longleftrightarrow> (\<forall>p. inside nr nc p \<longrightarrow> connections (room_at nc s p) = connections (room_at nc m p))"

text \<open>The chain of \<^verbatim>\<open>next\<close> pointers from the first room of a path to the goal.\<close>

fun next_chain :: "int \<Rightarrow> int \<Rightarrow> maze \<Rightarrow> pos \<Rightarrow> pos list \<Rightarrow> bool" where
  "next_chain nr nc s goal [] \<longleftrightarrow> False"
| "next_chain nr nc s goal [p] \<longleftrightarrow> p = goal \<and> inside nr nc p"
| "next_chain nr nc s goal (p # q # ps) \<longleftrightarrow> p \<noteq> goal \<and> passage nr nc s p q \<and>
     next_room (room_at nc s p) = Some (idx nc q) \<and> next_chain nr nc s goal (q # ps)"

definition searched :: "int \<Rightarrow> int \<Rightarrow> pos \<Rightarrow> maze \<Rightarrow> pos \<Rightarrow> bool \<Rightarrow> maze \<Rightarrow> bool" where
  "searched nr nc goal m u found s \<longleftrightarrow> coords nr nc s \<and> same_walls nr nc m s \<and> extends nr nc m s \<and> vis nc s u \<and>
     (if found
      then \<exists>ps. next_chain nr nc s goal (u # ps) \<and> distinct (u # ps) \<and> (\<forall>p \<in> set (u # ps). \<not> vis nc m p)
      else \<forall>p. inside nr nc p \<longrightarrow> vis nc s p \<longrightarrow> \<not> vis nc m p \<longrightarrow>
        p \<noteq> goal \<and> (\<forall>q. passage nr nc m p q \<longrightarrow> vis nc s q))"

text \<open>The loop invariant: the directions \<open>D\<close> of room \<open>u\<close> are still to be tried.\<close>

definition searching :: "int \<Rightarrow> int \<Rightarrow> pos \<Rightarrow> maze \<Rightarrow> pos \<Rightarrow> Direction set \<Rightarrow> maze \<Rightarrow> bool" where
  "searching nr nc goal m u D s \<longleftrightarrow> coords nr nc s \<and> same_walls nr nc m s \<and> extends nr nc m s \<and>
     inside nr nc u \<and> vis nc s u \<and> \<not> vis nc m u \<and> u \<noteq> goal \<and>
     (\<forall>d. d \<notin> D \<longrightarrow> passage nr nc m u (move d u) \<longrightarrow> vis nc s (move d u)) \<and>
     (\<forall>p. inside nr nc p \<longrightarrow> vis nc s p \<longrightarrow> \<not> vis nc m p \<longrightarrow> p \<noteq> u \<longrightarrow>
        p \<noteq> goal \<and> (\<forall>q. passage nr nc m p q \<longrightarrow> vis nc s q))"

definition dfs_contract :: "int \<Rightarrow> int \<Rightarrow> pos \<Rightarrow> bool \<Rightarrow> nat \<Rightarrow> (dfs_state \<Rightarrow> int \<Rightarrow> int \<Rightarrow> (bool \<times> dfs_state) option) \<Rightarrow> bool" where
  "dfs_contract nr nc goal full n search \<longleftrightarrow> (\<forall>m f u. coords nr nc m \<longrightarrow> inside nr nc u \<longrightarrow> \<not> vis nc m u \<longrightarrow>
     card (unvisited_rooms nr nc m) \<le> n \<longrightarrow>
     (\<exists>found s f'. search (m, f) (fst u) (snd u) = Some (found, s, f') \<and> searched nr nc goal m u found s \<and> (full \<or> f' = f)))"

lemma passage_same_walls:
  "same_walls nr nc m s \<Longrightarrow> passage nr nc s p q \<longleftrightarrow> passage nr nc m p q"
  unfolding passage_def same_walls_def by metis

lemma passage_move: "passage nr nc s p q \<Longrightarrow> \<exists>d. q = move d p"
  by (auto simp: passage_def)

lemma same_walls_trans: "same_walls nr nc m s \<Longrightarrow> same_walls nr nc s t \<Longrightarrow> same_walls nr nc m t"
  by (simp add: same_walls_def)

lemma extends_vis: "extends nr nc m s \<Longrightarrow> inside nr nc p \<Longrightarrow> vis nc m p \<Longrightarrow> vis nc s p"
  unfolding extends_def by metis

lemma extends_room: "extends nr nc m s \<Longrightarrow> inside nr nc p \<Longrightarrow> vis nc m p \<Longrightarrow> room_at nc s p = room_at nc m p"
  unfolding extends_def by blast

lemma passage_inside: "passage nr nc s p q \<Longrightarrow> inside nr nc p \<and> inside nr nc q"
  by (simp add: passage_def)

lemma searchingD:
  assumes "searching nr nc goal m u D s"
  shows "d \<notin> D \<Longrightarrow> passage nr nc m u (move d u) \<Longrightarrow> vis nc s (move d u)"
    and "inside nr nc p \<Longrightarrow> vis nc s p \<Longrightarrow> \<not> vis nc m p \<Longrightarrow> p \<noteq> u \<Longrightarrow>
      p \<noteq> goal \<and> (\<forall>q. passage nr nc m p q \<longrightarrow> vis nc s q)"
  using assms by (simp_all add: searching_def)

text \<open>Setting the \<^verbatim>\<open>next\<close> pointer of the current room keeps the invariant.\<close>

lemma set_next:
  assumes "searching nr nc goal m u D s"
  shows "searching nr nc goal m u D (s[idx nc u := (room_at nc s u)\<lparr>next_room := nx\<rparr>])" (is "searching _ _ _ _ _ _ ?s")
    and "room_at nc (s[idx nc u := (room_at nc s u)\<lparr>next_room := nx\<rparr>]) u = (room_at nc s u)\<lparr>next_room := nx\<rparr>"
    and "inside nr nc p \<Longrightarrow> p \<noteq> u \<Longrightarrow> room_at nc (s[idx nc u := (room_at nc s u)\<lparr>next_room := nx\<rparr>]) p = room_at nc s p"
proof -
  have u: "inside nr nc u" "length s = nat (nr * nc)" "\<not> vis nc m u" using assms by (auto simp: searching_def coords_def)
  have ra: "room_at nc ?s p = (if p = u then (room_at nc s u)\<lparr>next_room := nx\<rparr> else room_at nc s p)" if "inside nr nc p" for p
    using room_at_update [OF u(1) that u(2)] by simp
  then show "room_at nc ?s u = (room_at nc s u)\<lparr>next_room := nx\<rparr>"
    "inside nr nc p \<Longrightarrow> p \<noteq> u \<Longrightarrow> room_at nc ?s p = room_at nc s p" using u(1) by simp_all
  have v: "vis nc ?s p = vis nc s p" if "inside nr nc p" for p using ra [OF that] by simp
  then have v1: "\<And>p. inside nr nc p \<Longrightarrow> vis nc s p \<Longrightarrow> vis nc ?s p" by simp
  have a: "coords nr nc s" "same_walls nr nc m s" "extends nr nc m s" using assms by (simp_all add: searching_def)
  have "(r (room_at nc ?s p), c (room_at nc ?s p)) = p" if "inside nr nc p" for p
  proof -
    have "r (room_at nc ?s p) = r (room_at nc s p)" "c (room_at nc ?s p) = c (room_at nc s p)"
      using ra [OF that] by simp_all
    moreover have "(r (room_at nc s p), c (room_at nc s p)) = p" using a(1) that unfolding coords_def by blast
    ultimately show ?thesis by (simp only:)
  qed
  then have "coords nr nc ?s" using u(2) by (simp add: coords_def)
  moreover have "same_walls nr nc m ?s" unfolding same_walls_def using a(2) ra u(1) by (simp add: same_walls_def)
  moreover have "extends nr nc m ?s" unfolding extends_def
  proof (intro allI impI)
    fix p assume p: "inside nr nc p" "vis nc m p"
    then show "room_at nc ?s p = room_at nc m p" using ra [OF p(1)] extends_room [OF a(3) p] u(3) by auto
  qed
  moreover have "vis nc ?s u" "u \<noteq> goal" using v [OF u(1)] assms by (simp_all add: searching_def)
  moreover have "\<forall>d. d \<notin> D \<longrightarrow> passage nr nc m u (move d u) \<longrightarrow> vis nc ?s (move d u)"
  proof (intro allI impI)
    fix d assume d: "d \<notin> D" "passage nr nc m u (move d u)"
    then show "vis nc ?s (move d u)" using v1 passage_inside [OF d(2)] searchingD(1) [OF assms] by simp
  qed
  moreover have "\<forall>p. inside nr nc p \<longrightarrow> vis nc ?s p \<longrightarrow> \<not> vis nc m p \<longrightarrow> p \<noteq> u \<longrightarrow>
        p \<noteq> goal \<and> (\<forall>q. passage nr nc m p q \<longrightarrow> vis nc ?s q)"
  proof (intro allI impI)
    fix p assume p: "inside nr nc p" "vis nc ?s p" "\<not> vis nc m p" "p \<noteq> u"
    have "vis nc s p" using v [OF p(1)] p(2) by simp
    note old = searchingD(2) [OF assms p(1) this p(3,4)]
    show "p \<noteq> goal \<and> (\<forall>q. passage nr nc m p q \<longrightarrow> vis nc ?s q)"
    proof (intro conjI allI impI)
      fix q assume "passage nr nc m p q"
      then show "vis nc ?s q" using old v1 [of q] passage_inside by simp
    qed (use old in simp)
  qed
  ultimately show "searching nr nc goal m u D ?s" using u unfolding searching_def by (intro conjI)
qed

text \<open>An unsuccessful recursive call through direction \<open>d\<close> settles that direction.\<close>

lemma searching_recurse:
  assumes w: "searching nr nc goal m u D s" and q: "inside nr nc (move d u)" "\<not> vis nc s (move d u)"
    and post: "searched nr nc goal s (move d u) False t"
  shows "searching nr nc goal m u (D - {d}) t"
proof -
  have a: "coords nr nc t" "same_walls nr nc s t" "extends nr nc s t" "vis nc t (move d u)"
    using post by (simp_all add: searched_def)
  have b: "same_walls nr nc m s" "extends nr nc m s" "inside nr nc u" "vis nc s u" "\<not> vis nc m u" "u \<noteq> goal"
    using w by (simp_all add: searching_def)
  have "extends nr nc m t" unfolding extends_def
    using extends_room [OF b(2)] extends_room [OF a(3)] extends_vis [OF b(2)] by simp
  moreover have "\<forall>d'. d' \<notin> D - {d} \<longrightarrow> passage nr nc m u (move d' u) \<longrightarrow> vis nc t (move d' u)"
  proof (intro allI impI)
    fix d' assume d': "d' \<notin> D - {d}" "passage nr nc m u (move d' u)"
    show "vis nc t (move d' u)"
    proof (cases "d' = d")
      case False
      then have "vis nc s (move d' u)" using w d' unfolding searching_def by blast
      then show ?thesis using extends_vis [OF a(3)] passage_inside [OF d'(2)] by blast
    qed (use a(4) in simp)
  qed
  moreover have "p \<noteq> goal \<and> (\<forall>q. passage nr nc m p q \<longrightarrow> vis nc t q)"
    if p: "inside nr nc p" "vis nc t p" "\<not> vis nc m p" "p \<noteq> u" for p
  proof (cases "vis nc s p")
    case True
    then have "p \<noteq> goal \<and> (\<forall>q. passage nr nc m p q \<longrightarrow> vis nc s q)" using w p unfolding searching_def by blast
    then show ?thesis using extends_vis [OF a(3)] passage_inside by blast
  next
    case False
    then have "p \<noteq> goal \<and> (\<forall>q. passage nr nc s p q \<longrightarrow> vis nc t q)"
      using post p unfolding searched_def by auto
    then show ?thesis using passage_same_walls [OF b(1)] by blast
  qed
  ultimately show ?thesis
    using a(1) same_walls_trans [OF b(1) a(2)] b extends_vis [OF a(3) b(3,4)] unfolding searching_def by blast
qed

text \<open>Skipping a direction that is walled, outside, or leads to a visited room.\<close>

lemma searching_skip:
  assumes "searching nr nc goal m u D s" and "passage nr nc m u (move d u) \<Longrightarrow> vis nc s (move d u)"
  shows "searching nr nc goal m u (D - {d}) s"
  using assms unfolding searching_def by blast

lemma searching_found:
  assumes w: "searching nr nc goal m u D s" and q: "passage nr nc m u (move d u)" "\<not> vis nc s (move d u)"
    and nx: "next_room (room_at nc s u) = Some (idx nc (move d u))"
    and post: "searched nr nc goal s (move d u) True t"
  shows "searched nr nc goal m u True t"
proof -
  have a: "coords nr nc t" "same_walls nr nc s t" "extends nr nc s t" using post by (simp_all add: searched_def)
  have b: "same_walls nr nc m s" "extends nr nc m s" "inside nr nc u" "vis nc s u" "\<not> vis nc m u" "u \<noteq> goal"
    using w by (simp_all add: searching_def)
  obtain ps where ps: "next_chain nr nc t goal (move d u # ps)" "distinct (move d u # ps)"
    "\<forall>p \<in> set (move d u # ps). \<not> vis nc s p" using post unfolding searched_def by auto
  have mt: "same_walls nr nc m t" by (rule same_walls_trans [OF b(1) a(2)])
  have u: "room_at nc t u = room_at nc s u" by (rule extends_room [OF a(3) b(3,4)])
  have chain: "next_chain nr nc t goal (u # move d u # ps)"
    using ps(1) b(6) nx u q(1) passage_same_walls [OF mt] by simp
  have "inside nr nc p" if "next_chain nr nc t goal qs" "p \<in> set qs" for p qs
    using that by (induction nr nc t goal qs rule: next_chain.induct) (auto dest: passage_inside)
  then have "\<forall>p \<in> set (u # move d u # ps). inside nr nc p" using chain by blast
  then have "\<forall>p \<in> set (u # move d u # ps). \<not> vis nc m p"
    using ps(3) b(5) extends_vis [OF b(2)] unfolding set_simps by blast
  moreover have "distinct (u # move d u # ps)" using ps(2,3) b(4) by auto
  moreover have "extends nr nc m t" unfolding extends_def
    using extends_room [OF b(2)] extends_room [OF a(3)] extends_vis [OF b(2)] by simp
  ultimately show ?thesis
    using a(1) mt chain extends_vis [OF a(3) b(3,4)] unfolding searched_def
    by (simp only: if_True simp_thms) (rule exI [of _ "move d u # ps"], simp)
qed


lemma dfs_loop_searched:
  assumes g: "grid nr nc" and con: "dfs_contract nr nc goal full n search"
    and n: "card (unvisited_rooms nr nc m) \<le> Suc n"
  shows "searching nr nc goal m u (set ds) s \<Longrightarrow>
    \<exists>found t f'. dfs_loop search full (fst u) (snd u) nr nc (idx nc u) ds (s, f) = Some (found, t, f')
      \<and> searched nr nc goal m u found t \<and> (full \<or> f' = f)"
proof (induction ds arbitrary: s f)
  case Nil
  then have "searched nr nc goal m u False s"
    unfolding searching_def searched_def using passage_move by (simp; blast)
  then show ?case by auto
next
  case (Cons d ds)
  let ?q = "move d u"
  let ?s = "s[idx nc u := (room_at nc s u)\<lparr>next_room := Some (idx nc ?q)\<rparr>]"
  note w = Cons.prems
  have u: "inside nr nc u" and len: "length s = nat (nr * nc)" and rc: "(r (room_at nc s u), c (room_at nc s u)) = u"
    and sw: "same_walls nr nc m s" and uv: "vis nc s u" "\<not> vis nc m u" and ex: "extends nr nc m s"
    using w by (auto simp: searching_def coords_def)
  have di: "direction_index (fst u) (snd u) d nr nc = inside nr nc ?q" by (simp add: direction_index_inside)
  have rest: "searching nr nc goal m u (set ds) s'" if "searching nr nc goal m u (set (d # ds) - {d}) s'" for s'
    using that unfolding searching_def by auto
  show ?case
  proof (cases "inside nr nc ?q")
    case False
    then have "\<not> passage nr nc m u ?q" by (simp add: passage_def)
    then have "searching nr nc goal m u (set ds) s" by (intro rest searching_skip [OF w]) simp
    then show ?thesis using Cons.IH [of s f] False di by simp
  next
    case q: True
    have gn: "get_neighbor s nr nc (idx nc u) d = Some (idx nc ?q)"
      using get_neighbor_inside [OF g len rd_room [OF u len], of d] rc u q by simp
    note sn = set_next [OF w, where nx = "Some (idx nc ?q)"]
    have len': "length ?s = nat (nr * nc)" using len by simp
    have rq: "rd ?s (idx nc ?q) = Some (room_at nc s ?q)" using rd_room [OF q len'] sn(3) [OF q] by simp
    have rcq: "r (room_at nc s ?q) = fst ?q" "c (room_at nc s ?q) = snd ?q"
      using w q by (auto simp: searching_def coords_def prod_eq_iff)
    have open_iff: "passage nr nc m u ?q \<longleftrightarrow> connections (room_at nc s u) d = 0"
      using passage_same_walls [OF sw, of u ?q] u q by (auto simp: passage_def move_inj)
    have step: "dfs_loop search full (fst u) (snd u) nr nc (idx nc u) (d # ds) (s, f) =
        (if connections (room_at nc s u) d = 0 \<and> \<not> vis nc s ?q then do {
           (found, m, file) \<leftarrow> search (?s, f) (fst ?q) (snd ?q);
           if found then Some (True, m, file)
           else dfs_loop search full (fst u) (snd u) nr nc (idx nc u) ds (m, if full then file @ [(fst u, snd u)] else file)
         } else dfs_loop search full (fst u) (snd u) nr nc (idx nc u) ds (?s, f))"
      using di q gn rd_room [OF u len] rq rcq by (simp add: Let_def)
    show ?thesis
    proof (cases "connections (room_at nc s u) d = 0 \<and> \<not> vis nc s ?q")
      case True
      have nv: "\<not> vis nc ?s ?q" using sn(3) [OF q] True by simp
      have exs: "extends nr nc m ?s" and uvs: "vis nc ?s u" using sn(1) by (simp_all add: searching_def)
      have "unvisited_rooms nr nc ?s \<subseteq> unvisited_rooms nr nc m - {u}"
        using extends_vis [of nr nc m ?s] exs uvs unfolding unvisited_rooms_def by blast
      moreover have "u \<in> unvisited_rooms nr nc m" using u uv by (simp add: unvisited_rooms_def)
      ultimately have cn: "card (unvisited_rooms nr nc ?s) \<le> n"
        using n card_mono [of "unvisited_rooms nr nc m - {u}" "unvisited_rooms nr nc ?s"] by simp
      have "coords nr nc ?s" using sn(1) by (simp add: searching_def)
      then obtain found t f' where call: "search (?s, f) (fst ?q) (snd ?q) = Some (found, t, f')"
        "searched nr nc goal ?s ?q found t" "full \<or> f' = f"
        using con [unfolded dfs_contract_def, rule_format, OF _ q nv cn, of f] by blast
      show ?thesis
      proof (cases found)
        case t: True
        have "searched nr nc goal m u True t"
          using searching_found [OF sn(1) _ nv] open_iff True sn(2) call(2) t by simp
        moreover have "dfs_loop search full (fst u) (snd u) nr nc (idx nc u) (d # ds) (s, f) = Some (True, t, f')"
          unfolding step using True call(1) t by simp
        ultimately show ?thesis using call(3) by blast
      next
        case f: False
        have "searching nr nc goal m u (set ds) t"
          using searching_recurse [OF sn(1) q nv] call(2) f by (intro rest) simp
        then show ?thesis unfolding step
          using True call(1,3) f Cons.IH [of t "if full then f' @ [(fst u, snd u)] else f'"] by auto
      qed
    next
      case False
      have "searching nr nc goal m u (set ds) ?s"
        using False open_iff sn(3) [OF q] by (intro rest searching_skip [OF sn(1)]) auto
      then show ?thesis unfolding step if_not_P [OF False] by (rule Cons.IH)
    qed
  qed
qed

lemma visited_next_commute:
  "(rm::maze_room)\<lparr>next_room := x, visited := y\<rparr> = rm\<lparr>visited := y, next_room := x\<rparr>"
  by simp

lemma mark_room:
  assumes "coords nr nc m" "inside nr nc u" "\<not> vis nc m u"
  shows "coords nr nc (m[idx nc u := (room_at nc m u)\<lparr>visited := 1, next_room := nx\<rparr>])" (is "coords nr nc ?m")
    and "same_walls nr nc m (m[idx nc u := (room_at nc m u)\<lparr>visited := 1, next_room := nx\<rparr>])"
    and "extends nr nc m (m[idx nc u := (room_at nc m u)\<lparr>visited := 1, next_room := nx\<rparr>])"
    and "inside nr nc p \<Longrightarrow> vis nc (m[idx nc u := (room_at nc m u)\<lparr>visited := 1, next_room := nx\<rparr>]) p \<longleftrightarrow> p = u \<or> vis nc m p"
proof -
  have len: "length m = nat (nr * nc)" using assms(1) by (simp add: coords_def)
  have ra: "room_at nc ?m p = (if p = u then (room_at nc m u)\<lparr>visited := 1, next_room := nx\<rparr> else room_at nc m p)"
    if "inside nr nc p" for p using room_at_update [OF assms(2) that len] by simp
  then have "r (room_at nc ?m p) = r (room_at nc m p)" "c (room_at nc ?m p) = c (room_at nc m p)"
    "connections (room_at nc ?m p) = connections (room_at nc m p)" if "inside nr nc p" for p
    using that by simp_all
  then show "coords nr nc ?m" "same_walls nr nc m ?m"
    using assms(1) unfolding coords_def same_walls_def by simp_all
  show "extends nr nc m ?m" using ra assms(3) by (auto simp: extends_def)
  show "inside nr nc p \<Longrightarrow> vis nc ?m p \<longleftrightarrow> p = u \<or> vis nc m p" using ra by simp
qed

lemma dfs_contract:
  assumes g: "grid nr nc"
  shows "dfs_contract nr nc goal full fuel (dfs fuel full (fst goal) (snd goal) nr nc)"
proof (induction fuel)
  case 0
  have "unvisited_rooms nr nc m \<noteq> {}" if "inside nr nc u" "\<not> vis nc m u" for m u
    using that unfolding unvisited_rooms_def by blast
  then show ?case by (simp add: dfs_contract_def)
next
  case (Suc n)
  show ?case unfolding dfs_contract_def
  proof (intro allI impI)
    fix m f u
    assume co: "coords nr nc m" and u: "inside nr nc u" and nv: "\<not> vis nc m u"
      and card: "card (unvisited_rooms nr nc m) \<le> Suc n"
    have len: "length m = nat (nr * nc)" using co by (simp add: coords_def)
    have ptr: "room_ptr m (get_index (fst u) (snd u) nc) = Some (idx nc u)"
      using room_ptr_inside [OF g _ len, of "fst u" "snd u"] u by simp
    show "\<exists>found s f'. dfs (Suc n) full (fst goal) (snd goal) nr nc (m, f) (fst u) (snd u) = Some (found, s, f')
        \<and> searched nr nc goal m u found s \<and> (full \<or> f' = f)"
    proof (cases "u = goal")
      case True
      let ?m = "m[idx nc u := (room_at nc m u)\<lparr>visited := 1, next_room := Some (idx nc u)\<rparr>]"
      note mk = mark_room [OF co u nv, where nx = "Some (idx nc u)"]
      have "searched nr nc goal m u True ?m"
        unfolding searched_def if_True using mk(1-3) mk(4) [OF u] u nv True by (intro conjI exI [of _ "[]"]) simp_all
      moreover have "dfs (Suc n) full (fst goal) (snd goal) nr nc (m, f) (fst u) (snd u) =
          Some (True, ?m, if full then f @ [(fst u, snd u)] else f)"
        using True ptr rd_room [OF u len] by (simp add: visited_next_commute)
      moreover have "full \<or> (if full then f @ [(fst u, snd u)] else f) = f" by simp
      ultimately show ?thesis by blast
    next
      case False
      let ?m = "m[idx nc u := (room_at nc m u)\<lparr>visited := 1\<rparr>]"
      note mk = mark_room [OF co u nv, where nx = "next_room (room_at nc m u)", simplified]
      have all: "d \<in> set [NORTH, SOUTH, WEST, EAST]" for d by (cases d) simp_all
      have "searching nr nc goal m u (set [NORTH, SOUTH, WEST, EAST]) ?m"
        unfolding searching_def
      proof (intro conjI allI impI)
        show "vis nc ?m u" using mk(4) [OF u] by simp
        fix p assume p: "inside nr nc p" "vis nc ?m p" "\<not> vis nc m p" "p \<noteq> u"
        then have False using mk(4) [OF p(1)] by simp
        then show "p \<noteq> goal" "vis nc ?m q" for q by simp_all
      next
        fix d assume "d \<notin> set [NORTH, SOUTH, WEST, EAST]"
        then show "vis nc ?m (move d u)" using all by blast
      qed (use mk(1-3) u nv False in simp_all)
      note loop = dfs_loop_searched [OF g Suc.IH card this, of "if full then f @ [(fst u, snd u)] else f"]
      have ne: "\<not> (fst u = fst goal \<and> snd u = snd goal)" using False by (simp add: prod_eq_iff)
      have "dfs (Suc n) full (fst goal) (snd goal) nr nc (m, f) (fst u) (snd u) =
          dfs_loop (dfs n full (fst goal) (snd goal) nr nc) full (fst u) (snd u) nr nc (idx nc u)
            [NORTH, SOUTH, WEST, EAST] (?m, if full then f @ [(fst u, snd u)] else f)"
        using ptr rd_room [OF u len] by (simp add: if_not_P [OF ne] Let_def del: dfs_loop.simps de_Morgan_conj)
      then show ?thesis using loop by (auto simp del: dfs.simps dfs_loop.simps)
    qed
  qed
qed


section \<open>The printed path\<close>

lemma chain_inside: "next_chain nr nc s goal ps \<Longrightarrow> p \<in> set ps \<Longrightarrow> inside nr nc p"
  by (induction nr nc s goal ps rule: next_chain.induct) (auto dest: passage_inside)

lemma coords_room:
  assumes "coords nr nc s" "inside nr nc p"
  shows "rd s (idx nc p) = Some (room_at nc s p)" "r (room_at nc s p) = fst p" "c (room_at nc s p) = snd p"
proof -
  have "(r (room_at nc s p), c (room_at nc s p)) = p" using assms unfolding coords_def by blast
  then show "r (room_at nc s p) = fst p" "c (room_at nc s p) = snd p" by (metis fst_conv snd_conv)+
  show "rd s (idx nc p) = Some (room_at nc s p)" using assms rd_room unfolding coords_def by blast
qed

lemma print_prunned_chain:
  assumes co: "coords nr nc s"
  shows "next_chain nr nc s goal ps \<Longrightarrow> length ps \<le> fuel \<Longrightarrow>
    print_prunned fuel s (idx nc (hd ps)) f (fst goal) (snd goal) = Some (f @ ps)"
proof (induction ps arbitrary: f fuel)
  case (Cons p ps)
  then obtain n where n: "fuel = Suc n" by (cases fuel) auto
  note room = coords_room [OF co chain_inside [OF Cons.prems(1), of p, simplified]]
  show ?case
  proof (cases ps)
    case Nil
    then show ?thesis using Cons.prems room n by simp
  next
    case (Cons q qs)
    then have "p \<noteq> goal" "next_room (room_at nc s p) = Some (idx nc q)" "next_chain nr nc s goal ps"
      using Cons.prems(1) by simp_all
    then show ?thesis using Cons.IH [of n "f @ [p]"] Cons.prems(2) Cons room n by (simp add: prod_eq_iff)
  qed
qed simp

lemma chain_length:
  assumes "next_chain nr nc s goal ps" "distinct ps" "0 \<le> nr" "0 \<le> nc"
  shows "length ps \<le> nat (nr * nc)"
proof -
  have "set ps \<subseteq> {p. inside nr nc p}" using chain_inside [OF assms(1)] by blast
  then have "card (set ps) \<le> nat (nr * nc)"
    using card_mono [OF finite_inside] card_inside [OF assms(3,4)] by metis
  then show ?thesis using distinct_card [OF assms(2)] by simp
qed

text \<open>A path through open sides, independent of the \<^verbatim>\<open>next\<close> pointers.\<close>

fun open_path :: "int \<Rightarrow> int \<Rightarrow> maze \<Rightarrow> pos list \<Rightarrow> bool" where
  "open_path nr nc s (p # q # ps) \<longleftrightarrow> passage nr nc s p q \<and> open_path nr nc s (q # ps)"
| "open_path nr nc s _ \<longleftrightarrow> True"

lemma chain_path:
  "next_chain nr nc s goal ps \<Longrightarrow> ps \<noteq> [] \<and> last ps = goal \<and> open_path nr nc s ps"
  by (induction nr nc s goal ps rule: next_chain.induct) auto

lemma open_path_same_walls: "same_walls nr nc m s \<Longrightarrow> open_path nr nc s ps \<longleftrightarrow> open_path nr nc m ps"
  by (induction nr nc s ps rule: open_path.induct) (auto simp: passage_same_walls)

lemma open_path_reaches:
  "open_path nr nc s (p # ps) \<Longrightarrow> (passage nr nc s)\<^sup>*\<^sup>* p (last (p # ps))"
proof (induction ps arbitrary: p)
  case (Cons q ps)
  have "(passage nr nc s)\<^sup>*\<^sup>* q (last (q # ps))" by (rule Cons.IH) (use Cons.prems in simp)
  moreover have "passage nr nc s p q" using Cons.prems by simp
  ultimately show ?case using converse_rtranclp_into_rtranclp [of "passage nr nc s" p q] by simp
qed simp

lemma passage_reach_inside:
  "(passage nr nc s)\<^sup>*\<^sup>* p q \<Longrightarrow> inside nr nc p \<Longrightarrow> inside nr nc q"
  by (induction rule: rtranclp_induct) (auto dest: passage_inside)

lemma dfs_from_unvisited:
  assumes g: "grid nr nc" and co: "coords nr nc m" and nv: "\<And>p. inside nr nc p \<Longrightarrow> \<not> vis nc m p"
    and u: "inside nr nc u" and fuel: "nat (nr * nc) \<le> fuel"
  shows "\<exists>found s f'. dfs fuel full (fst goal) (snd goal) nr nc (m, f) (fst u) (snd u) = Some (found, s, f')
    \<and> searched nr nc goal m u found s \<and> (full \<or> f' = f) \<and> (found \<longleftrightarrow> (passage nr nc m)\<^sup>*\<^sup>* u goal)"
proof -
  have "card (unvisited_rooms nr nc m) \<le> fuel"
    using card_unvisited_le [of nr nc m] g fuel by (simp add: grid_def)
  then obtain found s f' where res: "dfs fuel full (fst goal) (snd goal) nr nc (m, f) (fst u) (snd u) = Some (found, s, f')"
    "searched nr nc goal m u found s" "full \<or> f' = f"
    using dfs_contract [OF g, of goal full fuel, unfolded dfs_contract_def, rule_format, OF co u nv [OF u], of f] by blast
  have "(passage nr nc m)\<^sup>*\<^sup>* u goal" if found
  proof -
    have "\<exists>ps. next_chain nr nc s goal (u # ps)" and sw: "same_walls nr nc m s"
      using res(2) that by (auto simp: searched_def)
    then obtain ps where "next_chain nr nc s goal (u # ps)" by blast
    then have "last (u # ps) = goal" "open_path nr nc m (u # ps)"
      using chain_path open_path_same_walls [OF sw] by blast+
    then show ?thesis using open_path_reaches by metis
  qed
  moreover have False if "\<not> found" "(passage nr nc m)\<^sup>*\<^sup>* u goal"
  proof -
    have s: "vis nc s u" "\<And>p. inside nr nc p \<Longrightarrow> vis nc s p \<Longrightarrow> p \<noteq> goal \<and> (\<forall>q. passage nr nc m p q \<longrightarrow> vis nc s q)"
      using res(2) that(1) nv by (simp_all add: searched_def)
    have "inside nr nc p \<and> vis nc s p" if "(passage nr nc m)\<^sup>*\<^sup>* u p" for p
      using that by (induction rule: rtranclp_induct) (use s u passage_inside in blast)+
    then show False using that(2) s(2) by blast
  qed
  ultimately show ?thesis using res by blast
qed

lemma inside_1_1: "inside 1 1 p \<longleftrightarrow> p = (0, 0)"
  by (cases p) (auto simp: inside_def is_in_range_def)

section \<open>Properties\<close>

text \<open>
  The room encoding round-trips: decoding the number the generator writes for a room
  gives its four sides back, and encoding what the solver decodes gives the number back.
\<close>

theorem room_encoding_roundtrip:
  "((\<forall>d. connections rm d \<in> {0, 1}) \<longrightarrow>
      connections (create_room_connections rm' (nat (encode_room rm))) = connections rm)
   \<and> (h < 16 \<longrightarrow> encode_room (create_room_connections rm' h) = int h)"
  using create_encode [of rm rm'] encode_create [of h rm'] by blast

theorem room_encoding_roundtrip_witness:
  "encode_room (create_room_connections \<lparr>r = 0, c = 0, visited = 0, connections = (\<lambda>_. 0), next_room = None\<rparr> 11) = 11"
  using room_encoding_roundtrip [where h = 11 and rm' = "\<lparr>r = 0, c = 0, visited = 0, connections = (\<lambda>_. 0), next_room = None\<rparr>"]
  by simp

text \<open>
  C34. On a maze of unvisited rooms the depth-first search returns, and it reports a solution
  exactly when the goal can be reached from the start through open sides.
\<close>

theorem dfs_decides_reachability:
  assumes "grid nr nc" and "coords nr nc m" and "\<forall>p. inside nr nc p \<longrightarrow> visited (room_at nc m p) = 0"
    and "inside nr nc (row, col)" and "nat (nr * nc) \<le> fuel"
  shows "\<exists>found s f'. dfs fuel full goal_row goal_col nr nc (m, f) row col = Some (found, s, f')
    \<and> (found \<longleftrightarrow> (passage nr nc m)\<^sup>*\<^sup>* (row, col) (goal_row, goal_col))"
  using dfs_from_unvisited [of nr nc m "(row, col)" fuel full "(goal_row, goal_col)" f] assms by auto

theorem dfs_decides_reachability_witness:
  "\<exists>found s f'. dfs 1 False 0 0 1 1 ([\<lparr>r = 0, c = 0, visited = 0, connections = (\<lambda>_. 1), next_room = None\<rparr>], []) 0 0
      = Some (found, s, f') \<and> found"
proof -
  let ?m = "[\<lparr>r = 0, c = 0, visited = 0, connections = (\<lambda>_. 1), next_room = None\<rparr>]"
  have "coords 1 1 ?m" "\<forall>p. inside 1 1 p \<longrightarrow> visited (room_at 1 ?m p) = 0"
    by (simp_all add: inside_1_1 coords_def room_at_def idx_def)
  then show ?thesis
    using dfs_decides_reachability [of 1 1 ?m 0 0 1 False 0 0 "[]"]
    by (auto simp: grid_def inside_def is_in_range_def)
qed

text \<open>
  C35. When the search succeeds, following the \<^verbatim>\<open>next\<close> pointers prints a path that starts at the
  start room, ends at the goal, visits no room twice and goes through open sides only.
\<close>

theorem pruned_path_is_solution:
  assumes "grid nr nc" and "coords nr nc m" and "\<forall>p. inside nr nc p \<longrightarrow> visited (room_at nc m p) = 0"
    and "inside nr nc (row, col)" and "nat (nr * nc) \<le> fuel"
    and "dfs fuel full goal_row goal_col nr nc (m, f) row col = Some (True, s, f')"
  shows "\<exists>ps. print_prunned fuel s (idx nc (row, col)) out goal_row goal_col = Some (out @ ps)
    \<and> ps \<noteq> [] \<and> hd ps = (row, col) \<and> last ps = (goal_row, goal_col) \<and> distinct ps \<and> open_path nr nc m ps"
proof -
  let ?u = "(row, col)" and ?goal = "(goal_row, goal_col)"
  have "searched nr nc ?goal m ?u True s"
    using dfs_from_unvisited [of nr nc m ?u fuel full ?goal f] assms by auto
  then obtain ps where ps: "next_chain nr nc s ?goal (?u # ps)" "distinct (?u # ps)"
    and sw: "same_walls nr nc m s" and co: "coords nr nc s" by (auto simp: searched_def)
  have "length (?u # ps) \<le> fuel"
    using chain_length [OF ps] assms(1,5) by (simp add: grid_def)
  then have "print_prunned fuel s (idx nc ?u) out goal_row goal_col = Some (out @ ?u # ps)"
    using print_prunned_chain [OF co ps(1)] by simp
  then show ?thesis using chain_path [OF ps(1)] ps(2) open_path_same_walls [OF sw]
    by (intro exI [of _ "?u # ps"]) simp
qed

theorem pruned_path_is_solution_witness:
  "\<exists>s f' ps. dfs 1 False 0 0 1 1 ([\<lparr>r = 0, c = 0, visited = 0, connections = (\<lambda>_. 1), next_room = None\<rparr>], []) 0 0
      = Some (True, s, f') \<and> print_prunned 1 s 0 [] 0 0 = Some ps \<and> hd ps = (0, 0)"
proof -
  let ?m = "[\<lparr>r = 0, c = 0, visited = 0, connections = (\<lambda>_. 1), next_room = None\<rparr>]"
  let ?s = "[\<lparr>r = 0, c = 0, visited = 1, connections = (\<lambda>_. 1), next_room = Some 0\<rparr>]"
  have "coords 1 1 ?m" "\<forall>p. inside 1 1 p \<longrightarrow> visited (room_at 1 ?m p) = 0"
    by (simp_all add: inside_1_1 coords_def room_at_def idx_def)
  moreover have "dfs 1 False 0 0 1 1 (?m, []) 0 0 = Some (True, ?s, [])"
    by (simp add: room_ptr_def get_index_def rd_def Let_def)
  ultimately show ?thesis
    using pruned_path_is_solution [of 1 1 ?m 0 0 1 False 0 0 "[]" ?s "[]" "[]"]
    by (auto simp: grid_def inside_def is_in_range_def idx_def)
qed



end
