(* ===== verification/MemLib.thy ===== *)
theory MemLib
  imports Prelude
begin

text \<open>
  The simulated memory system of the allocator, \<^verbatim>\<open>src/malloc/memlib.c\<close>, and the memory the
  allocator reads and writes. Addresses are natural numbers and \<^verbatim>\<open>NULL\<close> is 0; the storage is
  read and written in aligned 8-byte words of type \<^verbatim>\<open>size_t\<close>, whose contents are natural numbers
  below 2 to the 64. An access outside the storage obtained by \<open>mem_init\<close>, or at an unaligned
  address, has no result.
\<close>

abbreviation MAX_HEAP :: nat where "MAX_HEAP \<equiv> 20971520"

record heap =
  mem :: "nat \<Rightarrow> nat"
  mem_start_brk :: nat
  mem_brk :: nat
  mem_max_addr :: nat
  flist_first :: nat
  prologue :: nat
  epilogue :: nat

definition u64 :: "nat \<Rightarrow> nat" where
  "u64 n = n mod 2 ^ 64"

text \<open>Subtraction of \<^verbatim>\<open>size_t\<close> values and conversion of one to \<^verbatim>\<open>int\<close>.\<close>

definition sub64 :: "nat \<Rightarrow> nat \<Rightarrow> nat" where
  "sub64 a b = u64 (a + (2 ^ 64 - b))"

definition to_int :: "nat \<Rightarrow> int" where
  "to_int n = (let k = int (n mod 2 ^ 32) in if k < 2 ^ 31 then k else k - 2 ^ 32)"

definition in_store :: "heap \<Rightarrow> nat \<Rightarrow> bool" where
  "in_store s a \<longleftrightarrow> 8 dvd a \<and> mem_start_brk s \<le> a \<and> a + 8 \<le> mem_max_addr s"

definition load :: "heap \<Rightarrow> nat \<Rightarrow> nat option" where
  "load s a = (if in_store s a then Some (mem s a) else None)"

definition store :: "heap \<Rightarrow> nat \<Rightarrow> nat \<Rightarrow> heap option" where
  "store s a v = (if in_store s a then Some (s\<lparr>mem := (mem s)(a := u64 v)\<rparr>) else None)"

text \<open>
  Bytes, in the little-endian order of the target: byte \<open>a mod 8\<close> of the word at \<open>a - a mod 8\<close>.
\<close>

definition get_byte :: "nat \<Rightarrow> nat \<Rightarrow> nat" where
  "get_byte k v = take_bit 8 (drop_bit (8 * k) v)"

definition set_byte :: "nat \<Rightarrow> nat \<Rightarrow> nat \<Rightarrow> nat" where
  "set_byte k b v = or (take_bit (8 * k) v) (or (push_bit (8 * k) (take_bit 8 b)) (push_bit (8 * Suc k) (drop_bit (8 * Suc k) v)))"

definition byte :: "heap \<Rightarrow> nat \<Rightarrow> nat" where
  "byte s a = get_byte (a mod 8) (mem s (a - a mod 8))"

definition load_byte :: "heap \<Rightarrow> nat \<Rightarrow> nat option" where
  "load_byte s a = map_option (get_byte (a mod 8)) (load s (a - a mod 8))"

definition store_byte :: "nat \<Rightarrow> nat \<Rightarrow> heap \<Rightarrow> heap option" where
  "store_byte a b s = do { v \<leftarrow> load s (a - a mod 8); store s (a - a mod 8) (set_byte (a mod 8) b v) }"

section \<open>Operations\<close>

text \<open>\<open>start\<close> is what \<^verbatim>\<open>malloc(MAX_HEAP)\<close> returned; on \<^verbatim>\<open>NULL\<close> the program exits.\<close>

definition mem_init :: "nat \<Rightarrow> heap \<Rightarrow> heap option" where
  "mem_init start s =
     (if start = 0 then None
      else Some (s\<lparr>mem_start_brk := start, mem_max_addr := start + MAX_HEAP, mem_brk := start\<rparr>))"

definition mem_reset_brk :: "heap \<Rightarrow> heap" where
  "mem_reset_brk s = s\<lparr>mem_brk := mem_start_brk s\<rparr>"

text \<open>\<^verbatim>\<open>mem_sbrk\<close>: \<^const>\<open>None\<close> is the error value \<^verbatim>\<open>(void *) -1\<close>.\<close>

definition mem_sbrk :: "int \<Rightarrow> heap \<Rightarrow> nat option \<times> heap" where
  "mem_sbrk incr s =
     (if incr < 0 \<or> int (mem_brk s) + incr > int (mem_max_addr s) then (None, s)
      else (Some (mem_brk s), s\<lparr>mem_brk := nat (int (mem_brk s) + incr)\<rparr>))"

definition mem_heap_lo :: "heap \<Rightarrow> nat" where
  "mem_heap_lo s = mem_start_brk s"

definition mem_heap_hi :: "heap \<Rightarrow> nat" where
  "mem_heap_hi s = mem_brk s - 1"

definition mem_heapsize :: "heap \<Rightarrow> nat" where
  "mem_heapsize s = mem_brk s - mem_start_brk s"

section \<open>Basic laws\<close>

lemma u64_id [simp]: "n < 2 ^ 64 \<Longrightarrow> u64 n = n"
  by (simp add: u64_def)

lemma sub64_ge: "b \<le> a \<Longrightarrow> a < 2 ^ 64 \<Longrightarrow> sub64 a b = a - b"
proof -
  assume "b \<le> a" "a < 2 ^ 64"
  then have "a + (2 ^ 64 - b) = (a - b) + 2 ^ 64" by simp
  then have "sub64 a b = (a - b) mod 2 ^ 64" unfolding sub64_def u64_def by (simp only: mod_add_self2)
  then show ?thesis using \<open>a < 2 ^ 64\<close> by simp
qed

lemma to_int_small: "n < 2 ^ 31 \<Longrightarrow> to_int n = int n"
  by (simp add: to_int_def Let_def)

text \<open>The difference of two sizes below 2 to the 31, read as \<^verbatim>\<open>int\<close>, is exact.\<close>

lemma to_int_sub64:
  assumes "a < 2 ^ 31" "b < 2 ^ 31"
  shows "to_int (sub64 a b) = int a - int b"
proof (cases "b \<le> a")
  case True
  then show ?thesis using assms by (simp add: sub64_ge to_int_small)
next
  case False
  let ?d = "b - a"
  have "a + (2 ^ 64 - b) = 2 ^ 64 - ?d" using False assms by simp
  then have "sub64 a b = 2 ^ 64 - ?d" using False by (simp add: sub64_def u64_def)
  also have "2 ^ 64 - ?d = (2 ^ 32 - ?d) + (2 ^ 32 - 1) * 2 ^ 32" using assms by simp
  finally have "sub64 a b mod 2 ^ 32 = (2 ^ 32 - ?d) mod 2 ^ 32" by (simp only: mod_mult_self1)
  then have "sub64 a b mod 2 ^ 32 = 2 ^ 32 - ?d" using False by simp
  then show ?thesis using False assms by (simp add: to_int_def Let_def of_nat_diff)
qed

lemma load_Some: "in_store s a \<Longrightarrow> load s a = Some (mem s a)"
  by (simp add: load_def)

lemma store_Some: "in_store s a \<Longrightarrow> v < 2 ^ 64 \<Longrightarrow> store s a v = Some (s\<lparr>mem := (mem s)(a := v)\<rparr>)"
  by (simp add: store_def)

lemma in_store_mem [simp]: "in_store (s\<lparr>mem := f\<rparr>) a \<longleftrightarrow> in_store s a"
  "in_store (s\<lparr>flist_first := x\<rparr>) a \<longleftrightarrow> in_store s a"
  "in_store (s\<lparr>prologue := x\<rparr>) a \<longleftrightarrow> in_store s a"
  "in_store (s\<lparr>epilogue := x\<rparr>) a \<longleftrightarrow> in_store s a"
  "in_store (s\<lparr>mem_brk := x\<rparr>) a \<longleftrightarrow> in_store s a"
  by (simp_all add: in_store_def)

lemma get_set_byte:
  assumes j: "j < 8"
  shows "get_byte j (u64 (set_byte k b v)) = (if j = k then take_bit 8 b else get_byte j v)"
proof (rule bit_eqI)
  fix i
  have u: "u64 w = take_bit 64 w" for w by (simp add: u64_def take_bit_eq_mod)
  show "bit (get_byte j (u64 (set_byte k b v))) i = bit (if j = k then take_bit 8 b else get_byte j v) i"
  proof (cases "j < k")
    case True
    then have "8 * j + 8 \<le> 8 * k" by simp
    then show ?thesis using j True unfolding u by (auto simp: get_byte_def set_byte_def bit_simps)
  next
    case False
    then have "k < j \<Longrightarrow> 8 + 8 * k \<le> 8 * j" by simp
    then show ?thesis using j False unfolding u
      by (cases "j = k") (auto simp: get_byte_def set_byte_def bit_simps)
  qed
qed

lemma load_byte_eq: "in_store s (a - a mod 8) \<Longrightarrow> load_byte s a = Some (byte s a)"
  by (simp add: load_byte_def byte_def load_def)

lemma store_byte_eq:
  assumes "in_store s (a - a mod 8)"
  shows "store_byte a b s = Some (s\<lparr>mem := (mem s)(a - a mod 8 := u64 (set_byte (a mod 8) b (mem s (a - a mod 8))))\<rparr>)"
  using assms by (simp add: store_byte_def load_def store_def)

end
