(* ===== verification/Mm.thy ===== *)
theory Mm
  imports MemLib
begin

text \<open>
  The allocator, \<^verbatim>\<open>src/malloc/mminline.h\<close> and \<^verbatim>\<open>src/malloc/mm.c\<close>. A \<^verbatim>\<open>block_t *\<close> is the
  address of the block's header word; the size word, the end tag and the two free-list
  pointers in the payload are words of the store. Every function takes the heap state last
  and returns the new state; \<^const>\<open>None\<close> is a failed \<^verbatim>\<open>assert\<close> or an access outside the store.
\<close>

abbreviation WORD_SIZE :: nat where "WORD_SIZE \<equiv> 8"
abbreviation ALIGNMENT :: nat where "ALIGNMENT \<equiv> 8"
abbreviation TAGS_SIZE :: nat where "TAGS_SIZE \<equiv> 16"
abbreviation MINBLOCKSIZE :: nat where "MINBLOCKSIZE \<equiv> 32"

section \<open>Blocks: \<^verbatim>\<open>mminline.h\<close>\<close>

text \<open>\<^verbatim>\<open>x & -2\<close>, \<^verbatim>\<open>x & 1\<close> and \<^verbatim>\<open>x | 1\<close> on a size word.\<close>

definition and_m2 :: "nat \<Rightarrow> nat" where "and_m2 x = x - x mod 2"
definition and_1 :: "nat \<Rightarrow> nat" where "and_1 x = x mod 2"
definition or_1 :: "nat \<Rightarrow> nat" where "or_1 x = (if x mod 2 = 1 then x else x + 1)"

definition block_end_tag :: "nat \<Rightarrow> heap \<Rightarrow> nat option" where
  "block_end_tag b s = do {
     sz \<leftarrow> load s b;
     if sz \<ge> WORD_SIZE * 2 then Some (b + WORD_SIZE + WORD_SIZE * (sz div WORD_SIZE - 2)) else None
   }"

definition block_allocated :: "nat \<Rightarrow> heap \<Rightarrow> nat option" where
  "block_allocated b s = map_option and_1 (load s b)"

definition block_end_allocated :: "nat \<Rightarrow> heap \<Rightarrow> nat option" where
  "block_end_allocated b s = do { t \<leftarrow> block_end_tag b s; map_option and_1 (load s t) }"

definition block_size :: "nat \<Rightarrow> heap \<Rightarrow> nat option" where
  "block_size b s = map_option and_m2 (load s b)"

definition block_end_size :: "nat \<Rightarrow> heap \<Rightarrow> nat option" where
  "block_end_size b s = do { t \<leftarrow> block_end_tag b s; map_option and_m2 (load s t) }"

definition block_set_size :: "nat \<Rightarrow> nat \<Rightarrow> heap \<Rightarrow> heap option" where
  "block_set_size b sz s =
     (if sz mod ALIGNMENT = 0 then do {
        a \<leftarrow> block_allocated b s;
        let sz = sz + a;
        s \<leftarrow> store s b sz;
        t \<leftarrow> block_end_tag b s;
        store s t sz
      } else None)"

definition block_set_allocated :: "nat \<Rightarrow> bool \<Rightarrow> heap \<Rightarrow> heap option" where
  "block_set_allocated b allocated s =
     (let f = (if allocated then or_1 else and_m2) in do {
        v \<leftarrow> load s b;
        s \<leftarrow> store s b (f v);
        t \<leftarrow> block_end_tag b s;
        w \<leftarrow> load s t;
        store s t (f w)
      })"

definition block_set_size_and_allocated :: "nat \<Rightarrow> nat \<Rightarrow> bool \<Rightarrow> heap \<Rightarrow> heap option" where
  "block_set_size_and_allocated b sz allocated s = do {
     s \<leftarrow> block_set_size b sz s;
     block_set_allocated b allocated s
   }"

definition block_prev_allocated :: "nat \<Rightarrow> heap \<Rightarrow> nat option" where
  "block_prev_allocated b s = (if b < WORD_SIZE then None else map_option and_1 (load s (b - WORD_SIZE)))"

definition block_prev_size :: "nat \<Rightarrow> heap \<Rightarrow> nat option" where
  "block_prev_size b s = (if b < WORD_SIZE then None else map_option and_m2 (load s (b - WORD_SIZE)))"

definition block_prev :: "nat \<Rightarrow> heap \<Rightarrow> nat option" where
  "block_prev b s = do {
     n \<leftarrow> block_prev_size b s;
     if n \<le> b then Some (b - n) else None
   }"

definition block_next :: "nat \<Rightarrow> heap \<Rightarrow> nat option" where
  "block_next b s = do { n \<leftarrow> block_size b s; Some (b + n) }"

definition block_next_allocated :: "nat \<Rightarrow> heap \<Rightarrow> nat option" where
  "block_next_allocated b s = do { n \<leftarrow> block_next b s; block_allocated n s }"

definition block_next_size :: "nat \<Rightarrow> heap \<Rightarrow> nat option" where
  "block_next_size b s = do { n \<leftarrow> block_next b s; block_size n s }"

definition payload_to_block :: "nat \<Rightarrow> nat option" where
  "payload_to_block payload = (if payload < WORD_SIZE then None else Some (payload - WORD_SIZE))"

text \<open>An \<^verbatim>\<open>assert(!block_allocated(b))\<close>.\<close>

definition assert_free :: "nat \<Rightarrow> heap \<Rightarrow> unit option" where
  "assert_free b s = do { a \<leftarrow> block_allocated b s; if a = 0 then Some () else None }"

definition block_next_free :: "nat \<Rightarrow> heap \<Rightarrow> nat option" where
  "block_next_free b s = do { assert_free b s; load s (b + WORD_SIZE) }"

definition block_set_next_free :: "nat \<Rightarrow> nat \<Rightarrow> heap \<Rightarrow> heap option" where
  "block_set_next_free b nx s = do {
     assert_free b s;
     assert_free nx s;
     store s (b + WORD_SIZE) nx
   }"

definition block_prev_free :: "nat \<Rightarrow> heap \<Rightarrow> nat option" where
  "block_prev_free b s = do { assert_free b s; load s (b + WORD_SIZE * 2) }"

definition block_set_prev_free :: "nat \<Rightarrow> nat \<Rightarrow> heap \<Rightarrow> heap option" where
  "block_set_prev_free b pv s = do {
     assert_free b s;
     assert_free pv s;
     store s (b + WORD_SIZE * 2) pv
   }"

definition pull_free_block :: "nat \<Rightarrow> heap \<Rightarrow> heap option" where
  "pull_free_block fb s = do {
     assert_free fb s;
     first \<leftarrow> (if flist_first s = fb then block_next_free fb s else Some (flist_first s));
     if flist_first s = fb \<and> first = fb then Some (s\<lparr>flist_first := 0\<rparr>)
     else do {
       let s = s\<lparr>flist_first := first\<rparr>;
       p \<leftarrow> block_prev_free fb s;
       n \<leftarrow> block_next_free fb s;
       s \<leftarrow> block_set_next_free p n s;
       n \<leftarrow> block_next_free fb s;
       p \<leftarrow> block_prev_free fb s;
       block_set_prev_free n p s
     }
   }"

definition insert_free_block :: "nat \<Rightarrow> heap \<Rightarrow> heap option" where
  "insert_free_block fb s = do {
     assert_free fb s;
     s \<leftarrow> (if flist_first s \<noteq> 0 then do {
         last \<leftarrow> block_prev_free (flist_first s) s;
         s \<leftarrow> block_set_next_free fb (flist_first s) s;
         s \<leftarrow> block_set_prev_free fb last s;
         s \<leftarrow> block_set_next_free last fb s;
         block_set_prev_free (flist_first s) fb s
       } else do {
         s \<leftarrow> block_set_next_free fb fb s;
         block_set_prev_free fb fb s
       });
     Some (s\<lparr>flist_first := fb\<rparr>)
   }"

section \<open>The allocator: \<^verbatim>\<open>mm.c\<close>\<close>

definition align :: "nat \<Rightarrow> nat" where
  "align sz = u64 (sz + (WORD_SIZE - 1)) div WORD_SIZE * WORD_SIZE"

text \<open>\<^verbatim>\<open>mm_init\<close> returns 0 or -1.\<close>

definition mm_init :: "heap \<Rightarrow> (int \<times> heap) option" where
  "mm_init s = (let s = s\<lparr>flist_first := 0\<rparr> in
     case mem_sbrk (int MINBLOCKSIZE) s of
       (None, s) \<Rightarrow> Some (- 1, s)
     | (Some p, s) \<Rightarrow> do {
         let s = s\<lparr>prologue := p\<rparr>;
         s \<leftarrow> block_set_size_and_allocated p MINBLOCKSIZE True s;
         case mem_sbrk (int MINBLOCKSIZE) s of
           (None, s) \<Rightarrow> Some (- 1, s)
         | (Some free_spot, s) \<Rightarrow> do {
             s \<leftarrow> block_set_size_and_allocated free_spot MINBLOCKSIZE False s;
             s \<leftarrow> insert_free_block free_spot s;
             case mem_sbrk (int MINBLOCKSIZE) s of
               (None, s) \<Rightarrow> Some (- 1, s)
             | (Some e, s) \<Rightarrow> do {
                 let s = s\<lparr>epilogue := e\<rparr>;
                 s \<leftarrow> block_set_size_and_allocated e MINBLOCKSIZE True s;
                 Some (0, s)
               }
           }
       })"

text \<open>
  The loops over the free list only read memory, so a loop that comes back to its start does
  so within as many steps as the store has words; \<open>list_fuel\<close> is that number.
\<close>

definition list_fuel :: "heap \<Rightarrow> nat" where
  "list_fuel s = Suc ((mem_max_addr s - mem_start_brk s) div WORD_SIZE)"

primrec coalesce_loop :: "nat \<Rightarrow> nat \<Rightarrow> nat \<Rightarrow> heap \<Rightarrow> bool option" where
  "coalesce_loop 0 block ptr s = None"
| "coalesce_loop (Suc fuel) block ptr s =
     (if flist_first s \<noteq> block then
        if block = ptr then Some True
        else do { nx \<leftarrow> block_next_free block s; coalesce_loop fuel nx ptr s }
      else Some False)"

definition coalesce_helper :: "nat \<Rightarrow> heap \<Rightarrow> bool option" where
  "coalesce_helper ptr s =
     (if flist_first s = ptr then Some True
      else do { nx \<leftarrow> block_next_free (flist_first s) s; coalesce_loop (list_fuel s) nx ptr s })"

definition coalesce :: "nat \<Rightarrow> heap \<Rightarrow> (nat \<times> heap) option" where
  "coalesce ptr s = do {
     is_free \<leftarrow> coalesce_helper ptr s;
     if \<not> is_free then Some (0, s)
     else do {
       prev \<leftarrow> block_prev ptr s;
       nx \<leftarrow> block_next ptr s;
       csize \<leftarrow> block_size ptr s;
       pa \<leftarrow> block_allocated prev s;
       na \<leftarrow> block_allocated nx s;
       if pa = 0 \<and> na \<noteq> 0 then do {
         s \<leftarrow> pull_free_block ptr s;
         psize \<leftarrow> block_size prev s;
         s \<leftarrow> block_set_size_and_allocated prev (u64 (csize + psize)) False s;
         Some (prev, s)
       } else if pa \<noteq> 0 \<and> na = 0 then do {
         s \<leftarrow> pull_free_block nx s;
         nsize \<leftarrow> block_size nx s;
         s \<leftarrow> block_set_size_and_allocated ptr (u64 (csize + nsize)) False s;
         Some (ptr, s)
       } else if pa = 0 \<and> na = 0 then do {
         s \<leftarrow> pull_free_block ptr s;
         s \<leftarrow> pull_free_block nx s;
         psize \<leftarrow> block_size prev s;
         nsize \<leftarrow> block_size nx s;
         s \<leftarrow> block_set_size_and_allocated prev (u64 (csize + psize + nsize)) False s;
         Some (prev, s)
       } else Some (ptr, s)
     }
   }"

definition split_block :: "nat \<Rightarrow> nat \<Rightarrow> heap \<Rightarrow> (nat \<times> heap) option" where
  "split_block ptr nsize s = do {
     csize \<leftarrow> block_size ptr s;
     let diff = sub64 csize nsize;
     if diff \<ge> u64 (2 * nsize) \<and> diff \<ge> MINBLOCKSIZE then do {
       s \<leftarrow> block_set_size_and_allocated ptr nsize True s;
       nx \<leftarrow> block_next ptr s;
       s \<leftarrow> block_set_size_and_allocated nx diff False s;
       nx \<leftarrow> block_next ptr s;
       s \<leftarrow> insert_free_block nx s;
       Some (ptr, s)
     } else Some (ptr, s)
   }"

definition extend_heap :: "nat \<Rightarrow> heap \<Rightarrow> (nat \<times> heap) option" where
  "extend_heap nsize s = (case mem_sbrk (to_int nsize) s of
       (None, s) \<Rightarrow> Some (0, s)
     | (Some _, s) \<Rightarrow> do {
         s \<leftarrow> block_set_size_and_allocated (epilogue s) nsize True s;
         new_epilogue \<leftarrow> block_next (epilogue s) s;
         s \<leftarrow> block_set_size_and_allocated new_epilogue MINBLOCKSIZE True s;
         (ptr, s) \<leftarrow> split_block (epilogue s) nsize s;
         let s = s\<lparr>epilogue := new_epilogue\<rparr>;
         Some (ptr + WORD_SIZE, s)
       })"

function smallest :: "nat \<Rightarrow> nat \<Rightarrow> nat \<Rightarrow> nat" where
  "smallest nsize csize diff = (if diff div 2 > nsize then smallest nsize csize (diff div 2) else diff)"
  by auto
termination by (relation "measure (\<lambda>(nsize, csize, diff). diff)") auto

declare smallest.simps [simp del]

text \<open>The \<^verbatim>\<open>do\<close>-\<^verbatim>\<open>while\<close> loop of \<^verbatim>\<open>mm_malloc\<close>; the result is \<^verbatim>\<open>best\<close>, 0 for \<^verbatim>\<open>NULL\<close>.\<close>

primrec best_fit :: "nat \<Rightarrow> nat \<Rightarrow> nat \<Rightarrow> nat \<Rightarrow> nat \<Rightarrow> heap \<Rightarrow> nat option" where
  "best_fit 0 nsize current mn best s = None"
| "best_fit (Suc fuel) nsize current mn best s = do {
     csize \<leftarrow> block_size current s;
     let d = to_int (sub64 csize nsize);
     let diff = smallest csize nsize (nat d);
     let (mn, best) = (if d \<ge> 0 \<and> diff < mn then (diff, current) else (mn, best));
     current \<leftarrow> block_next_free current s;
     if current \<noteq> flist_first s then best_fit fuel nsize current mn best s else Some best
   }"

abbreviation UINT_MAX :: nat where "UINT_MAX \<equiv> 4294967295"

text \<open>The block size that \<^verbatim>\<open>mm_malloc\<close> and \<^verbatim>\<open>mm_realloc\<close> compute for a request.\<close>

definition request_size :: "nat \<Rightarrow> nat" where
  "request_size sz = max (u64 (align sz + TAGS_SIZE)) MINBLOCKSIZE"

definition mm_malloc :: "nat \<Rightarrow> heap \<Rightarrow> (nat \<times> heap) option" where
  "mm_malloc sz s =
     (if sz = 0 then Some (0, s)
      else let nsize = request_size sz in
        if flist_first s = 0 then extend_heap nsize s
        else do {
          best \<leftarrow> best_fit (list_fuel s) nsize (flist_first s) UINT_MAX 0 s;
          if best = 0 then extend_heap nsize s
          else do {
            s \<leftarrow> pull_free_block best s;
            bsize \<leftarrow> block_size best s;
            s \<leftarrow> block_set_size_and_allocated best bsize True s;
            (best, s) \<leftarrow> split_block best nsize s;
            Some (best + WORD_SIZE, s)
          }
        })"

definition mm_free :: "nat \<Rightarrow> heap \<Rightarrow> heap option" where
  "mm_free ptr s =
     (if ptr = 0 then Some s
      else do {
        block \<leftarrow> payload_to_block ptr;
        bsize \<leftarrow> block_size block s;
        s \<leftarrow> block_set_size_and_allocated block bsize False s;
        s \<leftarrow> insert_free_block block s;
        (_, s) \<leftarrow> coalesce block s;
        Some s
      })"

text \<open>\<^verbatim>\<open>memmove\<close> of whole words: the source is read before the destination is written.\<close>

definition memmove :: "nat \<Rightarrow> nat \<Rightarrow> nat \<Rightarrow> heap \<Rightarrow> heap option" where
  "memmove dst src n s = do {
     ws \<leftarrow> those (map (\<lambda>i. load s (src + WORD_SIZE * i)) [0..<n div WORD_SIZE]);
     foldM (\<lambda>(i, w) s. store s (dst + WORD_SIZE * i) w) (zip [0..<n div WORD_SIZE] ws) s
   }"

text \<open>\<^verbatim>\<open>mm_realloc\<close> as it is written, with the payload pointer where it says \<^verbatim>\<open>ptr\<close>.\<close>

definition mm_realloc :: "nat \<Rightarrow> nat \<Rightarrow> heap \<Rightarrow> (nat \<times> heap) option" where
  "mm_realloc ptr sz s =
     (if sz = 0 then do { s \<leftarrow> mm_free ptr s; Some (0, s) }
      else if ptr = 0 then mm_malloc sz s
      else do {
        block \<leftarrow> payload_to_block ptr;
        let nsize = request_size sz;
        csize \<leftarrow> block_size block s;
        if nsize = csize then Some (ptr, s)
        else if nsize < csize then Some (ptr, s)
        else do {
          next_size \<leftarrow> block_next_size ptr s;
          if u64 (csize + next_size) \<ge> nsize then do {
            nx \<leftarrow> block_next ptr s;
            s \<leftarrow> pull_free_block nx s;
            nxsize \<leftarrow> block_size nx s;
            s \<leftarrow> block_set_size_and_allocated ptr (u64 (csize + nxsize)) True s;
            (_, s) \<leftarrow> split_block ptr nsize s;
            Some (ptr, s)
          } else do {
            (nptr, s) \<leftarrow> mm_malloc sz s;
            if nptr = 0 then Some (0, s)
            else do {
              s \<leftarrow> memmove nptr ptr csize s;
              s \<leftarrow> mm_free ptr s;
              Some (nptr, s)
            }
          }
        }
      })"

text \<open>\<^verbatim>\<open>mm_check_heap\<close>: the walk over all blocks (which prints them), then over the free list.\<close>

primrec check_blocks :: "nat \<Rightarrow> nat \<Rightarrow> heap \<Rightarrow> (nat \<times> nat \<times> nat) list option" where
  "check_blocks 0 current s = None"
| "check_blocks (Suc fuel) current s =
     (if current \<noteq> epilogue s then do {
        a \<leftarrow> block_allocated current s;
        n \<leftarrow> block_size current s;
        nx \<leftarrow> block_next current s;
        _ \<leftarrow> block_size nx s;
        out \<leftarrow> check_blocks fuel nx s;
        Some ((current, n, a) # out)
      } else Some [])"

primrec check_free :: "nat \<Rightarrow> nat \<Rightarrow> heap \<Rightarrow> int option" where
  "check_free 0 ncurr s = None"
| "check_free (Suc fuel) ncurr s =
     (if ncurr \<noteq> flist_first s then do {
        a \<leftarrow> block_allocated ncurr s;
        if a \<noteq> 0 then Some (- 1)
        else do { nx \<leftarrow> block_next_free ncurr s; check_free fuel nx s }
      } else Some 0)"

definition mm_check_heap :: "heap \<Rightarrow> (int \<times> (nat \<times> nat \<times> nat) list) option" where
  "mm_check_heap s = do {
     current \<leftarrow> block_next (prologue s) s;
     out \<leftarrow> check_blocks (list_fuel s) current s;
     a \<leftarrow> block_allocated (flist_first s) s;
     if a \<noteq> 0 then Some (- 1, out)
     else do {
       ncurr \<leftarrow> block_next_free (flist_first s) s;
       res \<leftarrow> check_free (list_fuel s) ncurr s;
       Some (res, out)
     }
   }"

end
