(* ===== verification/MmInv.thy ===== *)
theory MmInv
  imports Mm
begin

text \<open>
  The heap invariant of the allocator and the laws of the block and free-list operations
  under it. The heap is a sequence of blocks \<open>bs\<close>, each a size and an allocation flag, laid
  out without gaps; the free list is a sequence \<open>ps\<close> of distinct free blocks linked in a
  ring.
\<close>

section \<open>Sequences of blocks\<close>

type_synonym block_seq = "(nat \<times> bool) list"

definition total :: "block_seq \<Rightarrow> nat" where
  "total bs = sum_list (map fst bs)"

fun blocks :: "nat \<Rightarrow> block_seq \<Rightarrow> (nat \<times> nat \<times> bool) set" where
  "blocks a [] = {}"
| "blocks a ((n, al) # bs) = insert (a, n, al) (blocks (a + n) bs)"

definition wf_seq :: "block_seq \<Rightarrow> bool" where
  "wf_seq bs \<longleftrightarrow> (\<forall>(n, al) \<in> set bs. 32 \<le> n \<and> 8 dvd n)"

lemma total_simps [simp]: "total [] = 0" "total (b # bs) = fst b + total bs" "total (xs @ ys) = total xs + total ys"
  by (simp_all add: total_def)

lemma wf_seq_simps [simp]: "wf_seq []" "wf_seq ((n, al) # bs) \<longleftrightarrow> 32 \<le> n \<and> 8 dvd n \<and> wf_seq bs"
  "wf_seq (xs @ ys) \<longleftrightarrow> wf_seq xs \<and> wf_seq ys"
  by (auto simp: wf_seq_def)

lemma blocks_append [simp]: "blocks a (xs @ ys) = blocks a xs \<union> blocks (a + total xs) ys"
  by (induction a xs rule: blocks.induct) (auto simp: add.assoc)

lemma blocks_bounds: "(p, n, al) \<in> blocks a bs \<Longrightarrow> a \<le> p \<and> p + n \<le> a + total bs"
  by (induction a bs rule: blocks.induct) fastforce+

lemma blocks_split: "(p, n, al) \<in> blocks a bs \<Longrightarrow> \<exists>xs ys. bs = xs @ (n, al) # ys \<and> p = a + total xs"
proof (induction a bs rule: blocks.induct)
  case (2 a k al' bs)
  show ?case
  proof (cases "(p, n, al) = (a, k, al')")
    case True
    then show ?thesis by (intro exI [of _ "[]"] exI [of _ bs]) simp
  next
    case False
    then obtain xs ys where "bs = xs @ (n, al) # ys" "p = a + k + total xs" using 2 by auto
    then show ?thesis by (intro exI [of _ "(k, al') # xs"] exI [of _ ys]) simp
  qed
qed simp

lemma blocks_wf: "wf_seq bs \<Longrightarrow> 8 dvd a \<Longrightarrow> (p, n, al) \<in> blocks a bs \<Longrightarrow> 32 \<le> n \<and> 8 dvd n \<and> 8 dvd p"
  by (induction a bs rule: blocks.induct) auto

lemma blocks_disjoint:
  assumes "wf_seq bs" "(p, n, al) \<in> blocks a bs" "(q, k, bl) \<in> blocks a bs"
  shows "p = q \<and> n = k \<and> al = bl \<or> p + n \<le> q \<or> q + k \<le> p"
  using assms
proof (induction a bs rule: blocks.induct)
  case (2 a k' al' bs)
  then show ?case using blocks_bounds [of p n al "a + k'" bs] blocks_bounds [of q k bl "a + k'" bs] by auto
qed simp

lemma wf_total: "wf_seq bs \<Longrightarrow> 8 dvd total bs"
  by (induction bs) auto

section \<open>Tags\<close>

definition tag :: "nat \<Rightarrow> bool \<Rightarrow> nat" where
  "tag n al = n + of_bool al"

definition tagged :: "(nat \<Rightarrow> nat) \<Rightarrow> (nat \<times> nat \<times> bool) set \<Rightarrow> bool" where
  "tagged m B \<longleftrightarrow> (\<forall>(p, n, al) \<in> B. m p = tag n al \<and> m (p + n - 8) = tag n al)"

lemma tagged_Un [simp]: "tagged m (A \<union> B) \<longleftrightarrow> tagged m A \<and> tagged m B"
  and tagged_insert [simp]: "tagged m (insert (p, n, al) B) \<longleftrightarrow> m p = tag n al \<and> m (p + n - 8) = tag n al \<and> tagged m B"
  and tagged_empty [simp]: "tagged m {}"
  by (simp_all add: tagged_def ball_Un)

lemma tagged_cong:
  assumes "wf_seq bs" "tagged m (blocks a bs)" "\<And>w. a \<le> w \<Longrightarrow> w < a + total bs \<Longrightarrow> m' w = m w"
  shows "tagged m' (blocks a bs)"
  using assms
proof (induction a bs rule: blocks.induct)
  case (2 a n al bs)
  have "tagged m' (blocks (a + n) bs)" using 2 by simp
  moreover have "m' a = m a" "m' (a + n - 8) = m (a + n - 8)"
    using "2.prems"(1) by (auto intro!: "2.prems"(3))
  ultimately show ?case using "2.prems"(2) by simp
qed simp

lemma tag_laws:
  assumes "8 dvd n" "16 \<le> n"
  shows "and_1 (tag n al) = of_bool al" "and_m2 (tag n al) = n" "tag n al div 8 = n div 8"
    "or_1 (tag n al) = tag n True" "tag n al \<ge> 16" "and_m2 (tag n al) = tag n False"
proof -
  obtain k where "n = 8 * k" using assms(1) by blast
  then show "and_1 (tag n al) = of_bool al" "and_m2 (tag n al) = n" "tag n al div 8 = n div 8"
    "or_1 (tag n al) = tag n True" "tag n al \<ge> 16" "and_m2 (tag n al) = tag n False"
    using assms(2) by (cases al; simp add: tag_def and_1_def and_m2_def or_1_def mod_Suc)+
qed

text \<open>The memory that holds a well-formed sequence of blocks.\<close>

definition heap_ok :: "heap \<Rightarrow> block_seq \<Rightarrow> bool" where
  "heap_ok s bs \<longleftrightarrow> 8 dvd mem_start_brk s \<and> 0 < mem_start_brk s
     \<and> mem_start_brk s + total bs \<le> mem_max_addr s
     \<and> mem_max_addr s \<le> mem_start_brk s + MAX_HEAP \<and> mem_max_addr s < 2 ^ 63
     \<and> wf_seq bs \<and> tagged (mem s) (blocks (mem_start_brk s) bs)"

abbreviation bset :: "heap \<Rightarrow> block_seq \<Rightarrow> (nat \<times> nat \<times> bool) set" where
  "bset s bs \<equiv> blocks (mem_start_brk s) bs"

lemma heap_ok_block:
  assumes "heap_ok s bs" "(p, n, al) \<in> bset s bs"
  shows "32 \<le> n" "8 dvd n" "8 dvd p" "0 < p" "mem_start_brk s \<le> p" "p + n \<le> mem_max_addr s"
    "p + n \<le> mem_start_brk s + total bs" "mem s p = tag n al" "mem s (p + n - 8) = tag n al" "n < 2 ^ 31" "p + n < 2 ^ 63"
  using assms blocks_bounds [OF assms(2)] blocks_wf [of bs "mem_start_brk s" p n al]
  by (auto simp: heap_ok_def tagged_def)

lemma in_store_block:
  assumes "heap_ok s bs" "(p, n, al) \<in> bset s bs" "8 dvd k" "k < n"
  shows "in_store s (p + k)"
proof -
  obtain i j where "n = 8 * i" "k = 8 * j" using heap_ok_block(2) [OF assms(1,2)] assms(3) by blast
  then have "k + 8 \<le> n" using assms(4) by simp
  then show ?thesis using heap_ok_block [OF assms(1,2)] assms(3) by (simp add: in_store_def)
qed

lemma block_laws:
  assumes "heap_ok s bs" "(p, n, al) \<in> bset s bs"
  shows "block_allocated p s = Some (of_bool al)" "block_size p s = Some n" "block_next p s = Some (p + n)"
    "block_end_tag p s = Some (p + n - 8)" "assert_free p s = (if al then None else Some ())"
proof -
  note b = heap_ok_block [OF assms]
  have st: "in_store s p" using in_store_block [OF assms, of 0] b(1) by simp
  have n16: "16 \<le> n" using b(1) by simp
  note t = tag_laws [OF b(2) n16, of al]
  show "block_allocated p s = Some (of_bool al)" "block_size p s = Some n"
    using st b(8) t by (simp_all add: block_allocated_def block_size_def load_Some)
  then show "block_next p s = Some (p + n)" "assert_free p s = (if al then None else Some ())"
    by (simp_all add: block_next_def assert_free_def)
  obtain i where "n = 8 * i" using b(2) by blast
  then show "block_end_tag p s = Some (p + n - 8)"
    using st b(8) t n16 by (simp add: block_end_tag_def load_Some)
qed

lemma prev_laws:
  assumes "heap_ok s (xs @ (k, bl) # (n, al) # ys)" "p = mem_start_brk s + total xs + k"
  shows "block_prev p s = Some (mem_start_brk s + total xs)"
    "block_prev_size p s = Some k" "block_prev_allocated p s = Some (of_bool bl)"
proof -
  let ?q = "mem_start_brk s + total xs"
  have q: "(?q, k, bl) \<in> bset s (xs @ (k, bl) # (n, al) # ys)" by simp
  note b = heap_ok_block [OF assms(1) q]
  have "in_store s (p - 8)"
    using in_store_block [OF assms(1) q, of "k - 8"] b(1,2) assms(2) by (simp add: dvd_diff_nat)
  moreover have "mem s (p - 8) = tag k bl" using b(9) assms(2) by simp
  moreover have "\<not> p < 8" using b(1) assms(2) by simp
  ultimately show "block_prev_size p s = Some k" "block_prev_allocated p s = Some (of_bool bl)"
    using tag_laws [of k bl] b(1,2) by (simp_all add: block_prev_size_def block_prev_allocated_def load_Some)
  then show "block_prev p s = Some ?q" using assms(2) by (simp add: block_prev_def)
qed

text \<open>Writing both tags of a block.\<close>

definition put_tags :: "nat \<Rightarrow> nat \<Rightarrow> bool \<Rightarrow> heap \<Rightarrow> heap" where
  "put_tags p n al s = s\<lparr>mem := (mem s)(p := tag n al, p + n - 8 := tag n al)\<rparr>"

lemma set_size_and_allocated:
  assumes "8 dvd n" "32 \<le> n" "in_store s p" "in_store s (p + n - 8)" "n < 2 ^ 63"
  shows "block_set_size_and_allocated p n al s = Some (put_tags p n al s)"
proof -
  let ?a = "and_1 (mem s p)" and ?e = "p + n - 8"
  have a: "?a < 2" by (simp add: and_1_def)
  define x where "x = n + ?a"
  have x: "x = tag n (?a = 1)" using a by (auto simp: x_def tag_def)
  have n16: "16 \<le> n" "n mod 8 = 0" using assms(1,2) by auto
  note t = tag_laws [OF assms(1) n16(1)]
  have x': "x < 2 ^ 64" "x \<ge> 16" "x div 8 = n div 8" using a assms(2,5) x t by (simp_all add: x_def)
  obtain i where i: "n = 8 * i" using assms(1) by blast
  have e: "p + 8 + 8 * (n div 8 - 2) = ?e" using assms(2) i by simp
  have ne: "?e \<noteq> p" using assms(2) by simp
  let ?s1 = "s\<lparr>mem := (mem s)(p := x, ?e := x)\<rparr>"
  have "block_set_size p n s = Some ?s1"
    using assms(3,4) n16 x' e
    by (simp add: block_set_size_def block_allocated_def load_Some x_def [symmetric] store_Some block_end_tag_def)
  moreover have "block_set_allocated p al ?s1 = Some (put_tags p n al s)"
  proof -
    have f: "(if al then or_1 else and_m2) x = tag n al" using x t by (cases al) simp_all
    have "tag n al < 2 ^ 64" using assms(5) by (simp add: tag_def)
    then show ?thesis using assms(3,4) e ne f t
      by (simp add: block_set_allocated_def Let_def load_Some store_Some block_end_tag_def put_tags_def fun_upd_twist)
  qed
  ultimately show ?thesis by (simp add: block_set_size_and_allocated_def)
qed

section \<open>The free list\<close>

fun links :: "(nat \<Rightarrow> nat) \<Rightarrow> nat list \<Rightarrow> bool" where
  "links m (x # y # zs) \<longleftrightarrow> m (x + 8) = y \<and> m (y + 16) = x \<and> links m (y # zs)"
| "links m [x] \<longleftrightarrow> True"
| "links m [] \<longleftrightarrow> True"

definition ring :: "(nat \<Rightarrow> nat) \<Rightarrow> nat list \<Rightarrow> bool" where
  "ring m ps \<longleftrightarrow> (ps \<noteq> [] \<longrightarrow> links m ps \<and> m (last ps + 8) = hd ps \<and> m (hd ps + 16) = last ps)"

lemma links_append:
  "links m (xs @ ys) \<longleftrightarrow> links m xs \<and> links m ys \<and>
     (xs \<noteq> [] \<longrightarrow> ys \<noteq> [] \<longrightarrow> m (last xs + 8) = hd ys \<and> m (hd ys + 16) = last xs)"
proof (induction m xs rule: links.induct)
  case (2 m x)
  then show ?case by (cases ys) auto
qed auto

lemma links_cong:
  "links m ps \<Longrightarrow> (\<And>x. x \<in> set (butlast ps) \<Longrightarrow> m' (x + 8) = m (x + 8)) \<Longrightarrow>
   (\<And>y. y \<in> set (tl ps) \<Longrightarrow> m' (y + 16) = m (y + 16)) \<Longrightarrow> links m' ps"
  by (induction m ps rule: links.induct) auto

text \<open>Distinct list elements do not share pointer words.\<close>

definition apart :: "nat list \<Rightarrow> bool" where
  "apart ps \<longleftrightarrow> distinct ps \<and> (\<forall>x \<in> set ps. \<forall>y \<in> set ps. x \<noteq> y + 8)"

lemma apart_words:
  "apart ps \<Longrightarrow> x \<in> set ps \<Longrightarrow> y \<in> set ps \<Longrightarrow> x + 8 \<noteq> y + 16"
  unfolding apart_def by (metis add.assoc add.commute add_right_cancel numeral_Bit0)

lemma links_upd:
  assumes "links m qs" "set qs \<subseteq> set ps" "apart ps" "u \<in> set ps" "v \<in> set ps"
    and "u \<notin> set (butlast qs)" "v \<notin> set (tl qs)"
  shows "links (m(u + 8 := a, v + 16 := b)) qs"
proof (rule links_cong [OF assms(1)])
  fix x assume "x \<in> set (butlast qs)"
  moreover from this have "x \<in> set ps" using assms(2) in_set_butlastD by fastforce
  ultimately show "(m(u + 8 := a, v + 16 := b)) (x + 8) = m (x + 8)"
    using apart_words [OF assms(3) _ assms(5), of x] assms(6) by auto
next
  fix y assume "y \<in> set (tl qs)"
  moreover from this have "y \<in> set ps" using assms(2) by (cases qs) auto
  ultimately show "(m(u + 8 := a, v + 16 := b)) (y + 16) = m (y + 16)"
    using apart_words [OF assms(3,4), of y] assms(7) by auto
qed

lemma distinct_ends:
  assumes "distinct xs" "xs \<noteq> []"
  shows "last xs \<notin> set (butlast xs)" "hd xs \<notin> set (tl xs)"
proof -
  show "last xs \<notin> set (butlast xs)" using assms by (cases xs rule: rev_cases) simp_all
  show "hd xs \<notin> set (tl xs)" using assms by (cases xs) simp_all
qed

text \<open>Unlinking an element of a ring of at least two.\<close>

lemma ring_remove:
  assumes r: "ring m (as @ p # bs)" and ap: "apart (as @ p # bs)" and ne: "bs @ as \<noteq> []"
  shows "m (p + 16) = last (bs @ as)" "m (p + 8) = hd (bs @ as)"
    "ring (m(last (bs @ as) + 8 := hd (bs @ as), hd (bs @ as) + 16 := last (bs @ as))) (as @ bs)"
proof -
  let ?ps = "as @ p # bs" and ?pv = "last (bs @ as)" and ?nx = "hd (bs @ as)"
  have l: "links m as" "links m (p # bs)" "links m bs" and cl: "m (last ?ps + 8) = hd ?ps" "m (hd ?ps + 16) = last ?ps"
    and mid: "as \<noteq> [] \<longrightarrow> m (last as + 8) = p \<and> m (p + 16) = last as"
    and nx: "bs \<noteq> [] \<longrightarrow> m (p + 8) = hd bs \<and> m (hd bs + 16) = p"
    using r links_append [of m as "p # bs"] links_append [of m "[p]" bs] by (auto simp: ring_def)
  show pv: "m (p + 16) = ?pv" "m (p + 8) = ?nx"
    using cl mid nx ne by (cases "as = []"; cases "bs = []"; simp)+
  have mem: "?pv \<in> set ?ps" "?nx \<in> set ?ps"
    using ne last_in_set [OF ne] hd_in_set [OF ne] by auto
  have d: "distinct ?ps" using ap by (simp add: apart_def)
  let ?m = "m(?pv + 8 := ?nx, ?nx + 16 := ?pv)"
  have out: "?pv \<notin> set (butlast as) \<and> ?pv \<notin> set (butlast bs) \<and> ?nx \<notin> set (tl as) \<and> ?nx \<notin> set (tl bs)"
  proof (cases "as = []"; cases "bs = []")
    assume "as \<noteq> []" "bs \<noteq> []"
    then show ?thesis
      using d distinct_ends [of as] distinct_ends [of bs] in_set_butlastD [of "last as" bs] list.set_sel(2) [of as "hd bs"] 
      by (auto dest: hd_in_set last_in_set)
  qed (use d ne distinct_ends [of as] distinct_ends [of bs] in simp_all)
  have sub: "set as \<subseteq> set ?ps" "set bs \<subseteq> set ?ps" by auto
  have lk: "links ?m as" "links ?m bs"
    using links_upd [OF l(1) sub(1) ap mem] links_upd [OF l(3) sub(2) ap mem] out by simp_all
  have c8: "?m (x + 8) = (if x = ?pv then ?nx else m (x + 8))" if "x \<in> set ?ps" for x
    using apart_words [OF ap that mem(2)] by auto
  have c16: "?m (x + 16) = (if x = ?nx then ?pv else m (x + 16))" if "x \<in> set ?ps" for x
    using apart_words [OF ap mem(1) that] by auto
  show "ring ?m (as @ bs)"
  proof (cases "as = []"; cases "bs = []")
    assume ab: "as \<noteq> []" "bs \<noteq> []"
    have i: "last as \<in> set ?ps" "last bs \<in> set ?ps" "hd as \<in> set ?ps" "hd bs \<in> set ?ps"
      using ab by simp_all
    have "last bs \<noteq> last as" "hd as \<noteq> hd bs"
      using d ab by (metis distinct_append disjoint_iff last_in_set distinct.simps(2) list.set_intros(2), metis distinct_append disjoint_iff hd_in_set list.set_intros(2))
    then show ?thesis
      unfolding ring_def links_append using lk ab cl c8 [OF i(1)] c8 [OF i(2)] c16 [OF i(3)] c16 [OF i(4)] by simp
  qed (use ne lk c8 [OF mem(1)] in \<open>simp_all add: ring_def\<close>)
qed

text \<open>Linking a new element in front.\<close>

lemma ring_insert:
  assumes r: "ring m ps" and ap: "apart (p # ps)" and ne: "ps \<noteq> []"
  shows "ring (m(p + 8 := hd ps, p + 16 := last ps, last ps + 8 := p, hd ps + 16 := p)) (p # ps)"
proof -
  let ?mp = "m(p + 8 := hd ps, p + 16 := last ps)"
  let ?m = "?mp(last ps + 8 := p, hd ps + 16 := p)"
  have ap': "apart ps" and d: "distinct ps" "p \<notin> set ps" using ap by (auto simp: apart_def)
  have i: "last ps \<in> set (p # ps)" "hd ps \<in> set (p # ps)" "p \<in> set (p # ps)" using ne by simp_all
  have sub: "set ps \<subseteq> set (p # ps)" by auto
  have np: "p \<notin> set (butlast ps)" "p \<notin> set (tl ps)" using d(2) ne by (auto dest: in_set_butlastD list.set_sel(2))
  have l: "links m ps" using r ne by (simp add: ring_def)
  have l0: "links ?mp ps" by (rule links_upd [OF l sub ap i(3) i(3) np])
  have "links ?m ps"
    by (rule links_upd [OF l0 sub ap i(1,2)]) (use distinct_ends [OF d(1) ne] in simp_all)
  moreover have "?m (p + 8) = hd ps" "?m (hd ps + 16) = p" "?m (last ps + 8) = p" "?m (p + 16) = last ps"
    using apart_words [OF ap i(3,2)] apart_words [OF ap i(1,2)] apart_words [OF ap i(1) i(3)] d(2) ne by auto
  ultimately show ?thesis using ne links_append [of ?m "[p]" ps] by (simp add: ring_def)
qed


definition first :: "nat list \<Rightarrow> nat" where
  "first ps = (case ps of [] \<Rightarrow> 0 | p # _ \<Rightarrow> p)"

definition free_list :: "heap \<Rightarrow> block_seq \<Rightarrow> nat list \<Rightarrow> bool" where
  "free_list s bs ps \<longleftrightarrow> distinct ps \<and> (\<forall>p \<in> set ps. \<exists>n. (p, n, False) \<in> bset s bs)
     \<and> ring (mem s) ps \<and> flist_first s = first ps"

definition ptr_words :: "nat list \<Rightarrow> nat set" where
  "ptr_words ps = (\<lambda>q. q + 8) ` set ps \<union> (\<lambda>q. q + 16) ` set ps"

lemma first_hd: "ps \<noteq> [] \<Longrightarrow> first ps = hd ps" "first [] = 0"
  by (cases ps; simp add: first_def)+

text \<open>Writes in the interior of blocks leave the tags alone.\<close>

lemma heap_ok_interior:
  assumes ok: "heap_ok s bs"
    and int: "\<And>w. m' w \<noteq> mem s w \<Longrightarrow> \<exists>q k al. (q, k, al) \<in> bset s bs \<and> q + 8 \<le> w \<and> w < q + k - 8"
  shows "heap_ok (s\<lparr>mem := m'\<rparr>) bs"
proof -
  have "m' p = mem s p \<and> m' (p + n - 8) = mem s (p + n - 8)" if b: "(p, n, al) \<in> bset s bs" for p n al
  proof -
    have "32 \<le> n" using heap_ok_block(1) [OF ok b] .
    moreover have False if "(q, k, bl) \<in> bset s bs" "q + 8 \<le> w" "w < q + k - 8" "w = p \<or> w = p + n - 8" for q k bl w
      using blocks_disjoint [OF _ b that(1)] ok heap_ok_block(1) [OF ok that(1)] that(2-4) \<open>32 \<le> n\<close>
      by (auto simp: heap_ok_def)
    ultimately show ?thesis using int by metis
  qed
  then have "tagged m' (bset s bs)" using ok unfolding heap_ok_def tagged_def by fastforce
  then show ?thesis using ok by (simp add: heap_ok_def)
qed

lemma heap_ok_ptr:
  assumes "heap_ok s bs" "(b, n, False) \<in> bset s bs" "w = b + 8 \<or> w = b + 16"
  shows "heap_ok (s\<lparr>mem := (mem s)(w := v)\<rparr>) bs"
proof (rule heap_ok_interior [OF assms(1)])
  fix x assume "((mem s)(w := v)) x \<noteq> mem s x"
  then have "x = w" by (auto split: if_splits)
  then show "\<exists>q k al. (q, k, al) \<in> bset s bs \<and> q + 8 \<le> x \<and> x < q + k - 8"
    using assms(2,3) heap_ok_block(1) [OF assms(1,2)] by (intro exI [of _ b] exI [of _ n] exI [of _ False]) auto
qed

lemma heap_ok_first [simp]:
  "heap_ok (s\<lparr>flist_first := x\<rparr>) bs = heap_ok s bs" "heap_ok (s\<lparr>prologue := x\<rparr>) bs = heap_ok s bs"
  "heap_ok (s\<lparr>epilogue := x\<rparr>) bs = heap_ok s bs" "heap_ok (s\<lparr>mem_brk := x\<rparr>) bs = heap_ok s bs"
  by (simp_all add: heap_ok_def)

lemma ptr_laws:
  assumes ok: "heap_ok s bs" and b: "(b, n, False) \<in> bset s bs"
  shows "block_next_free b s = Some (mem s (b + 8))" "block_prev_free b s = Some (mem s (b + 16))"
    "(x, k, False) \<in> bset s bs \<Longrightarrow> block_set_next_free b x s = Some (s\<lparr>mem := (mem s)(b + 8 := x)\<rparr>)"
    "(x, k, False) \<in> bset s bs \<Longrightarrow> block_set_prev_free b x s = Some (s\<lparr>mem := (mem s)(b + 16 := x)\<rparr>)"
proof -
  have "32 \<le> n" by (rule heap_ok_block(1) [OF ok b])
  then have st: "in_store s (b + 8)" "in_store s (b + 16)"
    using in_store_block [OF ok b, of 8] in_store_block [OF ok b, of 16] by simp_all
  show "block_next_free b s = Some (mem s (b + 8))" "block_prev_free b s = Some (mem s (b + 16))"
    using block_laws [OF ok b] st by (simp_all add: block_next_free_def block_prev_free_def load_Some)
  assume x: "(x, k, False) \<in> bset s bs"
  then have "x < 2 ^ 64" using heap_ok_block(11) [OF ok x] by simp
  then show "block_set_next_free b x s = Some (s\<lparr>mem := (mem s)(b + 8 := x)\<rparr>)"
    "block_set_prev_free b x s = Some (s\<lparr>mem := (mem s)(b + 16 := x)\<rparr>)"
    using block_laws [OF ok b] block_laws [OF ok x] st
    by (simp_all add: block_set_next_free_def block_set_prev_free_def store_Some)
qed

lemma free_list_apart:
  assumes ok: "heap_ok s bs" and "distinct ps" "\<forall>p \<in> set ps. \<exists>n. (p, n, False) \<in> bset s bs"
  shows "apart ps"
proof -
  have "x \<noteq> y + 8" if xy: "x \<in> set ps" "y \<in> set ps" for x y
  proof -
    obtain n where b1: "(x, n, False) \<in> bset s bs" using bspec [OF assms(3) xy(1)] by blast
    obtain k where b2: "(y, k, False) \<in> bset s bs" using bspec [OF assms(3) xy(2)] by blast
    note b = b1 b2
    have wf: "wf_seq bs" using ok by (simp add: heap_ok_def)
    have n: "32 \<le> n" "32 \<le> k" using heap_ok_block(1) [OF ok b(1)] heap_ok_block(1) [OF ok b(2)] by simp_all
    from blocks_disjoint [OF wf b] show ?thesis using n by (elim disjE) simp_all
  qed
  then show ?thesis using assms(2) unfolding apart_def by blast
qed

lemma pull_free_block_ok:
  assumes ok: "heap_ok s bs" and fl: "free_list s bs ps" and p: "p \<in> set ps"
  shows "\<exists>m'. pull_free_block p s = Some (s\<lparr>mem := m', flist_first := first (remove1 p ps)\<rparr>)
    \<and> heap_ok (s\<lparr>mem := m'\<rparr>) bs \<and> ring m' (remove1 p ps) \<and> (\<forall>w. w \<notin> ptr_words ps \<longrightarrow> m' w = mem s w)"
proof -
  obtain xs ys where ps: "ps = xs @ p # ys" using p by (metis split_list)
  have d: "distinct ps" and fr: "\<forall>p \<in> set ps. \<exists>n. (p, n, False) \<in> bset s bs" and r: "ring (mem s) ps"
    and first: "flist_first s = first ps" using fl by (auto simp: free_list_def)
  have rem: "remove1 p ps = xs @ ys" using d ps by (simp add: remove1_append)
  obtain n where b: "(p, n, False) \<in> bset s bs" using fr p by blast
  note bl = block_laws(5) [OF ok b] and pl = ptr_laws(1,2) [OF ok b]
  show ?thesis
  proof (cases "ys @ xs = []")
    case True
    then have "flist_first s = p" "mem s (p + 8) = p" using first ps r by (simp_all add: first_def ring_def)
    then have "pull_free_block p s = Some (s\<lparr>flist_first := 0\<rparr>)" using bl pl by (simp add: pull_free_block_def)
    moreover have "s\<lparr>flist_first := 0\<rparr> = s\<lparr>mem := mem s, flist_first := first (remove1 p ps)\<rparr>"
      using rem True by (simp add: first_def)
    ultimately show ?thesis using ok rem True by (intro exI [of _ "mem s"]) (simp add: ring_def)
  next
    case False
    let ?pv = "last (ys @ xs)" and ?nx = "hd (ys @ xs)"
    note rr = ring_remove [OF r [unfolded ps] free_list_apart [OF ok d fr, unfolded ps] False]
    have mem: "?pv \<in> set ps" "?nx \<in> set ps" "?nx \<noteq> p" "?pv \<noteq> p"
      using ps d False last_in_set [OF False] hd_in_set [OF False] by auto
    obtain i j where pv: "(?pv, i, False) \<in> bset s bs" and nx: "(?nx, j, False) \<in> bset s bs" using fr mem by blast
    have fp: "flist_first s = p \<longleftrightarrow> xs = []" using first ps d by (cases xs) (auto simp: first_def)
    define f where "f = (if flist_first s = p then ?nx else flist_first s)"
    have f: "f = first (remove1 p ps)"
      unfolding f_def fp rem using first ps False by (cases xs; cases ys) (simp_all add: first_def)
    let ?s = "s\<lparr>flist_first := f\<rparr>"
    let ?n = "(mem s)(?pv + 8 := ?nx)"
    have ok1: "heap_ok (?s\<lparr>mem := ?n\<rparr>) bs" using heap_ok_ptr [of ?s bs ?pv i] ok pv by simp
    have ap: "?pv + 8 \<noteq> p + 16" using apart_words [OF free_list_apart [OF ok d fr] mem(1) p] by simp
    have ok2: "heap_ok (?s\<lparr>mem := ?n(?nx + 16 := ?pv)\<rparr>) bs"
      using heap_ok_ptr [OF ok1, of ?nx j "?nx + 16" ?pv] nx by simp
    have oks: "heap_ok ?s bs" using ok by simp
    have e1: "(if flist_first s = p then block_next_free p s else Some (flist_first s)) = Some f"
      using pl rr(2) by (simp add: f_def)
    have e2: "\<not> (flist_first s = p \<and> f = p)" using mem(3) by (simp add: f_def)
    have e3: "assert_free p s = Some ()" using bl by simp
    have "block_prev_free p ?s = Some ?pv" "block_next_free p ?s = Some ?nx"
      "block_set_next_free ?pv ?nx ?s = Some (?s\<lparr>mem := ?n\<rparr>)"
      "block_next_free p (?s\<lparr>mem := ?n\<rparr>) = Some ?nx" "block_prev_free p (?s\<lparr>mem := ?n\<rparr>) = Some ?pv"
      "block_set_prev_free ?nx ?pv (?s\<lparr>mem := ?n\<rparr>) = Some (?s\<lparr>mem := ?n(?nx + 16 := ?pv)\<rparr>)"
      using rr(1,2) mem(3,4) ap ptr_laws(1,2) [OF oks, of p n] b ptr_laws(3) [OF oks, of ?pv i ?nx j]
        ptr_laws(1,2) [OF ok1, of p n] ptr_laws(4) [OF ok1, of ?nx j ?pv i] pv nx by simp_all
    then have "pull_free_block p s = Some (?s\<lparr>mem := ?n(?nx + 16 := ?pv)\<rparr>)"
      unfolding pull_free_block_def e1 e3 bind.simps Let_def if_not_P [OF e2] by (simp only: bind.simps)
    moreover have "ring (?n(?nx + 16 := ?pv)) (remove1 p ps)" using rr(3) rem by simp
    moreover have "\<forall>w. w \<notin> ptr_words ps \<longrightarrow> (?n(?nx + 16 := ?pv)) w = mem s w"
      using mem by (auto simp: ptr_words_def)
    moreover have "heap_ok (s\<lparr>mem := ?n(?nx + 16 := ?pv)\<rparr>) bs" using ok2 by (simp add: heap_ok_def)
    ultimately show ?thesis using f by (intro exI [of _ "?n(?nx + 16 := ?pv)"]) simp
  qed
qed

lemma insert_free_block_ok:
  assumes ok: "heap_ok s bs" and fl: "free_list s bs ps" and b: "(p, n, False) \<in> bset s bs" and p: "p \<notin> set ps"
  shows "\<exists>m'. insert_free_block p s = Some (s\<lparr>mem := m', flist_first := p\<rparr>)
    \<and> heap_ok (s\<lparr>mem := m'\<rparr>) bs \<and> ring m' (p # ps) \<and> (\<forall>w. w \<notin> ptr_words (p # ps) \<longrightarrow> m' w = mem s w)"
proof -
  have d: "distinct (p # ps)" and fr: "\<forall>q \<in> set (p # ps). \<exists>n. (q, n, False) \<in> bset s bs" and r: "ring (mem s) ps"
    and first: "flist_first s = first ps" using fl b p by (auto simp: free_list_def)
  note ap = free_list_apart [OF ok d fr]
  note bl = block_laws(5) [OF ok b]
  show ?thesis
  proof (cases "ps = []")
    case True
    let ?a = "(mem s)(p + 8 := p)"
    have ok1: "heap_ok (s\<lparr>mem := ?a\<rparr>) bs" using heap_ok_ptr [OF ok b] by simp
    have ok2: "heap_ok (s\<lparr>mem := ?a(p + 16 := p)\<rparr>) bs" using heap_ok_ptr [OF ok1, of p n "p + 16" p] b by simp
    have "insert_free_block p s = Some (s\<lparr>mem := ?a(p + 16 := p), flist_first := p\<rparr>)"
      using bl first True ptr_laws(3) [OF ok b b] ptr_laws(4) [OF ok1, of p n p n] b
      by (simp add: insert_free_block_def first_def)
    then show ?thesis using ok2 True by (intro exI [of _ "?a(p + 16 := p)"]) (simp add: ring_def ptr_words_def)
  next
    case False
    let ?l = "last ps" and ?f = "hd ps"
    have f: "flist_first s = ?f" using first False by (simp add: first_hd)
    obtain i j where l: "(?l, i, False) \<in> bset s bs" and h: "(?f, j, False) \<in> bset s bs" using fr False by (metis last_in_set hd_in_set list.set_intros(2))
    have "0 < ?f" using heap_ok_block(4) [OF ok h] .
    let ?a = "(mem s)(p + 8 := ?f)" let ?b = "?a(p + 16 := ?l)" let ?c = "?b(?l + 8 := p)" let ?d = "?c(?f + 16 := p)"
    have ok1: "heap_ok (s\<lparr>mem := ?a\<rparr>) bs" using heap_ok_ptr [OF ok b] by simp
    have ok2: "heap_ok (s\<lparr>mem := ?b\<rparr>) bs" using heap_ok_ptr [OF ok1, of p n "p + 16" ?l] b by simp
    have ok3: "heap_ok (s\<lparr>mem := ?c\<rparr>) bs" using heap_ok_ptr [OF ok2, of ?l i "?l + 8" p] l by simp
    have ok4: "heap_ok (s\<lparr>mem := ?d\<rparr>) bs" using heap_ok_ptr [OF ok3, of ?f j "?f + 16" p] h by simp
    have "mem s (?f + 16) = ?l" using r False by (simp add: ring_def)
    then have "insert_free_block p s = Some (s\<lparr>mem := ?d, flist_first := p\<rparr>)"
      using bl f \<open>0 < ?f\<close> ptr_laws(2) [OF ok h] ptr_laws(3) [OF ok b h] ptr_laws(4) [OF ok1, of p n ?l i]
        ptr_laws(3) [OF ok2, of ?l i p n] ptr_laws(4) [OF ok3, of ?f j p n] b l h
      by (simp add: insert_free_block_def)
    moreover have "ring ?d (p # ps)" by (rule ring_insert [OF r ap False])
    moreover have "\<forall>w. w \<notin> ptr_words (p # ps) \<longrightarrow> ?d w = mem s w"
      using False by (auto simp: ptr_words_def)
    ultimately show ?thesis using ok4 by blast
  qed
qed

end
