(* ===== verification/MmOps.thy ===== *)
theory MmOps
  imports MmInv
begin

text \<open>
  The allocator operations under the heap invariant: splitting, coalescing, extending the
  heap, the best-fit search, \<open>mm_init\<close>, \<open>mm_malloc\<close> and \<open>mm_free\<close>.
\<close>

section \<open>Replacing a run of blocks\<close>

lemma heap_ok_replace:
  assumes ok: "heap_ok s (xs @ gs @ ys)" and tot: "total ns = total gs" and wf: "wf_seq ns"
    and out: "\<And>w. w < mem_start_brk s + total xs \<or> mem_start_brk s + total xs + total gs \<le> w \<Longrightarrow> m' w = mem s w"
    and tg: "tagged m' (blocks (mem_start_brk s + total xs) ns)"
  shows "heap_ok (s\<lparr>mem := m'\<rparr>) (xs @ ns @ ys)"
proof -
  let ?a = "mem_start_brk s"
  have w: "wf_seq xs" "wf_seq ys" "tagged (mem s) (blocks ?a xs)" "tagged (mem s) (blocks (?a + total xs + total gs) ys)"
    using ok by (simp_all add: heap_ok_def add.assoc)
  have "tagged m' (blocks ?a xs)" by (rule tagged_cong [OF w(1,3)]) (rule out, simp)
  moreover have "tagged m' (blocks (?a + total xs + total gs) ys)" by (rule tagged_cong [OF w(2,4)]) (rule out, simp)
  ultimately show ?thesis using ok tot wf tg by (simp add: heap_ok_def add.assoc)
qed

lemma heap_ok_merge:
  assumes ok: "heap_ok s (xs @ gs @ ys)" and ne: "gs \<noteq> []" and p: "p = mem_start_brk s + total xs" "n = total gs"
  shows "block_set_size_and_allocated p n al s = Some (put_tags p n al s)"
    and "heap_ok (put_tags p n al s) (xs @ (n, al) # ys)"
proof -
  obtain k bl gs' where g: "gs = (k, bl) # gs'" using ne by (cases gs) auto
  have wf: "wf_seq gs" using ok by (simp add: heap_ok_def)
  have n: "32 \<le> n" "8 dvd n" using wf g p(2) wf_total [OF wf] by simp_all
  have bnd: "p + n \<le> mem_max_addr s" "mem_max_addr s < 2 ^ 63" "8 dvd p" "mem_start_brk s \<le> p"
    using ok p wf_total [of xs] by (simp_all add: heap_ok_def)
  then have "in_store s p" "in_store s (p + n - 8)"
    using n by (auto simp: in_store_def)
  then show "block_set_size_and_allocated p n al s = Some (put_tags p n al s)"
    using set_size_and_allocated n bnd by simp
  have "heap_ok (s\<lparr>mem := (mem s)(p := tag n al, p + n - 8 := tag n al)\<rparr>) (xs @ [(n, al)] @ ys)"
  proof (rule heap_ok_replace [OF ok])
    show "tagged ((mem s)(p := tag n al, p + n - 8 := tag n al)) (blocks (mem_start_brk s + total xs) [(n, al)])"
      using p n by simp
  qed (use n p in auto)
  then show "heap_ok (put_tags p n al s) (xs @ (n, al) # ys)" by (simp add: put_tags_def)
qed

lemma put_tags_fields [simp]:
  "mem_start_brk (put_tags p n al s) = mem_start_brk s" "mem_brk (put_tags p n al s) = mem_brk s"
  "mem_max_addr (put_tags p n al s) = mem_max_addr s" "flist_first (put_tags p n al s) = flist_first s"
  "prologue (put_tags p n al s) = prologue s" "epilogue (put_tags p n al s) = epilogue s"
  "in_store (put_tags p n al s) a \<longleftrightarrow> in_store s a"
  by (simp_all add: put_tags_def)

lemma mem_put_tags: "mem (put_tags p n al s) w = (if w = p + n - 8 \<or> w = p then tag n al else mem s w)"
  by (simp add: put_tags_def)

lemma ring_cong: "ring m ps \<Longrightarrow> (\<And>w. w \<in> ptr_words ps \<Longrightarrow> m' w = m w) \<Longrightarrow> ring m' ps"
proof (cases "ps = []")
  case False
  assume r: "ring m ps" and eq: "\<And>w. w \<in> ptr_words ps \<Longrightarrow> m' w = m w"
  have "links m' ps"
  proof (rule links_cong)
    show "links m ps" using r False by (simp add: ring_def)
    show "m' (x + 8) = m (x + 8)" if "x \<in> set (butlast ps)" for x
      using that by (intro eq) (auto simp: ptr_words_def dest: in_set_butlastD)
    show "m' (y + 16) = m (y + 16)" if "y \<in> set (tl ps)" for y
      using that False by (intro eq) (auto simp: ptr_words_def dest: list.set_sel(2))
  qed
  moreover have "m' (last ps + 8) = m (last ps + 8)" "m' (hd ps + 16) = m (hd ps + 16)"
    using False by (auto intro!: eq simp: ptr_words_def)
  ultimately show ?thesis using r False by (simp add: ring_def)
qed (simp add: ring_def)

text \<open>Tag words of one block are not pointer words of free blocks.\<close>

lemma tag_not_ptr:
  assumes ok: "heap_ok s bs" and ps: "\<forall>p \<in> set ps. \<exists>n. (p, n, False) \<in> bset s bs"
    and b: "(q, k, al) \<in> bset s bs"
  shows "q \<notin> ptr_words ps" "q + k - 8 \<notin> ptr_words ps"
proof -
  have wf: "wf_seq bs" using ok by (simp add: heap_ok_def)
  have k: "32 \<le> k" by (rule heap_ok_block(1) [OF ok b])
  have "q \<noteq> p + 8 \<and> q \<noteq> p + 16 \<and> q + k - 8 \<noteq> p + 8 \<and> q + k - 8 \<noteq> p + 16" if p: "p \<in> set ps" for p
  proof -
    obtain n where n: "(p, n, False) \<in> bset s bs" using bspec [OF ps p] by blast
    have "32 \<le> n" by (rule heap_ok_block(1) [OF ok n])
    with blocks_disjoint [OF wf n b] k show ?thesis by (elim disjE) auto
  qed
  then show "q \<notin> ptr_words ps" "q + k - 8 \<notin> ptr_words ps" by (auto simp: ptr_words_def)
qed

text \<open>The words of free blocks, where the free-list operations write.\<close>

definition free_words :: "heap \<Rightarrow> block_seq \<Rightarrow> nat set" where
  "free_words s bs = {w. \<exists>p n. (p, n, False) \<in> bset s bs \<and> p \<le> w \<and> w < p + n}"

lemma ptr_words_free:
  assumes ok: "heap_ok s bs" and ps: "\<forall>p \<in> set ps. \<exists>n. (p, n, False) \<in> bset s bs"
  shows "ptr_words ps \<subseteq> free_words s bs"
proof
  fix w assume "w \<in> ptr_words ps"
  then obtain p where p: "p \<in> set ps" "w = p + 8 \<or> w = p + 16" by (auto simp: ptr_words_def)
  obtain n where n: "(p, n, False) \<in> bset s bs" using bspec [OF ps p(1)] by blast
  have "32 \<le> n" by (rule heap_ok_block(1) [OF ok n])
  then have "p \<le> w \<and> w < p + n" using p(2) by auto
  then show "w \<in> free_words s bs" using n unfolding free_words_def by blast
qed

section \<open>The free list is short\<close>

lemma finite_blocks [simp]: "finite (blocks a bs)"
  by (induction a bs rule: blocks.induct) auto

lemma card_blocks: "card (blocks a bs) \<le> length bs"
proof (induction a bs rule: blocks.induct)
  case (2 a n al bs)
  then show ?case using card_insert_le_m1 [of "Suc (length bs)" "blocks (a + n) bs"] by simp
qed simp

lemma length_total: "wf_seq bs \<Longrightarrow> 32 * length bs \<le> total bs"
  by (induction bs) auto

lemma list_fuel_enough:
  assumes ok: "heap_ok s bs" and d: "distinct ps" and ps: "\<forall>p \<in> set ps. \<exists>n. (p, n, False) \<in> bset s bs"
  shows "length ps < list_fuel s" "length bs < list_fuel s"
proof -
  have "set ps \<subseteq> fst ` bset s bs"
  proof
    fix p assume "p \<in> set ps"
    then obtain n where "(p, n, False) \<in> bset s bs" using ps by blast
    then show "p \<in> fst ` bset s bs" by (rule rev_image_eqI) simp
  qed
  then have "card (set ps) \<le> card (bset s bs)" by (meson card_image_le card_mono finite_blocks finite_imageI order_trans)
  then have "length ps \<le> length bs" using card_blocks [of "mem_start_brk s" bs] distinct_card [OF d] by simp
  moreover have "32 * length bs \<le> mem_max_addr s - mem_start_brk s"
    using ok length_total [of bs] unfolding heap_ok_def by linarith
  then have "length bs \<le> (mem_max_addr s - mem_start_brk s) div 8" by simp
  ultimately show "length ps < list_fuel s" "length bs < list_fuel s" by (simp_all add: list_fuel_def)
qed

section \<open>Walking the free list\<close>

lemma free_list_block:
  assumes "free_list s bs ps" "p \<in> set ps"
  shows "\<exists>n. (p, n, False) \<in> bset s bs"
  using assms unfolding free_list_def by blast

lemma free_list_next:
  assumes ok: "heap_ok s bs" and fl: "free_list s bs (pre @ x # y # cs)"
  shows "block_next_free x s = Some y" "y \<noteq> flist_first s"
proof -
  obtain n where n: "(x, n, False) \<in> bset s bs" using free_list_block [OF fl, of x] by auto
  have "links (mem s) (pre @ x # y # cs)" and d: "distinct (pre @ x # y # cs)"
    and f: "flist_first s = first (pre @ x # y # cs)" using fl by (auto simp: free_list_def ring_def)
  then have "mem s (x + 8) = y" using links_append [of "mem s" pre "x # y # cs"] by simp
  then show "block_next_free x s = Some y" using ptr_laws(1) [OF ok n] by simp
  show "y \<noteq> flist_first s" using d f by (cases pre) (auto simp: first_def)
qed

lemma free_list_wrap:
  assumes ok: "heap_ok s bs" and fl: "free_list s bs (pre @ [x])"
  shows "block_next_free x s = Some (flist_first s)"
proof -
  obtain n where n: "(x, n, False) \<in> bset s bs" using free_list_block [OF fl, of x] by auto
  have "mem s (x + 8) = hd (pre @ [x])" "flist_first s = hd (pre @ [x])"
    using fl by (auto simp: free_list_def ring_def first_hd)
  then show ?thesis using ptr_laws(1) [OF ok n] by simp
qed

lemma coalesce_loop_finds:
  assumes ok: "heap_ok s bs"
  shows "free_list s bs (pre @ cs) \<Longrightarrow> pre \<noteq> [] \<Longrightarrow> p \<in> set cs \<Longrightarrow> length cs \<le> fuel \<Longrightarrow>
    coalesce_loop fuel (hd cs) p s = Some True"
proof (induction cs arbitrary: pre fuel)
  case (Cons x cs)
  then obtain f where f: "fuel = Suc f" by (cases fuel) auto
  have ne: "flist_first s \<noteq> x"
    using Cons.prems(1,2) by (cases pre) (auto simp: free_list_def first_def)
  show ?case
  proof (cases "x = p")
    case True
    then show ?thesis using f ne by simp
  next
    case False
    then obtain y cs' where cs: "cs = y # cs'" using Cons.prems(3) by (cases cs) auto
    have "block_next_free x s = Some y" using free_list_next(1) [OF ok] Cons.prems(1) cs by blast
    moreover have "coalesce_loop f (hd cs) p s = Some True"
      using Cons.IH [of "pre @ [x]" f] Cons.prems False f by simp
    ultimately show ?thesis using f ne False cs by simp
  qed
qed simp

lemma coalesce_helper_finds:
  assumes ok: "heap_ok s bs" and fl: "free_list s bs ps" and p: "p \<in> set ps"
  shows "coalesce_helper p s = Some True"
proof -
  obtain q cs where ps: "ps = q # cs" using p by (cases ps) auto
  have f: "flist_first s = q" using fl ps by (simp add: free_list_def first_def)
  show ?thesis
  proof (cases "q = p")
    case False
    then obtain y cs' where cs: "cs = y # cs'" using p ps by (cases cs) auto
    have "block_next_free q s = Some y" using free_list_next(1) [OF ok, of "[]" q y cs'] fl ps cs by simp
    moreover have "coalesce_loop (list_fuel s) y p s = Some True"
      using coalesce_loop_finds [OF ok, of "[q]" cs p "list_fuel s"] fl ps cs p False
        list_fuel_enough(1) [OF ok, of ps] by (simp add: free_list_def)
    ultimately show ?thesis using False f by (simp add: coalesce_helper_def)
  qed (use f in \<open>simp add: coalesce_helper_def\<close>)
qed

definition bsz :: "heap \<Rightarrow> nat \<Rightarrow> nat" where
  "bsz s p = and_m2 (mem s p)"

lemma bsz_block: "heap_ok s bs \<Longrightarrow> (p, n, al) \<in> bset s bs \<Longrightarrow> bsz s p = n"
  using heap_ok_block [of s bs p n al] tag_laws [of n al] by (simp add: bsz_def)

text \<open>What the loop of \<open>mm_malloc\<close> knows after the blocks \<open>pre\<close>.\<close>

definition best_inv :: "heap \<Rightarrow> nat \<Rightarrow> nat set \<Rightarrow> nat \<Rightarrow> nat \<Rightarrow> bool" where
  "best_inv s nsize P mn best \<longleftrightarrow>
     (best = 0 \<and> mn = UINT_MAX \<and> (\<forall>p \<in> P. bsz s p < nsize)) \<or>
     (best \<in> P \<and> nsize \<le> bsz s best \<and> mn = bsz s best - nsize \<and> (\<forall>p \<in> P. nsize \<le> bsz s p \<longrightarrow> bsz s best \<le> bsz s p))"

lemma smallest_id: "diff \<le> nsize \<Longrightarrow> smallest nsize csize diff = diff"
proof -
  assume "diff \<le> nsize"
  then have "\<not> nsize < diff div 2" using div_le_dividend [of diff 2] by linarith
  then show ?thesis by (subst smallest.simps) simp
qed

lemma best_inv_step:
  assumes inv: "best_inv s nsize P mn best" and b: "bsz s x < 2 ^ 31" "nsize < 2 ^ 31"
  defines "d \<equiv> to_int (sub64 (bsz s x) nsize)"
  defines "diff \<equiv> smallest (bsz s x) nsize (nat d)"
  shows "(d \<ge> 0 \<and> diff < mn \<longrightarrow> best_inv s nsize (insert x P) diff x)
    \<and> (\<not> (d \<ge> 0 \<and> diff < mn) \<longrightarrow> best_inv s nsize (insert x P) mn best)"
proof -
  have d: "d = int (bsz s x) - int nsize" using to_int_sub64 [OF b] by (simp add: d_def)
  then have "nat d \<le> bsz s x" by simp
  then have diff: "diff = bsz s x - nsize" using d by (simp add: diff_def smallest_id)
  have "bsz s x - nsize < UINT_MAX" using b(1) by simp
  then show ?thesis using inv d diff b(2) unfolding best_inv_def by auto
qed

lemma best_fit_finds:
  assumes ok: "heap_ok s bs" and n: "nsize < 2 ^ 31"
  shows "free_list s bs (pre @ cs) \<Longrightarrow> cs \<noteq> [] \<Longrightarrow> length cs \<le> fuel \<Longrightarrow> best_inv s nsize (set pre) mn best \<Longrightarrow>
    \<exists>mn' best'. best_fit fuel nsize (hd cs) mn best s = Some best' \<and> best_inv s nsize (set (pre @ cs)) mn' best'"
proof (induction cs arbitrary: pre fuel mn best)
  case (Cons x cs)
  then obtain f where f: "fuel = Suc f" by (cases fuel) auto
  obtain k where k: "(x, k, False) \<in> bset s bs" using free_list_block [OF Cons.prems(1), of x] by auto
  have size: "block_size x s = Some (bsz s x)" "bsz s x < 2 ^ 31"
    using block_laws(2) [OF ok k] bsz_block [OF ok k] heap_ok_block(10) [OF ok k] by simp_all
  let ?d = "to_int (sub64 (bsz s x) nsize)"
  let ?diff = "smallest (bsz s x) nsize (nat ?d)"
  define mn' where "mn' = (if ?d \<ge> 0 \<and> ?diff < mn then ?diff else mn)"
  define best' where "best' = (if ?d \<ge> 0 \<and> ?diff < mn then x else best)"
  have pr: "(if ?d \<ge> 0 \<and> ?diff < mn then (?diff, x) else (mn, best)) = (mn', best')"
    by (simp add: mn'_def best'_def)
  have inv: "best_inv s nsize (set (pre @ [x])) mn' best'"
    using best_inv_step [OF Cons.prems(4) size(2) n] by (simp add: mn'_def best'_def)
  show ?case
  proof (cases cs)
    case Nil
    then have "block_next_free x s = Some (flist_first s)" using free_list_wrap [OF ok] Cons.prems(1) by simp
    then have "best_fit fuel nsize x mn best s = Some best'" using f size(1) pr by (simp add: Let_def)
    then show ?thesis using inv Nil by auto
  next
    case (Cons y cs')
    then have nx: "block_next_free x s = Some y" "y \<noteq> flist_first s"
      using free_list_next [OF ok] Cons.prems(1) by blast+
    then have "best_fit fuel nsize x mn best s = best_fit f nsize y mn' best' s"
      using f size(1) pr by (simp add: Let_def)
    moreover have "free_list s bs ((pre @ [x]) @ cs)" "length cs \<le> f" using Cons.prems(1,3) f by simp_all
    ultimately show ?thesis using Cons.IH [OF _ _ _ inv, of f] Cons by simp
  qed
qed simp

section \<open>Splitting\<close>

lemma alloc_not_free:
  assumes ok: "heap_ok s bs" and b: "(p, n, True) \<in> bset s bs" and w: "p \<le> w" "w < p + n"
  shows "w \<notin> free_words s bs"
proof
  assume "w \<in> free_words s bs"
  then obtain q k where q: "(q, k, False) \<in> bset s bs" "q \<le> w" "w < q + k" unfolding free_words_def by blast
  have "wf_seq bs" using ok by (simp add: heap_ok_def)
  from blocks_disjoint [OF this b q(1)] show False using w q(2,3) by (elim disjE) simp_all
qed

lemma free_list_transfer:
  assumes "free_list s bs ps" and "\<And>w. w \<in> ptr_words ps \<Longrightarrow> mem s' w = mem s w"
    and "flist_first s' = flist_first s" and "\<And>p. p \<in> set ps \<Longrightarrow> \<exists>n. (p, n, False) \<in> bset s' bs'"
  shows "free_list s' bs' ps"
  using assms ring_cong [of "mem s" ps "mem s'"] by (simp add: free_list_def)

lemma split_block_ok:
  assumes ok: "heap_ok s (xs @ (n, True) # ys)" and fl: "free_list s (xs @ (n, True) # ys) ps"
    and p: "p = mem_start_brk s + total xs" and k: "32 \<le> nsize" "8 dvd nsize" "nsize \<le> n"
  shows "\<exists>m' bs' ps'. split_block p nsize s = Some (p, s\<lparr>mem := m', flist_first := first ps'\<rparr>)
    \<and> heap_ok (s\<lparr>mem := m'\<rparr>) bs' \<and> free_list (s\<lparr>mem := m', flist_first := first ps'\<rparr>) bs' ps'
    \<and> (bs' = (xs @ (n, True) # ys) \<and> ps' = ps \<or> bs' = xs @ (nsize, True) # (n - nsize, False) # ys \<and> ps' = (p + nsize) # ps \<and> 32 \<le> n - nsize)
    \<and> (\<forall>w. w \<notin> {p..<p + n} \<union> free_words s (xs @ (n, True) # ys) \<longrightarrow> m' w = mem s w)"
proof -
  let ?bs = "xs @ (n, True) # ys"
  have b: "(p, n, True) \<in> bset s ?bs" using p by simp
  note bb = heap_ok_block [OF ok b]
  have diff: "sub64 n nsize = n - nsize" using sub64_ge [of nsize n] k(3) bb(10) by simp
  have dbl: "u64 (2 * nsize) = 2 * nsize" using k(3) bb(10) by simp
  have ffl: "flist_first s = first ps" using fl by (simp add: free_list_def)
  show ?thesis
  proof (cases "n - nsize \<ge> 2 * nsize \<and> n - nsize \<ge> 32")
    case False
    then have "split_block p nsize s = Some (p, s)"
      using block_laws(2) [OF ok b] diff dbl by (auto simp: split_block_def)
    moreover have "s = s\<lparr>mem := mem s, flist_first := first ps\<rparr>" using ffl by simp
    ultimately show ?thesis using ok fl by (intro exI [of _ "mem s"] exI [of _ ?bs] exI [of _ ps]) simp
  next
    case True
    define d where "d = n - nsize"
    have d: "32 \<le> d" "8 dvd d" "nsize + d = n" using True k bb(2) by (auto simp: d_def dvd_diff_nat)
    let ?q = "p + nsize"
    let ?s1 = "put_tags p nsize True s"
    let ?s2 = "put_tags ?q d False ?s1"
    have st: "in_store s p" "in_store s (p + nsize - 8)" "in_store s ?q" "in_store s (?q + d - 8)"
      using in_store_block [OF ok b, of 0] in_store_block [OF ok b, of "nsize - 8"] in_store_block [OF ok b, of nsize]
        in_store_block [OF ok b, of "n - 8"] k d bb(1,2) by (simp_all add: dvd_diff_nat add.assoc)
    have lt: "nsize < 2 ^ 63" "d < 2 ^ 63" using d(3) bb(10) by simp_all
    have e1: "block_set_size_and_allocated p nsize True s = Some ?s1"
      by (rule set_size_and_allocated [OF k(2,1) st(1,2) lt(1)])
    have e2: "block_set_size_and_allocated ?q d False ?s1 = Some ?s2"
      by (rule set_size_and_allocated) (use d st lt in simp_all)
    have "and_m2 (tag nsize True) = nsize" using tag_laws(2) [OF k(2)] k(1) by simp
    moreover have ne: "p \<noteq> ?q" "p \<noteq> ?q + d - 8" "p \<noteq> ?q - 8" "?q - 8 \<noteq> ?q" "?q - 8 \<noteq> ?q + d - 8" using k d by linarith+
    then have "mem ?s1 p = tag nsize True" "mem ?s2 p = tag nsize True"
      by (simp_all add: mem_put_tags)
    ultimately have nx: "block_next p ?s1 = Some ?q" "block_next p ?s2 = Some ?q"
      using st(1) by (simp_all add: block_next_def block_size_def load_Some)
    let ?bs2 = "xs @ [(nsize, True), (d, False)] @ ys"
    have "heap_ok (s\<lparr>mem := mem ?s2\<rparr>) ?bs2"
    proof (rule heap_ok_replace [of s xs "[(n, True)]" ys])
      show "tagged (mem ?s2) (blocks (mem_start_brk s + total xs) [(nsize, True), (d, False)])"
        using ne by (simp add: mem_put_tags p [symmetric])
    qed (use ok d k in \<open>auto simp: mem_put_tags p [symmetric]\<close>)
    then have ok2: "heap_ok ?s2 ?bs2" by (simp add: put_tags_def)
    have out: "mem ?s2 w = mem s w" if "w \<notin> {p..<p + n}" for w using that k d by (auto simp: mem_put_tags)
    have fr: "\<forall>p \<in> set ps. \<exists>n. (p, n, False) \<in> bset s ?bs" using fl by (simp add: free_list_def)
    have ptr: "w \<notin> {p..<p + n}" if "w \<in> ptr_words ps" for w
      using alloc_not_free [OF ok b, of w] ptr_words_free [OF ok fr] that by auto
    have fl2: "free_list ?s2 ?bs2 ps"
    proof (rule free_list_transfer [OF fl])
      show "\<exists>n. (x, n, False) \<in> bset ?s2 ?bs2" if "x \<in> set ps" for x
        using free_list_block [OF fl that] d p by (auto simp: add.assoc)
    qed (use out ptr in simp_all)
    have new: "?q \<notin> set ps"
    proof
      assume "?q \<in> set ps"
      then have "?q + 8 \<in> ptr_words ps" by (simp add: ptr_words_def)
      then show False using ptr d by fastforce
    qed
    have qb: "(?q, d, False) \<in> bset ?s2 ?bs2" using p by simp
    obtain m' where m': "insert_free_block ?q ?s2 = Some (?s2\<lparr>mem := m', flist_first := ?q\<rparr>)"
      "heap_ok (?s2\<lparr>mem := m'\<rparr>) ?bs2" "ring m' (?q # ps)" "\<forall>w. w \<notin> ptr_words (?q # ps) \<longrightarrow> m' w = mem ?s2 w"
      using insert_free_block_ok [OF ok2 fl2 qb new] by blast
    have eq: "?s2\<lparr>mem := m', flist_first := ?q\<rparr> = s\<lparr>mem := m', flist_first := first (?q # ps)\<rparr>"
      "?s2\<lparr>mem := m'\<rparr> = s\<lparr>mem := m'\<rparr>" by (simp_all add: put_tags_def first_def)
    have "split_block p nsize s = Some (p, s\<lparr>mem := m', flist_first := first (?q # ps)\<rparr>)"
      using block_laws(2) [OF ok b] diff dbl True e1 nx e2 m'(1) eq(1) by (simp add: split_block_def d_def [symmetric])
    moreover have "free_list (s\<lparr>mem := m', flist_first := first (?q # ps)\<rparr>) ?bs2 (?q # ps)"
      using fl2 m'(3) new qb by (auto simp: free_list_def)
    moreover have "m' w = mem s w" if "w \<notin> {p..<p + n} \<union> free_words s ?bs" for w
    proof -
      have "w \<notin> ptr_words ps" using that ptr_words_free [OF ok fr] by blast
      moreover have "w \<noteq> ?q + 8" "w \<noteq> ?q + 16" using that d by auto
      ultimately show ?thesis using m'(4) out that by (simp add: ptr_words_def)
    qed
    moreover have "heap_ok (s\<lparr>mem := m'\<rparr>) ?bs2" using m'(2) unfolding eq(2) .
    ultimately show ?thesis using d(1) by (intro exI [of _ m'] exI [of _ ?bs2] exI [of _ "?q # ps"]) (simp add: d_def)
  qed
qed

section \<open>The allocator invariant\<close>

definition free_at :: "nat \<Rightarrow> block_seq \<Rightarrow> nat set" where
  "free_at a bs = {p. \<exists>n. (p, n, False) \<in> blocks a bs}"

definition used_at :: "nat \<Rightarrow> block_seq \<Rightarrow> (nat \<times> nat) set" where
  "used_at a bs = {(p, n). (p, n, True) \<in> blocks a bs}"

lemma free_at_simps [simp]: "free_at a [] = {}"
  "free_at a ((n, al) # bs) = (if al then {} else {a}) \<union> free_at (a + n) bs"
  "free_at a (xs @ ys) = free_at a xs \<union> free_at (a + total xs) ys"
  by (auto simp: free_at_def)

lemma used_at_simps [simp]: "used_at a [] = {}"
  "used_at a ((n, al) # bs) = (if al then {(a, n)} else {}) \<union> used_at (a + n) bs"
  "used_at a (xs @ ys) = used_at a xs \<union> used_at (a + total xs) ys"
  by (auto simp: used_at_def)

lemma free_at_bounds: "wf_seq bs \<Longrightarrow> p \<in> free_at a bs \<Longrightarrow> a \<le> p \<and> p + 32 \<le> a + total bs"
  by (induction a bs rule: blocks.induct) (fastforce simp: split: if_splits)+

lemma used_at_bounds: "wf_seq bs \<Longrightarrow> (p, n) \<in> used_at a bs \<Longrightarrow> a \<le> p \<and> p + n \<le> a + total bs \<and> 32 \<le> n"
  by (induction a bs rule: blocks.induct) (fastforce simp: split: if_splits)+

definition heap_inv :: "heap \<Rightarrow> block_seq \<Rightarrow> nat list \<Rightarrow> bool" where
  "heap_inv s mid ps \<longleftrightarrow> (let bs = (32, True) # mid @ [(32, True)] in
     heap_ok s bs \<and> free_list s bs ps \<and> set ps = free_at (mem_start_brk s) bs
     \<and> prologue s = mem_start_brk s \<and> mem_brk s = mem_start_brk s + total bs
     \<and> epilogue s + 32 = mem_brk s)"

text \<open>The blocks in use: the allocated blocks between the prologue and the epilogue.\<close>

definition used :: "heap \<Rightarrow> block_seq \<Rightarrow> (nat \<times> nat) set" where
  "used s mid = used_at (mem_start_brk s + 32) mid"

lemma request_size_ok:
  assumes "0 < k" "k \<le> 2 ^ 31 - 32"
  shows "32 \<le> request_size k" "8 dvd request_size k" "request_size k < 2 ^ 31" "k + 16 \<le> request_size k"
proof -
  let ?a = "(k + 7) div 8 * 8"
  have "align k = ?a" using assms(2) by (simp add: align_def)
  moreover have a: "?a \<le> k + 7" "k \<le> ?a" "8 dvd ?a" by simp_all
  moreover have "?a \<le> (2 ^ 31 - 32 + 7) div 8 * 8" using assms(2) by (intro mult_le_mono1 div_le_mono add_le_mono1)
  then have le: "?a \<le> 2 ^ 31 - 32" by simp
  ultimately have r: "request_size k = max (?a + 16) 32" by (simp add: request_size_def)
  show "32 \<le> request_size k" "8 dvd request_size k" "k + 16 \<le> request_size k" unfolding r using a by (auto simp: max_def)
  show "request_size k < 2 ^ 31" unfolding r using le by simp
qed

text \<open>Taking a block off the free list and marking it allocated.\<close>

lemma take_block:
  assumes ok: "heap_ok s (xs @ (n, False) # ys)" and fl: "free_list s (xs @ (n, False) # ys) ps"
    and p: "p = mem_start_brk s + total xs" "p \<in> set ps"
  shows "\<exists>m'. (do { s \<leftarrow> pull_free_block p s; bsize \<leftarrow> block_size p s; block_set_size_and_allocated p bsize True s })
       = Some (s\<lparr>mem := m', flist_first := first (remove1 p ps)\<rparr>)
    \<and> heap_ok (s\<lparr>mem := m'\<rparr>) (xs @ (n, True) # ys)
    \<and> free_list (s\<lparr>mem := m', flist_first := first (remove1 p ps)\<rparr>) (xs @ (n, True) # ys) (remove1 p ps)
    \<and> (\<forall>w. w \<notin> free_words s (xs @ (n, False) # ys) \<longrightarrow> m' w = mem s w)"
proof -
  let ?bs = "xs @ (n, False) # ys" and ?ps = "remove1 p ps"
  have b: "(p, n, False) \<in> bset s ?bs" using p by simp
  have d: "distinct ps" and fr: "\<forall>p \<in> set ps. \<exists>n. (p, n, False) \<in> bset s ?bs" using fl by (simp_all add: free_list_def)
  obtain m where m: "pull_free_block p s = Some (s\<lparr>mem := m, flist_first := first ?ps\<rparr>)"
    "heap_ok (s\<lparr>mem := m\<rparr>) ?bs" "ring m ?ps" "\<forall>w. w \<notin> ptr_words ps \<longrightarrow> m w = mem s w"
    using pull_free_block_ok [OF ok fl p(2)] by blast
  let ?t = "s\<lparr>mem := m, flist_first := first ?ps\<rparr>"
  have okt: "heap_ok ?t ?bs" using m(2) by (simp add: heap_ok_def)
  have bs: "block_size p ?t = Some n" using block_laws(2) [OF okt, of p n False] b by simp
  have mg: "block_set_size_and_allocated p n True ?t = Some (put_tags p n True ?t)"
    "heap_ok (put_tags p n True ?t) (xs @ (n, True) # ys)"
    using heap_ok_merge [of ?t xs "[(n, False)]" ys p n True] okt p(1) by simp_all
  let ?m = "mem (put_tags p n True ?t)"
  have eq: "put_tags p n True ?t = s\<lparr>mem := ?m, flist_first := first ?ps\<rparr>" by (simp add: put_tags_def)
  have fr1: "\<forall>q \<in> set ?ps. \<exists>n. (q, n, False) \<in> bset ?t ?bs" using fr notin_set_remove1 by fastforce
  have ring: "ring ?m ?ps"
  proof (rule ring_cong [OF m(3)])
    fix w assume "w \<in> ptr_words ?ps"
    then show "?m w = m w" using tag_not_ptr [OF okt fr1, of p n False] b by (auto simp: mem_put_tags)
  qed
  have "\<exists>k. (q, k, False) \<in> bset s (xs @ (n, True) # ys)" if q: "q \<in> set ?ps" for q
  proof -
    obtain k where "(q, k, False) \<in> bset s ?bs" using bspec [OF fr1 q] by auto
    moreover have "q \<noteq> p" using q d by auto
    ultimately show ?thesis using p(1) by auto
  qed
  then have "free_list (s\<lparr>mem := ?m, flist_first := first ?ps\<rparr>) (xs @ (n, True) # ys) ?ps"
    using ring d by (simp add: free_list_def)
  moreover have "?m w = mem s w" if w: "w \<notin> free_words s ?bs" for w
  proof -
    have "p \<noteq> w" "p + n - 8 \<noteq> w" using w b heap_ok_block(1) [OF ok b] unfolding free_words_def by fastforce+
    then show ?thesis using w m(4) ptr_words_free [OF ok fr] by (auto simp: mem_put_tags)
  qed
  moreover have "heap_ok (s\<lparr>mem := ?m\<rparr>) (xs @ (n, True) # ys)" using mg(2) by (simp add: heap_ok_def put_tags_def)
  moreover have "(do { s \<leftarrow> pull_free_block p s; bsize \<leftarrow> block_size p s; block_set_size_and_allocated p bsize True s })
       = Some (s\<lparr>mem := ?m, flist_first := first ?ps\<rparr>)" using m(1) bs mg(1) eq by simp
  ultimately show ?thesis by blast
qed

section \<open>Extending the heap\<close>

lemma extend_heap_fails:
  assumes "nsize < 2 ^ 31" "mem_max_addr s < mem_brk s + nsize"
  shows "extend_heap nsize s = Some (0, s)"
  using assms by (simp add: extend_heap_def to_int_small mem_sbrk_def)

lemma extend_heap_ok:
  assumes inv: "heap_inv s mid ps" and n: "32 \<le> nsize" "8 dvd nsize" "nsize < 2 ^ 31"
    and room: "mem_brk s + nsize \<le> mem_max_addr s"
  shows "\<exists>s'. extend_heap nsize s = Some (epilogue s + 8, s') \<and> heap_inv s' (mid @ [(nsize, True)]) ps
    \<and> mem_start_brk s' = mem_start_brk s \<and> mem_max_addr s' = mem_max_addr s
    \<and> epilogue s = mem_start_brk s + 32 + total mid \<and> (\<forall>w < epilogue s. mem s' w = mem s w)"
proof -
  let ?e = "epilogue s" and ?bs = "(32, True) # mid @ [(32, True)]"
  let ?bs' = "(32, True) # (mid @ [(nsize, True)]) @ [(32, True)]"
  have ok: "heap_ok s ?bs" and fl: "free_list s ?bs ps" and fs: "set ps = free_at (mem_start_brk s) ?bs"
    and pr: "prologue s = mem_start_brk s" and brk: "mem_brk s = mem_start_brk s + total ?bs" "?e + 32 = mem_brk s"
    using inv by (simp_all add: heap_inv_def Let_def)
  have e: "?e = mem_start_brk s + 32 + total mid" using brk by simp
  have wf: "wf_seq mid" and al: "8 dvd mem_start_brk s" and mx: "mem_max_addr s < 2 ^ 63" using ok by (simp_all add: heap_ok_def)
  have al_e: "8 dvd ?e" using e al wf_total [OF wf] by simp
  let ?s0 = "s\<lparr>mem_brk := mem_brk s + nsize\<rparr>"
  let ?s1 = "put_tags ?e nsize True ?s0" let ?s2 = "put_tags (?e + nsize) 32 True ?s1"
  have st: "in_store s ?e" "in_store s (?e + nsize - 8)" "in_store s (?e + nsize)" "in_store s (?e + nsize + 32 - 8)"
  proof -
    obtain i j where "?e = 8 * i" "nsize = 8 * j" using al_e n(2) by blast
    then have "8 dvd ?e" "8 dvd ?e + nsize - 8" "8 dvd ?e + nsize" "8 dvd ?e + nsize + 32 - 8"
      by (simp_all add: dvd_diff_nat)
    then show "in_store s ?e" "in_store s (?e + nsize - 8)" "in_store s (?e + nsize)" "in_store s (?e + nsize + 32 - 8)"
      unfolding in_store_def using n(1) room brk(2) e by auto
  qed
  have e1: "block_set_size_and_allocated ?e nsize True ?s0 = Some ?s1"
    by (rule set_size_and_allocated) (use n st in simp_all)
  have e2: "block_set_size_and_allocated (?e + nsize) 32 True ?s1 = Some ?s2"
    by (rule set_size_and_allocated) (use st in simp_all)
  have sbrk: "mem_sbrk (to_int nsize) s = (Some (mem_brk s), ?s0)"
    using room n by (simp add: mem_sbrk_def to_int_small nat_add_distrib)
  have tn: "and_m2 (tag nsize True) = nsize" using tag_laws(2) [OF n(2)] n(1) by simp
  have ne: "?e \<noteq> ?e + nsize" "?e \<noteq> ?e + nsize + 32 - 8" "?e + nsize - 8 \<noteq> ?e + nsize"
    "?e + nsize - 8 \<noteq> ?e + nsize + 32 - 8" "?e \<noteq> ?e + nsize - 8" using n(1) by linarith+
  then have m: "mem ?s1 ?e = tag nsize True" "mem ?s2 ?e = tag nsize True" by (simp_all add: mem_put_tags)
  have nx: "block_next ?e ?s1 = Some (?e + nsize)" "block_size ?e ?s2 = Some nsize"
    using st(1) m tn by (simp_all add: block_next_def block_size_def load_Some)
  have z: "sub64 nsize nsize = 0" "u64 (2 * nsize) \<noteq> 0" using sub64_ge [of nsize nsize] n by simp_all
  have sp: "split_block ?e nsize ?s2 = Some (?e, ?s2)" using nx(2) z by (simp add: split_block_def)
  let ?s' = "?s2\<lparr>epilogue := ?e + nsize\<rparr>"
  have call: "extend_heap nsize s = Some (?e + 8, ?s')"
    using sbrk e1 nx(1) e2 sp by (simp add: extend_heap_def)
  have low: "mem ?s' w = mem s w" if "w < ?e" for w
  proof -
    have "w \<noteq> ?e" "w \<noteq> ?e + nsize - 8" "w \<noteq> ?e + nsize" "w \<noteq> ?e + nsize + 32 - 8" using that n(1) by linarith+
    then show ?thesis by (simp add: mem_put_tags)
  qed
  have "tagged (mem ?s') (blocks (mem_start_brk s) ((32, True) # mid))"
    by (rule tagged_cong [of _ "mem s"]) (use ok low e in \<open>simp_all add: heap_ok_def\<close>)
  moreover have "tagged (mem ?s') {(?e, nsize, True), (?e + nsize, 32, True)}"
    using ne by (simp add: mem_put_tags)
  ultimately have ok': "heap_ok ?s' ?bs'"
    using ok room brk n by (simp add: heap_ok_def e add.assoc)
  have fl': "free_list ?s' ?bs' ps"
  proof (rule free_list_transfer [OF fl])
    have fr: "\<forall>p \<in> set ps. \<exists>n. (p, n, False) \<in> bset s ?bs" using fl by (simp add: free_list_def)
    have eb: "(?e, 32, True) \<in> bset s ?bs" using e by simp
    show "mem ?s' w = mem s w" if "w \<in> ptr_words ps" for w
    proof -
      have wf': "w \<in> free_words s ?bs" using that ptr_words_free [OF ok fr] by blast
      then obtain q k where q: "(q, k, False) \<in> bset s ?bs" "w < q + k" unfolding free_words_def by blast
      have "q + k \<le> mem_brk s" using heap_ok_block(7) [OF ok q(1)] brk by simp
      then have "\<not> ?e \<le> w" using alloc_not_free [OF ok eb, of w] wf' q(2) brk by auto
      then show ?thesis using low by simp
    qed
    show "\<exists>n. (p, n, False) \<in> bset ?s' ?bs'" if "p \<in> set ps" for p
      using free_list_block [OF fl that] by auto
  qed simp
  have "set ps = free_at (mem_start_brk ?s') ?bs'" "prologue ?s' = mem_start_brk ?s'"
    "mem_brk ?s' = mem_start_brk ?s' + total ?bs'" "epilogue ?s' + 32 = mem_brk ?s'"
    using fs pr brk by simp_all
  then have "heap_inv ?s' (mid @ [(nsize, True)]) ps"
    unfolding heap_inv_def Let_def using ok' fl' by blast
  moreover have "mem_start_brk ?s' = mem_start_brk s" "mem_max_addr ?s' = mem_max_addr s" by simp_all
  ultimately show ?thesis using call low e by blast
qed

section \<open>\<^verbatim>\<open>mm_malloc\<close>\<close>

lemma free_at_mem: "p \<in> free_at (mem_start_brk s) bs \<longleftrightarrow> (\<exists>n. (p, n, False) \<in> bset s bs)"
  by (simp add: free_at_def)

text \<open>The words of a block in use are outside every free block.\<close>

lemma used_not_free:
  assumes inv: "heap_inv s mid ps" and u: "(q, k) \<in> used s mid" and w: "q \<le> w" "w < q + k"
  shows "w \<notin> free_words s ((32, True) # mid @ [(32, True)])"
proof (rule alloc_not_free)
  show "heap_ok s ((32, True) # mid @ [(32, True)])" using inv by (simp add: heap_inv_def Let_def)
  show "(q, k, True) \<in> bset s ((32, True) # mid @ [(32, True)])" using u by (simp add: used_def used_at_def)
qed (use w in simp_all)

lemma malloc_fit:
  assumes inv: "heap_inv s mid ps" and n: "32 \<le> nsize" "8 dvd nsize"
    and p: "p \<in> set ps" "nsize \<le> bsz s p"
  shows "\<exists>s' mid' ps' n. (do {
        s \<leftarrow> pull_free_block p s;
        bsize \<leftarrow> block_size p s;
        s \<leftarrow> block_set_size_and_allocated p bsize True s;
        (best, s) \<leftarrow> split_block p nsize s;
        Some (best + 8, s)
      }) = Some (p + 8, s') \<and> heap_inv s' mid' ps' \<and> nsize \<le> n \<and> n \<le> bsz s p
    \<and> used s' mid' = insert (p, n) (used s mid) \<and> mem_start_brk s' = mem_start_brk s \<and> mem_max_addr s' = mem_max_addr s
    \<and> mem_brk s' = mem_brk s
    \<and> (\<exists>xs j ys. mid = xs @ (j, False) # ys \<and> (mid' = xs @ (j, True) # ys \<or> mid' = xs @ (nsize, True) # (j - nsize, False) # ys))
    \<and> (\<forall>w. w \<notin> free_words s ((32, True) # mid @ [(32, True)]) \<longrightarrow> mem s' w = mem s w)"
proof -
  let ?bs = "(32, True) # mid @ [(32, True)]" and ?a = "mem_start_brk s"
  have ok: "heap_ok s ?bs" and fl: "free_list s ?bs ps" and fs: "set ps = free_at ?a ?bs"
    and glob: "prologue s = ?a" "mem_brk s = ?a + total ?bs" "epilogue s + 32 = mem_brk s"
    using inv by (simp_all add: heap_inv_def Let_def)
  obtain n where "(p, n, False) \<in> bset s ?bs" using p(1) fs by (auto simp: free_at_def)
  then have "(p, n, False) \<in> blocks (?a + 32) mid" by auto
  then obtain xs ys where mid: "mid = xs @ (n, False) # ys" and px: "p = ?a + 32 + total xs"
    using blocks_split by blast
  let ?xs = "(32, True) # xs" and ?ys = "ys @ [(32, True)]"
  have bs: "?bs = ?xs @ (n, False) # ?ys" using mid by simp
  have px': "p = ?a + total ?xs" using px by simp
  have sz: "bsz s p = n" using bsz_block [OF ok, of p n False] bs px' by simp
  have d: "distinct ps" using fl by (simp add: free_list_def)
  obtain m where m: "(do { s \<leftarrow> pull_free_block p s; bsize \<leftarrow> block_size p s; block_set_size_and_allocated p bsize True s })
       = Some (s\<lparr>mem := m, flist_first := first (remove1 p ps)\<rparr>)"
    "heap_ok (s\<lparr>mem := m\<rparr>) (?xs @ (n, True) # ?ys)"
    "free_list (s\<lparr>mem := m, flist_first := first (remove1 p ps)\<rparr>) (?xs @ (n, True) # ?ys) (remove1 p ps)"
    "\<forall>w. w \<notin> free_words s ?bs \<longrightarrow> m w = mem s w"
    using take_block [of s ?xs n ?ys ps p] ok fl px' p(1) unfolding bs by blast
  define t where "t = s\<lparr>mem := m, flist_first := first (remove1 p ps)\<rparr>"
  have t: "mem_start_brk t = ?a" "mem t = m" "mem_max_addr t = mem_max_addr s" "mem_brk t = mem_brk s"
    "prologue t = prologue s" "epilogue t = epilogue s" by (simp_all add: t_def)
  have okt: "heap_ok t (?xs @ (n, True) # ?ys)" using m(2) by (simp add: heap_ok_def t_def)
  have flt: "free_list t (?xs @ (n, True) # ?ys) (remove1 p ps)" using m(3) by (simp only: t_def)
  have pt: "p = mem_start_brk t + total ?xs" and nle: "nsize \<le> n" using px' t p(2) sz by simp_all
  obtain m' bs' ps' where sp: "split_block p nsize t = Some (p, t\<lparr>mem := m', flist_first := first ps'\<rparr>)"
    "heap_ok (t\<lparr>mem := m'\<rparr>) bs'" "free_list (t\<lparr>mem := m', flist_first := first ps'\<rparr>) bs' ps'"
    "bs' = ?xs @ (n, True) # ?ys \<and> ps' = remove1 p ps \<or>
     bs' = ?xs @ (nsize, True) # (n - nsize, False) # ?ys \<and> ps' = (p + nsize) # remove1 p ps \<and> 32 \<le> n - nsize"
    "\<forall>w. w \<notin> {p..<p + n} \<union> free_words t (?xs @ (n, True) # ?ys) \<longrightarrow> m' w = mem t w"
    using split_block_ok [OF okt flt pt n nle] by blast
  let ?s = "t\<lparr>mem := m', flist_first := first ps'\<rparr>"
  have oks: "heap_ok ?s bs'" using sp(2) by (simp add: heap_ok_def)
  have wf: "wf_seq xs" "wf_seq ys" using ok mid by (simp_all add: heap_ok_def)
  have new: "p \<notin> free_at (?a + 32) xs" "p \<notin> free_at (p + n) ys"
    using free_at_bounds [OF wf(1), of p "?a + 32"] free_at_bounds [OF wf(2), of p "p + n"] px nle n(1) by auto
  have rm: "set (remove1 p ps) = free_at (?a + 32) xs \<union> free_at (p + n) ys"
    using d fs mid px new by (auto simp: set_remove1_eq add.assoc)
  obtain mid' n' where mid': "bs' = (32, True) # mid' @ [(32, True)]" "total mid' = total mid" "nsize \<le> n'" "n' \<le> n"
    "set ps' = free_at ?a bs'" "used_at (?a + 32) mid' = insert (p, n') (used_at (?a + 32) mid)"
    "mid' = xs @ (n, True) # ys \<or> mid' = xs @ (nsize, True) # (n - nsize, False) # ys"
  proof (cases "bs' = ?xs @ (n, True) # ?ys \<and> ps' = remove1 p ps")
    case True
    then show ?thesis using that [of "xs @ (n, True) # ys" n] mid px rm nle by (simp add: add.assoc)
  next
    case False
    then have s2: "bs' = ?xs @ (nsize, True) # (n - nsize, False) # ?ys" "ps' = (p + nsize) # remove1 p ps"
      using sp(4) by blast+
    show ?thesis
      by (rule that [of "xs @ (nsize, True) # (n - nsize, False) # ys" nsize])
        (use s2 mid px rm nle in \<open>auto simp: add.assoc\<close>)
  qed
  have "heap_inv ?s mid' ps'"
    unfolding heap_inv_def Let_def mid'(1) [symmetric]
    using oks sp(3) mid'(2,5) glob t by (simp add: mid'(1))
  moreover have "mem ?s w = mem s w" if w: "w \<notin> free_words s ?bs" for w
  proof -
    have "w \<notin> {p..<p + n}" using w unfolding free_words_def bs px' by fastforce
    moreover have "w \<notin> free_words t (?xs @ (n, True) # ?ys)"
      using w unfolding free_words_def bs t(1) by fastforce
    ultimately show ?thesis using sp(5) m(4) w t(2) by simp
  qed
  moreover have "(do { s \<leftarrow> pull_free_block p s; bsize \<leftarrow> block_size p s; s \<leftarrow> block_set_size_and_allocated p bsize True s;
        (best, s) \<leftarrow> split_block p nsize s; Some (best + 8, s) }) = Some (p + 8, ?s)"
  proof -
    obtain u k where "pull_free_block p s = Some u" "block_size p u = Some k" "block_set_size_and_allocated p k True u = Some t"
      using m(1) by (auto simp: t_def bind_eq_Some_conv)
    then show ?thesis using sp(1) by simp
  qed
  moreover have "\<exists>xs j ys. mid = xs @ (j, False) # ys \<and> (mid' = xs @ (j, True) # ys \<or> mid' = xs @ (nsize, True) # (j - nsize, False) # ys)"
    using mid mid'(7) by blast
  ultimately show ?thesis using mid'(1-6) sz t
    by (intro exI [of _ ?s] exI [of _ mid'] exI [of _ ps'] exI [of _ n']) (simp add: used_def)
qed

end
