(* ===== verification/MmFree.thy ===== *)
theory MmFree
  imports MmOps
begin

text \<open>
  Freeing and coalescing: \<open>coalesce\<close> merges a free block with its free neighbours, \<open>mm_free\<close>
  gives a block back.
\<close>

text \<open>Merging a run of blocks of which only the first may be on the free list.\<close>

lemma merge_free:
  assumes ok: "heap_ok t (us @ gs @ vs)" and fl: "free_list t (us @ gs @ vs) ps" and ne: "gs \<noteq> []"
    and a: "a = mem_start_brk t + total us" and n: "n = total gs"
    and on: "\<And>q. q \<in> set ps \<Longrightarrow> q = a \<or> q \<in> free_at (mem_start_brk t) us \<or> q \<in> free_at (a + n) vs"
  shows "block_set_size_and_allocated a n False t = Some (put_tags a n False t)"
    and "heap_ok (put_tags a n False t) (us @ (n, False) # vs)"
    and "free_list (put_tags a n False t) (us @ (n, False) # vs) ps"
proof -
  show "block_set_size_and_allocated a n False t = Some (put_tags a n False t)"
    and "heap_ok (put_tags a n False t) (us @ (n, False) # vs)"
    using heap_ok_merge [OF ok ne a n] by blast+
  have fr: "\<forall>p \<in> set ps. \<exists>n. (p, n, False) \<in> bset t (us @ gs @ vs)" using fl by (simp add: free_list_def)
  obtain k al gs' where g: "gs = (k, al) # gs'" using ne by (cases gs) auto
  obtain gs'' j bl where g': "gs = gs'' @ [(j, bl)]" using ne by (metis append_butlast_last_id surj_pair)
  have h: "a \<notin> ptr_words ps" using tag_not_ptr(1) [OF ok fr, of a k al] a g by simp
  have lb: "(a + total gs'', j, bl) \<in> bset t (us @ gs @ vs)" using a g' by simp
  have "a + total gs'' + j = a + n" using n g' by simp
  then have e: "a + n - 8 \<notin> ptr_words ps" using tag_not_ptr(2) [OF ok fr lb] by (simp only: not_False_eq_True)
  show "free_list (put_tags a n False t) (us @ (n, False) # vs) ps"
  proof (rule free_list_transfer [OF fl])
    show "mem (put_tags a n False t) w = mem t w" if "w \<in> ptr_words ps" for w
      using that h e by (auto simp: mem_put_tags)
    show "\<exists>m. (q, m, False) \<in> bset (put_tags a n False t) (us @ (n, False) # vs)" if "q \<in> set ps" for q
      using on [OF that] a by (auto simp: free_at_def)
  qed simp
qed

lemma pull_ok:
  assumes ok: "heap_ok s bs" and fl: "free_list s bs ps" and p: "p \<in> set ps"
  shows "\<exists>s'. pull_free_block p s = Some s' \<and> heap_ok s' bs \<and> free_list s' bs (remove1 p ps)
    \<and> s' = s\<lparr>mem := mem s', flist_first := first (remove1 p ps)\<rparr>
    \<and> (\<forall>w. w \<notin> free_words s bs \<longrightarrow> mem s' w = mem s w)"
proof -
  obtain m where m: "pull_free_block p s = Some (s\<lparr>mem := m, flist_first := first (remove1 p ps)\<rparr>)"
    "heap_ok (s\<lparr>mem := m\<rparr>) bs" "ring m (remove1 p ps)" "\<forall>w. w \<notin> ptr_words ps \<longrightarrow> m w = mem s w"
    using pull_free_block_ok [OF ok fl p] by blast
  have fr: "\<forall>p \<in> set ps. \<exists>n. (p, n, False) \<in> bset s bs" using fl by (simp add: free_list_def)
  let ?s = "s\<lparr>mem := m, flist_first := first (remove1 p ps)\<rparr>"
  have "free_list ?s bs (remove1 p ps)"
    using m(3) fl notin_set_remove1 unfolding free_list_def by fastforce
  moreover have "heap_ok ?s bs" using m(2) by (simp add: heap_ok_def)
  moreover have "\<forall>w. w \<notin> free_words s bs \<longrightarrow> mem ?s w = mem s w" using m(4) ptr_words_free [OF ok fr] by auto
  ultimately show ?thesis using m(1) by (intro exI [of _ ?s]) simp
qed

lemma put_tags_update: "s' = s\<lparr>mem := mem s', flist_first := f\<rparr> \<Longrightarrow>
    put_tags a n al s' = s\<lparr>mem := mem (put_tags a n al s'), flist_first := f\<rparr>"
  by (metis heap.select_convs(1) heap.surjective heap.update_convs(1) heap.update_convs(5) put_tags_def)

lemma merge_step:
  assumes ok: "heap_ok t (us @ gs @ vs)" and fl: "free_list t (us @ gs @ vs) ps" and ne: "gs \<noteq> []"
    and a: "a = mem_start_brk s + total us" and n: "n = total gs" and fg: "\<forall>g \<in> set gs. \<not> snd g"
    and on: "set ps = free_at (mem_start_brk s) us \<union> {a} \<union> free_at (a + n) vs"
    and t: "t = s\<lparr>mem := mem t, flist_first := first ps\<rparr>"
    and out: "\<And>w. w \<notin> free_words s (us @ gs @ vs) \<Longrightarrow> mem t w = mem s w"
  shows "\<exists>s'. block_set_size_and_allocated a n False t = Some s' \<and> s' = s\<lparr>mem := mem s', flist_first := first ps\<rparr>
    \<and> heap_ok s' (us @ (n, False) # vs) \<and> free_list s' (us @ (n, False) # vs) ps
    \<and> set ps = free_at (mem_start_brk s) (us @ (n, False) # vs)
    \<and> (\<forall>w. w \<notin> free_words s (us @ gs @ vs) \<longrightarrow> mem s' w = mem s w)"
proof -
  have st: "mem_start_brk t = mem_start_brk s" by (subst t) simp
  have at: "a = mem_start_brk t + total us" using a st by simp
  have ont: "q = a \<or> q \<in> free_at (mem_start_brk t) us \<or> q \<in> free_at (a + n) vs" if "q \<in> set ps" for q
    using that on st by auto
  note m = merge_free [OF ok fl ne at n ont]
  let ?s = "put_tags a n False t"
  obtain k al gs' where g: "gs = (k, al) # gs'" using ne by (cases gs) auto
  obtain gs'' j bl where g': "gs = gs'' @ [(j, bl)]" using ne by (metis append_butlast_last_id surj_pair)
  have fr: "\<not> al" "\<not> bl" using bspec [OF fg, of "(k, al)"] bspec [OF fg, of "(j, bl)"] g g' by (simp, metis in_set_conv_decomp snd_conv)
  have b1: "(a, k, False) \<in> bset s (us @ gs @ vs)" using a g fr by simp
  have b2: "(a + total gs'', j, False) \<in> bset s (us @ gs @ vs)" using a g' fr by simp
  have sz: "32 \<le> k" "32 \<le> j" using ok g g' unfolding heap_ok_def by (simp, metis wf_seq_simps(2,3))
  have e: "a + n = a + total gs'' + j" using n g' by simp
  have "mem ?s w = mem s w" if w: "w \<notin> free_words s (us @ gs @ vs)" for w
  proof -
    have "w \<noteq> a" using w b1 sz(1) unfolding free_words_def by force
    moreover have "w \<noteq> a + n - 8"
    proof
      assume "w = a + n - 8"
      then have "a + total gs'' \<le> w \<and> w < a + total gs'' + j" using e sz(2) by linarith
      then show False using w b2 unfolding free_words_def by blast
    qed
    ultimately show ?thesis using out [OF w] by (simp add: mem_put_tags)
  qed
  moreover have "set ps = free_at (mem_start_brk s) (us @ (n, False) # vs)" using on a by (auto simp: add.assoc)
  ultimately show ?thesis using m put_tags_update [OF t] by blast
qed

section \<open>Coalescing\<close>

definition merged :: "block_seq \<Rightarrow> nat \<times> bool \<Rightarrow> nat \<Rightarrow> nat \<times> bool \<Rightarrow> block_seq \<Rightarrow> block_seq" where
  "merged us kb n jc vs =
     us @ (if snd kb then [kb] else []) @
     [((if snd kb then 0 else fst kb) + n + (if snd jc then 0 else fst jc), False)] @
     (if snd jc then [jc] else []) @ vs"

lemma coalesce_ok:
  assumes ok: "heap_ok s (us @ (k, bl) # (n, False) # (j, cl) # vs)" (is "heap_ok s (us @ ?rest)")
    and fl: "free_list s (us @ (k, bl) # (n, False) # (j, cl) # vs) ps"
    and fs: "set ps = free_at (mem_start_brk s) (us @ (k, bl) # (n, False) # (j, cl) # vs)"
    and p: "p = mem_start_brk s + total us + k"
  shows "\<exists>r s' ps'. coalesce p s = Some (r, s') \<and> s' = s\<lparr>mem := mem s', flist_first := first ps'\<rparr>
    \<and> heap_ok s' (merged us (k, bl) n (j, cl) vs) \<and> free_list s' (merged us (k, bl) n (j, cl) vs) ps'
    \<and> set ps' = free_at (mem_start_brk s) (merged us (k, bl) n (j, cl) vs)
    \<and> (\<forall>w. w \<notin> free_words s (us @ (k, bl) # (n, False) # (j, cl) # vs) \<longrightarrow> mem s' w = mem s w)"
proof -
  let ?bs = "us @ (k, bl) # (n, False) # (j, cl) # vs" and ?a = "mem_start_brk s"
  let ?q = "?a + total us" and ?x = "p + n"
  have bp: "(p, n, False) \<in> bset s ?bs" and bq: "(?q, k, bl) \<in> bset s ?bs" and bx: "(?x, j, cl) \<in> bset s ?bs"
    using p by simp_all
  have pp: "p \<in> set ps" using fs p by simp
  have d: "distinct ps" and first: "flist_first s = first ps" using fl by (simp_all add: free_list_def)
  have wf: "wf_seq us" "wf_seq vs" "32 \<le> k" "32 \<le> n" "32 \<le> j" using ok by (simp_all add: heap_ok_def)
  have helper: "coalesce_helper p s = Some True" by (rule coalesce_helper_finds [OF ok fl pp])
  have prev: "block_prev p s = Some ?q" using prev_laws(1) [of s us k bl n False "(j, cl) # vs" p] ok p by simp
  note lp = block_laws [OF ok bp] and lq = block_laws [OF ok bq] and lx = block_laws [OF ok bx]
  note bounds = free_at_bounds [OF wf(1)] free_at_bounds [OF wf(2)]
  have fs': "set ps = free_at ?a us \<union> (if bl then {} else {?q}) \<union> {p} \<union> (if cl then {} else {?x}) \<union> free_at (?x + j) vs"
    using fs p by (auto simp: add.assoc)
  have sz: "n + k < 2 ^ 63" "n + j < 2 ^ 63" "n + k + j < 2 ^ 63"
    using heap_ok_block(11) [OF ok bx] p by simp_all
  have u: "w < ?q" if "w \<in> free_at ?a us" for w using free_at_bounds [OF wf(1) that] by simp
  have v: "?x + j \<le> w" if "w \<in> free_at (?x + j) vs" for w using free_at_bounds [OF wf(2) that] by simp
  have notin: "p \<notin> free_at ?a us" "p \<notin> free_at (?x + j) vs" "?x \<notin> free_at ?a us" "?x \<notin> free_at (?x + j) vs"
    using u v p wf(3-5) by fastforce+
  consider (none) "bl" "cl" | (prev) "\<not> bl" "cl" | (nxt) "bl" "\<not> cl" | (both) "\<not> bl" "\<not> cl" by blast
  then show ?thesis
  proof cases
    case none
    then have "coalesce p s = Some (p, s)"
      using helper prev lp lq lx by (simp add: coalesce_def)
    moreover have "merged us (k, bl) n (j, cl) vs = ?bs" using none by (simp add: merged_def)
    ultimately show ?thesis using ok fl fs first by (intro exI [of _ p] exI [of _ s] exI [of _ ps]) simp
  next
    case prev
    let ?ps = "remove1 p ps"
    obtain t where t: "pull_free_block p s = Some t" "heap_ok t ?bs" "free_list t ?bs ?ps"
      "t = s\<lparr>mem := mem t, flist_first := first ?ps\<rparr>" "\<forall>w. w \<notin> free_words s ?bs \<longrightarrow> mem t w = mem s w"
      using pull_ok [OF ok fl pp] by blast
    have st: "mem_start_brk t = ?a" by (subst t(4)) simp
    have qs: "block_size ?q t = Some k" using block_laws(2) [OF t(2), of ?q k bl] bq st by simp
    have on: "set ?ps = free_at ?a us \<union> {?q} \<union> free_at (?q + (n + k)) ((j, cl) # vs)"
      using fs' prev d notin p wf(3) by (auto simp: set_remove1_eq add.commute add.left_commute)
    obtain s' where s': "block_set_size_and_allocated ?q (n + k) False t = Some s'"
      "s' = s\<lparr>mem := mem s', flist_first := first ?ps\<rparr>" "heap_ok s' (us @ (n + k, False) # (j, cl) # vs)"
      "free_list s' (us @ (n + k, False) # (j, cl) # vs) ?ps"
      "set ?ps = free_at ?a (us @ (n + k, False) # (j, cl) # vs)" "\<forall>w. w \<notin> free_words s ?bs \<longrightarrow> mem s' w = mem s w"
      using merge_step [of t us "[(k, False), (n, False)]" "(j, cl) # vs" ?ps ?q s "n + k"] t(2-5) on prev by auto
    have "coalesce p s = Some (?q, s')"
      using helper \<open>block_prev p s = Some ?q\<close> lp lq lx prev t(1) qs s'(1) sz by (simp add: coalesce_def)
    moreover have "merged us (k, bl) n (j, cl) vs = us @ (n + k, False) # (j, cl) # vs"
      using prev by (simp add: merged_def add.commute)
    ultimately show ?thesis using s'(2-6) by (intro exI [of _ ?q] exI [of _ s'] exI [of _ ?ps]) simp
  next
    case nxt
    let ?ps = "remove1 ?x ps"
    have xx: "?x \<in> set ps" using fs' nxt by simp
    obtain t where t: "pull_free_block ?x s = Some t" "heap_ok t ?bs" "free_list t ?bs ?ps"
      "t = s\<lparr>mem := mem t, flist_first := first ?ps\<rparr>" "\<forall>w. w \<notin> free_words s ?bs \<longrightarrow> mem t w = mem s w"
      using pull_ok [OF ok fl xx] by blast
    have st: "mem_start_brk t = ?a" by (subst t(4)) simp
    have xs: "block_size ?x t = Some j" using block_laws(2) [OF t(2), of ?x j cl] bx st by simp
    have on: "set ?ps = free_at ?a (us @ [(k, bl)]) \<union> {p} \<union> free_at (p + (n + j)) vs"
      using fs' nxt d notin p wf(4) by (auto simp: set_remove1_eq add.assoc)
    obtain s' where s': "block_set_size_and_allocated p (n + j) False t = Some s'"
      "s' = s\<lparr>mem := mem s', flist_first := first ?ps\<rparr>" "heap_ok s' ((us @ [(k, bl)]) @ (n + j, False) # vs)"
      "free_list s' ((us @ [(k, bl)]) @ (n + j, False) # vs) ?ps"
      "set ?ps = free_at ?a ((us @ [(k, bl)]) @ (n + j, False) # vs)" "\<forall>w. w \<notin> free_words s ?bs \<longrightarrow> mem s' w = mem s w"
      using merge_step [of t "us @ [(k, bl)]" "[(n, False), (j, False)]" vs ?ps p s "n + j"] t(2-5) on nxt p by auto
    have "coalesce p s = Some (p, s')"
      using helper \<open>block_prev p s = Some ?q\<close> lp lq lx nxt t(1) xs s'(1) sz by (simp add: coalesce_def)
    moreover have "merged us (k, bl) n (j, cl) vs = (us @ [(k, bl)]) @ (n + j, False) # vs"
      using nxt by (simp add: merged_def)
    ultimately show ?thesis using s'(2-6) by (intro exI [of _ p] exI [of _ s'] exI [of _ ?ps]) simp
  next
    case both
    let ?ps1 = "remove1 p ps" let ?ps = "remove1 ?x ?ps1"
    obtain t1 where t1: "pull_free_block p s = Some t1" "heap_ok t1 ?bs" "free_list t1 ?bs ?ps1"
      "t1 = s\<lparr>mem := mem t1, flist_first := first ?ps1\<rparr>" "\<forall>w. w \<notin> free_words s ?bs \<longrightarrow> mem t1 w = mem s w"
      using pull_ok [OF ok fl pp] by blast
    have xx: "?x \<in> set ?ps1" using fs' both wf(4) by (simp add: in_set_remove1)
    obtain t where t: "pull_free_block ?x t1 = Some t" "heap_ok t ?bs" "free_list t ?bs ?ps"
      "t = t1\<lparr>mem := mem t, flist_first := first ?ps\<rparr>" "\<forall>w. w \<notin> free_words t1 ?bs \<longrightarrow> mem t w = mem t1 w"
      using pull_ok [OF t1(2,3) xx] by blast
    have st1: "mem_start_brk t1 = ?a" by (subst t1(4)) simp
    have st: "mem_start_brk t = ?a" by (subst t(4)) (simp add: st1)
    have ts: "t = s\<lparr>mem := mem t, flist_first := first ?ps\<rparr>"
      by (subst t(4), subst t1(4)) simp
    have out: "mem t w = mem s w" if "w \<notin> free_words s ?bs" for w
      using that t(5) t1(5) st1 by (simp add: free_words_def)
    have qs: "block_size ?q t = Some k" "block_size ?x t = Some j"
      using block_laws(2) [OF t(2), of ?q k bl] block_laws(2) [OF t(2), of ?x j cl] bq bx st by simp_all
    have on: "set ?ps = free_at ?a us \<union> {?q} \<union> free_at (?q + (n + k + j)) vs"
      using fs' both d notin p wf(3,4) by (auto simp: set_remove1_eq add.commute add.left_commute)
    obtain s' where s': "block_set_size_and_allocated ?q (n + k + j) False t = Some s'"
      "s' = s\<lparr>mem := mem s', flist_first := first ?ps\<rparr>" "heap_ok s' (us @ (n + k + j, False) # vs)"
      "free_list s' (us @ (n + k + j, False) # vs) ?ps"
      "set ?ps = free_at ?a (us @ (n + k + j, False) # vs)" "\<forall>w. w \<notin> free_words s ?bs \<longrightarrow> mem s' w = mem s w"
      using merge_step [of t us "[(k, False), (n, False), (j, False)]" vs ?ps ?q s "n + k + j"] t(2,3) ts out on both by auto
    have "coalesce p s = Some (?q, s')"
      using helper \<open>block_prev p s = Some ?q\<close> lp lq lx both t1(1) t(1) qs s'(1) sz by (simp add: coalesce_def)
    moreover have "merged us (k, bl) n (j, cl) vs = us @ (n + k + j, False) # vs"
      using both by (simp add: merged_def add.commute add.left_commute)
    ultimately show ?thesis using s'(2-6) by (intro exI [of _ ?q] exI [of _ s'] exI [of _ ?ps]) simp
  qed
qed

section \<open>\<^verbatim>\<open>mm_free\<close>\<close>

text \<open>Marking a block in use as free and putting it on the free list.\<close>

lemma release_block:
  assumes ok: "heap_ok s (us @ (n, True) # vs)" and fl: "free_list s (us @ (n, True) # vs) ps"
    and fs: "set ps = free_at (mem_start_brk s) (us @ (n, True) # vs)" and p: "p = mem_start_brk s + total us"
  shows "\<exists>s'. (do { bsize \<leftarrow> block_size p s; s \<leftarrow> block_set_size_and_allocated p bsize False s; insert_free_block p s }) = Some s'
    \<and> s' = s\<lparr>mem := mem s', flist_first := p\<rparr> \<and> heap_ok s' (us @ (n, False) # vs)
    \<and> free_list s' (us @ (n, False) # vs) (p # ps)
    \<and> set (p # ps) = free_at (mem_start_brk s) (us @ (n, False) # vs)
    \<and> (\<forall>w. w \<notin> {p..<p + n} \<union> free_words s (us @ (n, True) # vs) \<longrightarrow> mem s' w = mem s w)"
proof -
  let ?bs = "us @ (n, True) # vs" and ?bs' = "us @ (n, False) # vs"
  have b: "(p, n, True) \<in> bset s ?bs" using p by simp
  have fr: "\<forall>q \<in> set ps. \<exists>n. (q, n, False) \<in> bset s ?bs" using fl by (simp add: free_list_def)
  have n32: "32 \<le> n" by (rule heap_ok_block(1) [OF ok b])
  have mg: "block_set_size_and_allocated p n False s = Some (put_tags p n False s)" "heap_ok (put_tags p n False s) ?bs'"
    using heap_ok_merge [of s us "[(n, True)]" vs p n False] ok p by simp_all
  let ?t = "put_tags p n False s"
  have ptr: "w \<notin> {p..<p + n}" if "w \<in> ptr_words ps" for w
    using alloc_not_free [OF ok b, of w] ptr_words_free [OF ok fr] that by auto
  have out: "mem ?t w = mem s w" if "w \<notin> {p..<p + n}" for w using that n32 by (auto simp: mem_put_tags)
  have flt: "free_list ?t ?bs' ps"
  proof (rule free_list_transfer [OF fl])
    show "\<exists>k. (q, k, False) \<in> bset ?t ?bs'" if "q \<in> set ps" for q using free_list_block [OF fl that] by auto
  qed (use out ptr in simp_all)
  have new: "p \<notin> set ps"
  proof
    assume "p \<in> set ps"
    then have "p + 8 \<in> ptr_words ps" by (simp add: ptr_words_def)
    then show False using ptr n32 by fastforce
  qed
  have bt: "(p, n, False) \<in> bset ?t ?bs'" using p by simp
  obtain m where m: "insert_free_block p ?t = Some (?t\<lparr>mem := m, flist_first := p\<rparr>)" "heap_ok (?t\<lparr>mem := m\<rparr>) ?bs'"
    "ring m (p # ps)" "\<forall>w. w \<notin> ptr_words (p # ps) \<longrightarrow> m w = mem ?t w"
    using insert_free_block_ok [OF mg(2) flt bt new] by blast
  let ?s = "s\<lparr>mem := m, flist_first := p\<rparr>"
  have eq: "?t\<lparr>mem := m, flist_first := p\<rparr> = ?s" by (simp add: put_tags_def)
  have call: "(do { bsize \<leftarrow> block_size p s; s \<leftarrow> block_set_size_and_allocated p bsize False s; insert_free_block p s }) = Some ?s"
    using block_laws(2) [OF ok b] mg(1) m(1) eq by simp
  have "heap_ok ?s ?bs'" using m(2) by (simp add: heap_ok_def put_tags_def)
  moreover have "free_list ?s ?bs' (p # ps)"
    using m(3) flt new bt by (auto simp: free_list_def first_def)
  moreover have "set (p # ps) = free_at (mem_start_brk s) ?bs'" using fs p by auto
  moreover have "mem ?s w = mem s w" if w: "w \<notin> {p..<p + n} \<union> free_words s ?bs" for w
  proof -
    have "w \<notin> ptr_words ps" using w ptr_words_free [OF ok fr] by blast
    moreover have "w \<noteq> p + 8" "w \<noteq> p + 16" using w n32 by auto
    ultimately show ?thesis using m(4) out w by (simp add: ptr_words_def)
  qed
  ultimately show ?thesis using call by (intro exI [of _ ?s]) simp
qed

text \<open>The blocks between prologue and epilogue after coalescing around a freed block.\<close>

definition coalesced :: "block_seq \<Rightarrow> nat \<Rightarrow> block_seq \<Rightarrow> block_seq" where
  "coalesced xs n ys =
     (let (xs', a) = (if xs \<noteq> [] \<and> \<not> snd (last xs) then (butlast xs, fst (last xs)) else (xs, 0));
          (ys', b) = (if ys \<noteq> [] \<and> \<not> snd (hd ys) then (tl ys, fst (hd ys)) else (ys, 0))
      in xs' @ (a + n + b, False) # ys')"

lemma coalesced_merged:
  assumes "(32, True) # xs = us @ [kb]" "ys @ [(32, True)] = jc # vs"
  shows "merged us kb n jc vs = (32, True) # coalesced xs n ys @ [(32, True)]"
proof -
  obtain xs' where x: "xs = [] \<and> us = [] \<and> kb = (32, True) \<or> xs = xs' @ [kb] \<and> us = (32, True) # xs'"
    using assms(1) by (cases xs rule: rev_cases) auto
  obtain ys' where y: "ys = [] \<and> vs = [] \<and> jc = (32, True) \<or> ys = jc # ys' \<and> vs = ys' @ [(32, True)]"
    using assms(2) by (cases ys) auto
  show ?thesis using x y by (auto simp: merged_def coalesced_def Let_def)
qed

lemma used_coalesced:
  "used_at a (coalesced xs n ys) = used_at a xs \<union> used_at (a + total xs + n) ys"
  "total (coalesced xs n ys) = total xs + n + total ys"
proof -
  obtain xs' kb where "xs = [] \<or> xs = xs' @ [kb]" by (cases xs rule: rev_cases) auto
  moreover obtain jc ys' where "ys = [] \<or> ys = jc # ys'" by (cases ys) auto
  ultimately show "used_at a (coalesced xs n ys) = used_at a xs \<union> used_at (a + total xs + n) ys"
    "total (coalesced xs n ys) = total xs + n + total ys"
    by (cases kb; cases jc; auto simp: coalesced_def Let_def add.assoc)+
qed

lemma mm_free_ok:
  assumes inv: "heap_inv s mid ps" and u: "(p, n) \<in> used s mid"
  shows "\<exists>s' xs ys ps'. mm_free (p + 8) s = Some s' \<and> mid = xs @ (n, True) # ys \<and> p = mem_start_brk s + 32 + total xs
    \<and> heap_inv s' (coalesced xs n ys) ps' \<and> used s' (coalesced xs n ys) = used s mid - {(p, n)}
    \<and> s' = s\<lparr>mem := mem s', flist_first := first ps'\<rparr>
    \<and> (\<forall>w. w \<notin> {p..<p + n} \<union> free_words s ((32, True) # mid @ [(32, True)]) \<longrightarrow> mem s' w = mem s w)"
proof -
  let ?bs = "(32, True) # mid @ [(32, True)]" and ?a = "mem_start_brk s"
  have ok: "heap_ok s ?bs" and fl: "free_list s ?bs ps" and fs: "set ps = free_at ?a ?bs"
    and glob: "prologue s = ?a" "mem_brk s = ?a + total ?bs" "epilogue s + 32 = mem_brk s"
    using inv by (simp_all add: heap_inv_def Let_def)
  have "(p, n, True) \<in> blocks (?a + 32) mid" using u by (simp add: used_def used_at_def)
  then obtain xs ys where mid: "mid = xs @ (n, True) # ys" and px: "p = ?a + 32 + total xs" using blocks_split by blast
  obtain us k bl where us: "(32, True) # xs = us @ [(k, bl)]" by (metis append_butlast_last_id list.discI surj_pair)
  obtain j cl vs where vs: "ys @ [(32, True)] = (j, cl) # vs" by (cases "ys @ [(32, True)]") auto
  have bs: "?bs = (us @ [(k, bl)]) @ (n, True) # (j, cl) # vs" using mid us vs by (metis append.assoc append_Cons)
  have tu: "total us + k = 32 + total xs" using arg_cong [OF us, of total] by simp
  have p1: "p = ?a + total (us @ [(k, bl)])" "p = ?a + total us + k" using px tu by simp_all
  obtain s1 where s1: "(do { bsize \<leftarrow> block_size p s; s \<leftarrow> block_set_size_and_allocated p bsize False s; insert_free_block p s }) = Some s1"
    "s1 = s\<lparr>mem := mem s1, flist_first := p\<rparr>" "heap_ok s1 ((us @ [(k, bl)]) @ (n, False) # (j, cl) # vs)"
    "free_list s1 ((us @ [(k, bl)]) @ (n, False) # (j, cl) # vs) (p # ps)"
    "set (p # ps) = free_at ?a ((us @ [(k, bl)]) @ (n, False) # (j, cl) # vs)"
    "\<forall>w. w \<notin> {p..<p + n} \<union> free_words s ?bs \<longrightarrow> mem s1 w = mem s w"
    using release_block [of s "us @ [(k, bl)]" n "(j, cl) # vs" ps p] ok fl fs p1(1) unfolding bs by blast
  have st1: "mem_start_brk s1 = ?a" by (subst s1(2)) simp
  let ?bs1 = "us @ (k, bl) # (n, False) # (j, cl) # vs"
  have ap: "(us @ [(k, bl)]) @ (n, False) # (j, cl) # vs = ?bs1" by simp
  obtain r s' ps' where s': "coalesce p s1 = Some (r, s')" "s' = s1\<lparr>mem := mem s', flist_first := first ps'\<rparr>"
    "heap_ok s' (merged us (k, bl) n (j, cl) vs)" "free_list s' (merged us (k, bl) n (j, cl) vs) ps'"
    "set ps' = free_at ?a (merged us (k, bl) n (j, cl) vs)" "\<forall>w. w \<notin> free_words s1 ?bs1 \<longrightarrow> mem s' w = mem s1 w"
    using coalesce_ok [of s1 us k bl n j cl vs "p # ps" p] s1(3-5) p1(2) st1 unfolding ap by auto
  have mg: "merged us (k, bl) n (j, cl) vs = (32, True) # coalesced xs n ys @ [(32, True)]"
    by (rule coalesced_merged [OF us vs])
  have eq: "s' = s\<lparr>mem := mem s', flist_first := first ps'\<rparr>" by (subst s'(2), subst s1(2)) simp
  have f: "mem_start_brk s' = ?a" "mem_max_addr s' = mem_max_addr s" "mem_brk s' = mem_brk s"
    "prologue s' = prologue s" "epilogue s' = epilogue s" by (subst eq, simp)+
  have "heap_inv s' (coalesced xs n ys) ps'"
    unfolding heap_inv_def Let_def mg [symmetric] using s'(3-5) f glob
    by (simp add: mg used_coalesced(2) mid)
  moreover have "used s' (coalesced xs n ys) = used s mid - {(p, n)}"
  proof -
    have wf: "wf_seq xs" "wf_seq ys" "32 \<le> n" using ok mid by (simp_all add: heap_ok_def)
    have "(p, n) \<notin> used_at (?a + 32) xs" "(p, n) \<notin> used_at (p + n) ys"
      using used_at_bounds [OF wf(1), of p n "?a + 32"] used_at_bounds [OF wf(2), of p n "p + n"] px wf(3) by auto
    then show ?thesis using px by (auto simp: used_def used_coalesced(1) f(1) mid add.assoc)
  qed
  moreover have "mem s' w = mem s w" if w: "w \<notin> {p..<p + n} \<union> free_words s ?bs" for w
  proof -
    have "w \<notin> free_words s1 ?bs1" using w p1 unfolding free_words_def bs st1 by fastforce
    then show ?thesis using s'(6) s1(6) w by simp
  qed
  moreover have "mm_free (p + 8) s = Some s'"
  proof -
    obtain k u where "block_size p s = Some k" "block_set_size_and_allocated p k False s = Some u" "insert_free_block p u = Some s1"
      using s1(1) by (auto simp: bind_eq_Some_conv)
    then show ?thesis using s'(1) by (simp add: mm_free_def payload_to_block_def)
  qed
  ultimately show ?thesis using mid px eq by blast
qed

end
