(* ===== verification/MmCorrect.thy ===== *)
theory MmCorrect
  imports MmFree
begin

text \<open>
  Correctness of the allocator as its clients see it: initialisation, allocation, freeing,
  the heap check, and the interface the driver relies on.
\<close>

section \<open>The blocks a walk over the heap meets\<close>

fun enum_blocks :: "nat \<Rightarrow> block_seq \<Rightarrow> (nat \<times> nat \<times> nat) list" where
  "enum_blocks a [] = []"
| "enum_blocks a ((n, al) # bs) = (a, n, of_bool al) # enum_blocks (a + n) bs"

lemma enum_used: "(p, n, 1) \<in> set (enum_blocks a bs) \<longleftrightarrow> (p, n) \<in> used_at a bs"
  by (induction a bs rule: enum_blocks.induct) auto

lemma check_blocks_eq:
  "heap_ok s (us @ vs @ [(32, True)]) \<Longrightarrow> epilogue s = mem_start_brk s + total us + total vs \<Longrightarrow> length vs < fuel \<Longrightarrow>
   check_blocks fuel (mem_start_brk s + total us) s = Some (enum_blocks (mem_start_brk s + total us) vs)"
proof (induction vs arbitrary: us fuel)
  case Nil
  then show ?case by (cases fuel) simp_all
next
  case (Cons v vs)
  obtain n al where v: "v = (n, al)" by (cases v)
  obtain f where f: "fuel = Suc f" using Cons.prems(3) by (cases fuel) auto
  let ?p = "mem_start_brk s + total us"
  obtain k bl rest where k: "vs @ [(32, True)] = (k, bl) # rest" by (cases "vs @ [(32, True)]") auto
  have b: "(?p, n, al) \<in> bset s (us @ (v # vs) @ [(32, True)])" using v by simp
  have b': "(?p + n, k, bl) \<in> bset s (us @ (v # vs) @ [(32, True)])"
    unfolding append_Cons k v by simp
  note l = block_laws [OF Cons.prems(1) b] block_laws(2) [OF Cons.prems(1) b']
  have "?p \<noteq> epilogue s" using Cons.prems(2) v heap_ok_block(1) [OF Cons.prems(1) b] by simp
  moreover have "check_blocks f (?p + n) s = Some (enum_blocks (?p + n) vs)"
    using Cons.IH [of "us @ [(n, al)]" f] Cons.prems v f by (simp add: add.assoc)
  ultimately show ?case using l f v by simp
qed

definition heap_walk :: "heap \<Rightarrow> (nat \<times> nat \<times> nat) list" where
  "heap_walk s = (case check_blocks (list_fuel s) (prologue s + 32) s of None \<Rightarrow> [] | Some bs \<Rightarrow> bs)"

text \<open>The payloads in use: start address and number of bytes.\<close>

definition live :: "heap \<Rightarrow> (nat \<times> nat) set" where
  "live s = (\<lambda>(p, n, a). (p + WORD_SIZE, n - TAGS_SIZE)) ` {b \<in> set (heap_walk s). snd (snd b) = 1}"

text \<open>No two neighbours are both free.\<close>

fun separated :: "block_seq \<Rightarrow> bool" where
  "separated ((n, a) # (m, b) # bs) \<longleftrightarrow> (a \<or> b) \<and> separated ((m, b) # bs)"
| "separated [b] \<longleftrightarrow> True"
| "separated [] \<longleftrightarrow> True"

lemma separated_append:
  "separated (xs @ ys) \<longleftrightarrow> separated xs \<and> separated ys \<and> (xs \<noteq> [] \<longrightarrow> ys \<noteq> [] \<longrightarrow> snd (last xs) \<or> snd (hd ys))"
proof (induction xs rule: separated.induct)
  case (2 b)
  then show ?case by (cases b; cases ys) auto
qed auto

lemma separated_Cons: "separated (b # bs) \<longleftrightarrow> separated bs \<and> (bs \<noteq> [] \<longrightarrow> snd b \<or> snd (hd bs))"
  using separated_append [of "[b]" bs] by auto

lemma separated_take:
  assumes "separated (xs @ (j, False) # ys)"
  shows "separated (xs @ (j, True) # ys)" "separated (xs @ (n, True) # (m, False) # ys)"
  using assms by (auto simp: separated_append separated_Cons)

lemma separated_coalesced: "separated (xs @ (n, True) # ys) \<Longrightarrow> separated (coalesced xs n ys)"
  by (cases xs rule: rev_cases; cases ys)
    (auto simp: coalesced_def Let_def separated_append separated_Cons)

definition mm_inv :: "heap \<Rightarrow> bool" where
  "mm_inv s \<longleftrightarrow> (\<exists>mid ps. heap_inv s mid ps \<and> separated mid)"

lemma heap_inv_walk:
  assumes "heap_inv s mid ps"
  shows "check_blocks (list_fuel s) (prologue s + 32) s = Some (enum_blocks (mem_start_brk s + 32) mid)"
proof -
  let ?bs = "(32, True) # mid @ [(32, True)]"
  have ok: "heap_ok s ?bs" and fl: "free_list s ?bs ps" and pr: "prologue s = mem_start_brk s"
    and brk: "mem_brk s = mem_start_brk s + total ?bs" "epilogue s + 32 = mem_brk s"
    using assms by (simp_all add: heap_inv_def Let_def)
  have "length ?bs < list_fuel s" using list_fuel_enough(2) [OF ok, of ps] fl by (simp add: free_list_def)
  then show ?thesis using check_blocks_eq [of s "[(32, True)]" mid "list_fuel s"] ok pr brk by simp
qed

lemma live_used: "heap_inv s mid ps \<Longrightarrow> live s = (\<lambda>(p, n). (p + 8, n - 16)) ` used s mid"
  using heap_inv_walk [of s mid ps] enum_used [of _ _ "mem_start_brk s + 32" mid]
  unfolding live_def heap_walk_def used_def by (force simp: image_iff)

section \<open>Initialisation\<close>

definition fresh_store :: "heap \<Rightarrow> bool" where
  "fresh_store s \<longleftrightarrow> 8 dvd mem_start_brk s \<and> 0 < mem_start_brk s \<and> mem_brk s = mem_start_brk s
     \<and> mem_max_addr s = mem_start_brk s + MAX_HEAP \<and> mem_max_addr s < 2 ^ 63"

lemma mem_init_fresh:
  "8 dvd start \<Longrightarrow> 0 < start \<Longrightarrow> start + MAX_HEAP < 2 ^ 63 \<Longrightarrow>
    \<exists>s'. mem_init start s = Some s' \<and> fresh_store s'"
  by (simp add: mem_init_def fresh_store_def)

lemma sbrk_32: "mem_brk t + 32 \<le> mem_max_addr t \<Longrightarrow> mem_sbrk 32 t = (Some (mem_brk t), t\<lparr>mem_brk := mem_brk t + 32\<rparr>)"
  by (simp add: mem_sbrk_def nat_add_distrib)

text \<open>The memory \<^verbatim>\<open>mm_init\<close> leaves: three blocks of 32 bytes, the middle one free and alone in the list.\<close>

definition init_mem :: "nat \<Rightarrow> (nat \<Rightarrow> nat) \<Rightarrow> nat \<Rightarrow> nat" where
  "init_mem a m = m(a := 33, a + 24 := 33, a + 32 := 32, a + 56 := 32, a + 40 := a + 32, a + 48 := a + 32,
     a + 64 := 33, a + 88 := 33)"

lemma set_tags_32:
  assumes "8 dvd p" "p + 32 \<le> mem_max_addr s" "mem_start_brk s \<le> p" "mem_max_addr s < 2 ^ 63"
  shows "block_set_size_and_allocated p 32 al s = Some (put_tags p 32 al s)"
  by (rule set_size_and_allocated) (use assms in \<open>simp_all add: in_store_def\<close>)

lemma insert_first_free:
  assumes "8 dvd p" "p + 24 \<le> mem_max_addr s" "mem_start_brk s \<le> p" "mem_max_addr s < 2 ^ 63"
    "flist_first s = 0" "mem s p = 32"
  shows "insert_free_block p s = Some (s\<lparr>mem := (mem s)(p + 8 := p, p + 16 := p), flist_first := p\<rparr>)"
  using assms
  by (simp add: insert_free_block_def block_set_next_free_def block_set_prev_free_def assert_free_def
      block_allocated_def and_1_def load_def store_def in_store_def)

lemma mm_init_eq:
  assumes fs: "fresh_store s"
  shows "mm_init s = Some (0, s\<lparr>flist_first := mem_start_brk s + 32, mem_brk := mem_start_brk s + 96,
    prologue := mem_start_brk s, epilogue := mem_start_brk s + 64, mem := init_mem (mem_start_brk s) (mem s)\<rparr>)"
proof -
  let ?a = "mem_start_brk s"
  have a: "8 dvd ?a" "0 < ?a" "mem_brk s = ?a" "mem_max_addr s = ?a + MAX_HEAP" "mem_max_addr s < 2 ^ 63"
    using fs by (simp_all add: fresh_store_def)
  let ?s1 = "put_tags ?a 32 True (s\<lparr>flist_first := 0, mem_brk := ?a + 32, prologue := ?a\<rparr>)"
  let ?s2 = "put_tags (?a + 32) 32 False (?s1\<lparr>mem_brk := ?a + 64\<rparr>)"
  let ?s3 = "?s2\<lparr>mem := (mem ?s2)(?a + 40 := ?a + 32, ?a + 48 := ?a + 32), flist_first := ?a + 32\<rparr>"
  let ?s4 = "put_tags (?a + 64) 32 True (?s3\<lparr>mem_brk := ?a + 96, epilogue := ?a + 64\<rparr>)"
  have b1: "mem_sbrk 32 (s\<lparr>flist_first := 0\<rparr>) = (Some ?a, s\<lparr>flist_first := 0, mem_brk := ?a + 32\<rparr>)"
    by (subst sbrk_32) (simp_all add: a)
  have t1: "block_set_size_and_allocated ?a 32 True (s\<lparr>flist_first := 0, mem_brk := ?a + 32, prologue := ?a\<rparr>) = Some ?s1"
    by (rule set_tags_32) (use a in simp_all)
  have b2: "mem_sbrk 32 ?s1 = (Some (?a + 32), ?s1\<lparr>mem_brk := ?a + 64\<rparr>)"
    by (subst sbrk_32) (simp_all add: a)
  have t2: "block_set_size_and_allocated (?a + 32) 32 False (?s1\<lparr>mem_brk := ?a + 64\<rparr>) = Some ?s2"
    by (rule set_tags_32) (use a in simp_all)
  have i: "insert_free_block (?a + 32) ?s2 = Some ?s3"
    using insert_first_free [of "?a + 32" ?s2] a by (simp add: mem_put_tags tag_def add.commute)
  have b3: "mem_sbrk 32 ?s3 = (Some (?a + 64), ?s3\<lparr>mem_brk := ?a + 96\<rparr>)"
    by (subst sbrk_32) (simp_all add: a)
  have t3: "block_set_size_and_allocated (?a + 64) 32 True (?s3\<lparr>mem_brk := ?a + 96, epilogue := ?a + 64\<rparr>) = Some ?s4"
    by (rule set_tags_32) (use a in simp_all)
  have "mm_init s = Some (0, ?s4)"
    unfolding mm_init_def Let_def of_nat_numeral b1 prod.case option.case t1 bind.bind_lunit b2 t2 i b3 t3 by simp
  moreover have "mem ?s4 = init_mem ?a (mem s)"
    by (rule ext) (simp add: init_mem_def mem_put_tags tag_def)
  moreover have "?s4 = ?s4\<lparr>mem := mem ?s4\<rparr>" by simp
  ultimately show ?thesis by (simp add: put_tags_def)
qed

lemma mm_init_ok:
  assumes fs: "fresh_store s"
  shows "\<exists>s'. mm_init s = Some (0, s') \<and> heap_inv s' [(32, False)] [mem_start_brk s + 32]
    \<and> mem_start_brk s' = mem_start_brk s \<and> mem_max_addr s' = mem_max_addr s"
proof -
  let ?a = "mem_start_brk s" and ?m = "init_mem (mem_start_brk s) (mem s)"
  have a: "8 dvd ?a" "0 < ?a" "mem_max_addr s = ?a + MAX_HEAP" "mem_max_addr s < 2 ^ 63"
    using fs by (simp_all add: fresh_store_def)
  have m: "?m ?a = 33" "?m (?a + 24) = 33" "?m (?a + 32) = 32" "?m (?a + 56) = 32" "?m (?a + 64) = 33"
    "?m (?a + 88) = 33" "?m (?a + 40) = ?a + 32" "?m (?a + 48) = ?a + 32"
    by (simp_all add: init_mem_def)
  let ?s = "s\<lparr>flist_first := ?a + 32, mem_brk := ?a + 96, prologue := ?a, epilogue := ?a + 64, mem := ?m\<rparr>"
  have ok: "heap_ok ?s [(32, True), (32, False), (32, True)]"
    using a m by (simp add: heap_ok_def tagged_def tag_def add.commute)
  have "free_list ?s [(32, True), (32, False), (32, True)] [?a + 32]"
    using m by (simp add: free_list_def ring_def first_def add.commute)
  then have "heap_inv ?s [(32, False)] [?a + 32]" using ok by (simp add: heap_inv_def Let_def)
  then show ?thesis using mm_init_eq [OF fs] by auto
qed

section \<open>Allocation\<close>

text \<open>Memory outside the free blocks and below the epilogue, in particular every block in use.\<close>

definition kept :: "heap \<Rightarrow> heap \<Rightarrow> bool" where
  "kept s s' \<longleftrightarrow> (\<forall>(p, n) \<in> live s. \<forall>w. p \<le> w \<and> w < p + n \<longrightarrow> mem s' w = mem s w)"

lemma used_bounds:
  assumes inv: "heap_inv s mid ps" and u: "(p, n) \<in> used s mid"
  shows "mem_start_brk s + 32 \<le> p" "p + n \<le> epilogue s" "32 \<le> n" "8 dvd p" "8 dvd n"
proof -
  let ?bs = "(32, True) # mid @ [(32, True)]"
  have ok: "heap_ok s ?bs" and b: "mem_brk s = mem_start_brk s + total ?bs" "epilogue s + 32 = mem_brk s"
    using inv by (simp_all add: heap_inv_def Let_def)
  have wf: "wf_seq mid" using ok by (simp add: heap_ok_def)
  have "(p, n, True) \<in> bset s ?bs" using u by (simp add: used_def used_at_def)
  then show "8 dvd p" "8 dvd n" using heap_ok_block [OF ok] by blast+
  show "mem_start_brk s + 32 \<le> p" "p + n \<le> epilogue s" "32 \<le> n"
    using used_at_bounds [OF wf, of p n "mem_start_brk s + 32"] u b by (simp_all add: used_def)
qed

lemma live_cases:
  assumes inv: "heap_inv s mid ps" and l: "(p, n) \<in> live s"
  obtains q k where "(q, k) \<in> used s mid" "p = q + 8" "n + 16 = k" "32 \<le> k"
proof -
  obtain q k where q: "(q, k) \<in> used s mid" "p = q + 8" "n = k - 16" using l live_used [OF inv] by auto
  then show ?thesis using that [of q k] used_bounds(3) [OF inv q(1)] by simp
qed

lemma free_walk: "heap_inv s mid ps \<Longrightarrow> (p, n, 0) \<in> set (heap_walk s) \<longleftrightarrow> (p, n, False) \<in> blocks (mem_start_brk s + 32) mid"
proof -
  have "(p, n, 0) \<in> set (enum_blocks a bs) \<longleftrightarrow> (p, n, False) \<in> blocks a bs" for a bs
    by (induction a bs rule: enum_blocks.induct) auto
  then show "heap_inv s mid ps \<Longrightarrow> ?thesis" using heap_inv_walk [of s mid ps] by (simp add: heap_walk_def)
qed

lemma best_fit_exists:
  assumes inv: "heap_inv s mid ps" and n: "nsize < 2 ^ 31" and ps: "ps \<noteq> []"
  obtains best mn where "best_fit (list_fuel s) nsize (flist_first s) UINT_MAX 0 s = Some best"
    "best_inv s nsize (set ps) mn best"
proof -
  let ?bs = "(32, True) # mid @ [(32, True)]"
  have ok: "heap_ok s ?bs" and fl: "free_list s ?bs ps" using inv by (simp_all add: heap_inv_def Let_def)
  have "flist_first s = hd ps" using fl ps by (simp add: free_list_def first_hd)
  moreover have "length ps \<le> list_fuel s" using list_fuel_enough(1) [OF ok, of ps] fl by (simp add: free_list_def)
  moreover have "best_inv s nsize (set []) UINT_MAX 0" by (simp add: best_inv_def)
  ultimately show ?thesis using best_fit_finds [OF ok n, of "[]" ps "list_fuel s" UINT_MAX 0] fl ps that by auto
qed

lemma free_list_empty: "heap_inv s mid ps \<Longrightarrow> flist_first s = 0 \<longleftrightarrow> ps = []"
proof
  assume inv: "heap_inv s mid ps"
  let ?bs = "(32, True) # mid @ [(32, True)]"
  have ok: "heap_ok s ?bs" and fl: "free_list s ?bs ps" using inv by (simp_all add: heap_inv_def Let_def)
  show "ps = [] \<Longrightarrow> flist_first s = 0" using fl by (simp add: free_list_def first_def)
  assume z: "flist_first s = 0"
  show "ps = []"
  proof (rule ccontr)
    assume "ps \<noteq> []"
    then have "flist_first s \<in> set ps" using fl by (simp add: free_list_def first_hd)
    then obtain k where "(flist_first s, k, False) \<in> bset s ?bs" using free_list_block [OF fl] by blast
    then show False using heap_ok_block [OF ok] z ok by (fastforce simp: heap_ok_def)
  qed
qed

text \<open>The three outcomes of a request: a best fitting free block, the end of the heap, or failure.\<close>

lemma mm_malloc_fits:
  assumes inv: "heap_inv s mid ps" and k: "0 < k" "k \<le> 2 ^ 31 - 32"
    and fit: "p \<in> set ps" "request_size k \<le> bsz s p"
  shows "\<exists>s' mid' ps' b n. mm_malloc k s = Some (b + 8, s') \<and> heap_inv s' mid' ps' \<and> b \<in> set ps
    \<and> (\<forall>q \<in> set ps. request_size k \<le> bsz s q \<longrightarrow> bsz s b \<le> bsz s q)
    \<and> request_size k \<le> n \<and> n \<le> bsz s b \<and> used s' mid' = insert (b, n) (used s mid) \<and> (separated mid \<longrightarrow> separated mid')
    \<and> mem_start_brk s' = mem_start_brk s \<and> mem_max_addr s' = mem_max_addr s \<and> mem_brk s' = mem_brk s \<and> kept s s'"
proof -
  note r = request_size_ok [OF k]
  have ps: "ps \<noteq> []" using fit by auto
  obtain best mn where b: "best_fit (list_fuel s) (request_size k) (flist_first s) UINT_MAX 0 s = Some best"
    "best_inv s (request_size k) (set ps) mn best"
    using best_fit_exists [OF inv r(3) ps] by blast
  have be: "best \<in> set ps" "request_size k \<le> bsz s best" "\<forall>q \<in> set ps. request_size k \<le> bsz s q \<longrightarrow> bsz s best \<le> bsz s q"
    using b(2) fit unfolding best_inv_def by fastforce+
  let ?bs = "(32, True) # mid @ [(32, True)]"
  have "heap_ok s ?bs" "free_list s ?bs ps" using inv by (simp_all add: heap_inv_def Let_def)
  then have "0 < best" using free_list_block be(1) heap_ok_block(4) by meson
  then have m: "mm_malloc k s = (do {
        s \<leftarrow> pull_free_block best s;
        bsize \<leftarrow> block_size best s;
        s \<leftarrow> block_set_size_and_allocated best bsize True s;
        (best, s) \<leftarrow> split_block best (request_size k) s;
        Some (best + 8, s)
      })"
    using b(1) k(1) ps free_list_empty [OF inv] by (simp add: mm_malloc_def Let_def)
  obtain s' mid' ps' n where s': "mm_malloc k s = Some (best + 8, s')" "heap_inv s' mid' ps'" "request_size k \<le> n" "n \<le> bsz s best"
    "used s' mid' = insert (best, n) (used s mid)" "mem_start_brk s' = mem_start_brk s" "mem_max_addr s' = mem_max_addr s"
    "mem_brk s' = mem_brk s" "\<forall>w. w \<notin> free_words s ?bs \<longrightarrow> mem s' w = mem s w"
    "\<exists>xs j ys. mid = xs @ (j, False) # ys \<and> (mid' = xs @ (j, True) # ys \<or> mid' = xs @ (request_size k, True) # (j - request_size k, False) # ys)"
    unfolding m using malloc_fit [OF inv r(1,2) be(1,2)] by blast
  have sep: "separated mid \<longrightarrow> separated mid'" using s'(10) separated_take by blast
  have "kept s s'"
    unfolding kept_def
  proof clarify
    fix q j w assume l: "(q, j) \<in> live s" and w: "q \<le> w" "w < q + j"
    obtain a i where "(a, i) \<in> used s mid" "q = a + 8" "j + 16 = i" using live_cases [OF inv l] by blast
    then show "mem s' w = mem s w" using s'(9) used_not_free [OF inv, of a i w] w by simp
  qed
  then show ?thesis using s'(1-8) be sep
    by (intro exI [of _ s'] exI [of _ mid'] exI [of _ ps'] exI [of _ best] exI [of _ n]) simp
qed

lemma mm_malloc_no_fit:
  assumes inv: "heap_inv s mid ps" and k: "0 < k" "k \<le> 2 ^ 31 - 32" and no: "\<forall>p \<in> set ps. bsz s p < request_size k"
  shows "mm_malloc k s = extend_heap (request_size k) s"
proof (cases "ps = []")
  case True
  then show ?thesis using free_list_empty [OF inv] k(1) by (simp add: mm_malloc_def Let_def)
next
  case False
  then obtain best mn where "best_fit (list_fuel s) (request_size k) (flist_first s) UINT_MAX 0 s = Some best"
    "best_inv s (request_size k) (set ps) mn best"
    using best_fit_exists [OF inv request_size_ok(3) [OF k]] by blast
  moreover from this have "best = 0" using no unfolding best_inv_def by fastforce
  ultimately show ?thesis using free_list_empty [OF inv] k(1) False by (simp add: mm_malloc_def Let_def)
qed

lemma free_sizes:
  assumes inv: "heap_inv s mid ps"
  shows "(p, n, 0) \<in> set (heap_walk s) \<longleftrightarrow> p \<in> set ps \<and> n = bsz s p"
proof -
  let ?bs = "(32, True) # mid @ [(32, True)]"
  have ok: "heap_ok s ?bs" and fs: "set ps = free_at (mem_start_brk s) ?bs" using inv by (simp_all add: heap_inv_def Let_def)
  have "(p, n, False) \<in> blocks (mem_start_brk s + 32) mid \<longleftrightarrow> (p, n, False) \<in> bset s ?bs" for n by auto
  moreover have "(p, n, False) \<in> bset s ?bs \<Longrightarrow> bsz s p = n" for n by (rule bsz_block [OF ok])
  ultimately show ?thesis using free_walk [OF inv] fs unfolding free_at_def by blast
qed

definition no_fit :: "nat \<Rightarrow> heap \<Rightarrow> bool" where
  "no_fit k s \<longleftrightarrow> (\<forall>(p, n, a) \<in> set (heap_walk s). a = 0 \<longrightarrow> n < request_size k)"

lemma no_fit_sizes: "heap_inv s mid ps \<Longrightarrow> no_fit k s \<longleftrightarrow> (\<forall>p \<in> set ps. bsz s p < request_size k)"
  unfolding no_fit_def using free_sizes [of s mid ps] by fastforce

lemma mm_malloc_extends:
  assumes inv: "heap_inv s mid ps" and k: "0 < k" "k \<le> 2 ^ 31 - 32" and no: "no_fit k s"
    and room: "mem_brk s + request_size k \<le> mem_max_addr s"
  shows "\<exists>s'. mm_malloc k s = Some (epilogue s + 8, s') \<and> heap_inv s' (mid @ [(request_size k, True)]) ps
    \<and> used s' (mid @ [(request_size k, True)]) = insert (epilogue s, request_size k) (used s mid)
    \<and> mem_start_brk s' = mem_start_brk s \<and> mem_max_addr s' = mem_max_addr s
    \<and> mem_brk s' = mem_brk s + request_size k \<and> kept s s'"
proof -
  note r = request_size_ok [OF k]
  have m: "mm_malloc k s = extend_heap (request_size k) s"
    using mm_malloc_no_fit [OF inv k] no no_fit_sizes [OF inv] by simp
  obtain s' where s': "mm_malloc k s = Some (epilogue s + 8, s')" "heap_inv s' (mid @ [(request_size k, True)]) ps"
    "mem_start_brk s' = mem_start_brk s" "mem_max_addr s' = mem_max_addr s" "epilogue s = mem_start_brk s + 32 + total mid"
    "\<forall>w < epilogue s. mem s' w = mem s w"
    unfolding m using extend_heap_ok [OF inv r(1-3) room] by blast
  have "kept s s'"
    unfolding kept_def
  proof clarify
    fix q j w assume l: "(q, j) \<in> live s" and w: "q \<le> w" "w < q + j"
    obtain a i where "(a, i) \<in> used s mid" "q = a + 8" "j + 16 = i" using live_cases [OF inv l] by blast
    then show "mem s' w = mem s w" using s'(6) used_bounds(2) [OF inv, of a i] w by simp
  qed
  moreover have "mem_brk s' = mem_brk s + request_size k" using s'(2,3) inv by (simp add: heap_inv_def Let_def)
  ultimately show ?thesis using s' by (auto simp: used_def add.assoc)
qed

lemma mm_malloc_fails:
  assumes inv: "heap_inv s mid ps" and k: "0 < k" "k \<le> 2 ^ 31 - 32" and no: "no_fit k s"
    and full: "mem_max_addr s < mem_brk s + request_size k"
  shows "mm_malloc k s = Some (0, s)"
  using mm_malloc_no_fit [OF inv k] no no_fit_sizes [OF inv] extend_heap_fails [OF request_size_ok(3) [OF k] full] by simp

section \<open>The interface of an allocator\<close>

text \<open>
  What a client of an allocator relies on. \<open>live\<close> is the set of payloads in use, with their
  sizes; every operation keeps the bytes of the payloads that stay in use.
\<close>

text \<open>A client owns \<open>k\<close> bytes at \<open>p\<close> of a live payload, and they all hold \<open>c\<close>.\<close>

definition holds :: "('s \<Rightarrow> (nat \<times> nat) set) \<Rightarrow> ('s \<Rightarrow> nat \<Rightarrow> nat) \<Rightarrow> 's \<Rightarrow> nat \<Rightarrow> nat \<Rightarrow> nat \<Rightarrow> bool" where
  "holds lv rb s p k c \<longleftrightarrow> (\<exists>n \<ge> k. (p, n) \<in> lv s \<and> (\<forall>j < k. rb s (p + j) = c))"

text \<open>\<^verbatim>\<open>memset\<close>, byte by byte.\<close>

definition fill :: "(nat \<Rightarrow> nat \<Rightarrow> 's \<Rightarrow> 's option) \<Rightarrow> nat \<Rightarrow> nat \<Rightarrow> nat \<Rightarrow> 's \<Rightarrow> 's option" where
  "fill store1 p c k = foldM (\<lambda>j. store1 (p + j) c) [0..<k]"

locale allocator =
  fixes inv :: "'s \<Rightarrow> bool"
    and live :: "'s \<Rightarrow> (nat \<times> nat) set"
    and lo :: "'s \<Rightarrow> nat"
    and hi :: "'s \<Rightarrow> nat"
    and rd :: "'s \<Rightarrow> nat \<Rightarrow> nat"
    and alloc :: "nat \<Rightarrow> 's \<Rightarrow> (nat \<times> 's) option"
    and resize :: "nat \<Rightarrow> nat \<Rightarrow> 's \<Rightarrow> (nat \<times> 's) option"
    and dealloc :: "nat \<Rightarrow> 's \<Rightarrow> 's option"
    and load1 :: "'s \<Rightarrow> nat \<Rightarrow> nat option"
    and store1 :: "nat \<Rightarrow> nat \<Rightarrow> 's \<Rightarrow> 's option"
    and max_request :: nat
    and cost :: "nat \<Rightarrow> nat"
    and limit :: "'s \<Rightarrow> nat"
  assumes live_bounds: "inv s \<Longrightarrow> (p, n) \<in> live s \<Longrightarrow> 8 dvd p \<and> 0 < p \<and> lo s \<le> p \<and> p + n \<le> hi s"
    and live_apart: "inv s \<Longrightarrow> (p, n) \<in> live s \<Longrightarrow> (q, m) \<in> live s \<Longrightarrow> p = q \<and> n = m \<or> p + n \<le> q \<or> q + m \<le> p"
    and live_positive: "inv s \<Longrightarrow> (p, n) \<in> live s \<Longrightarrow> 0 < n"
    and alloc_law: "inv s \<Longrightarrow> 0 < k \<Longrightarrow> k \<le> max_request \<Longrightarrow> alloc k s = Some (0, s) \<or>
      (\<exists>p n s'. alloc k s = Some (p, s') \<and> inv s' \<and> k \<le> n \<and> (\<forall>m. (p, m) \<notin> live s) \<and> live s' = insert (p, n) (live s)
         \<and> (\<forall>q m a. (q, m) \<in> live s \<longrightarrow> q \<le> a \<longrightarrow> a < q + m \<longrightarrow> rd s' a = rd s a))"
    and resize_law: "inv s \<Longrightarrow> (p, n) \<in> live s \<Longrightarrow> 0 < k \<Longrightarrow> k \<le> n \<Longrightarrow> resize p k s = Some (p, s)"
    and dealloc_law: "inv s \<Longrightarrow> (p, n) \<in> live s \<Longrightarrow> \<exists>s'. dealloc p s = Some s' \<and> inv s' \<and> live s' = live s - {(p, n)}
         \<and> (\<forall>q m a. (q, m) \<in> live s' \<longrightarrow> q \<le> a \<longrightarrow> a < q + m \<longrightarrow> rd s' a = rd s a)"
    and load1_law: "inv s \<Longrightarrow> (p, n) \<in> live s \<Longrightarrow> p \<le> a \<Longrightarrow> a < p + n \<Longrightarrow> load1 s a = Some (rd s a)"
    and store1_law: "inv s \<Longrightarrow> (p, n) \<in> live s \<Longrightarrow> p \<le> a \<Longrightarrow> a < p + n \<Longrightarrow>
      \<exists>s'. store1 a b s = Some s' \<and> inv s' \<and> live s' = live s \<and> rd s' = (rd s)(a := b mod 256)"
    and alloc_space: "inv s \<Longrightarrow> 0 < k \<Longrightarrow> k \<le> max_request \<Longrightarrow> alloc k s = Some (p, s') \<Longrightarrow>
      limit s' = limit s \<and> lo s' = lo s \<and> hi s \<le> hi s' \<and> hi s' \<le> hi s + cost k \<and> (p = 0 \<longrightarrow> limit s < hi s + cost k)"
    and dealloc_space: "inv s \<Longrightarrow> (p, n) \<in> live s \<Longrightarrow> dealloc p s = Some s' \<Longrightarrow> lo s' = lo s \<and> hi s' = hi s \<and> limit s' = limit s"
    and store1_space: "store1 a b s = Some s' \<Longrightarrow> lo s' = lo s \<and> hi s' = hi s \<and> limit s' = limit s"
begin

lemma fill_bytes:
  assumes inv: "inv s" and l: "(p, n) \<in> live s" and k: "k \<le> n"
  shows "\<exists>s'. fill store1 p c k s = Some s' \<and> inv s' \<and> live s' = live s
    \<and> (\<forall>a. rd s' a = (if p \<le> a \<and> a < p + k then c mod 256 else rd s a))"
proof -
  let ?I = "\<lambda>js t. inv t \<and> live t = live s \<and> (\<forall>a. rd t a = (if \<exists>j \<in> set js. a = p + j then c mod 256 else rd s a))"
  have "\<exists>t. fill store1 p c k s = Some t \<and> ?I [0..<k] t"
    unfolding fill_def
  proof (rule foldM_invariant)
    fix js j rest t assume js: "[0..<k] = js @ j # rest" and I: "?I js t"
    have "j \<in> set [0..<k]" unfolding js by simp
    then have "j < n" using k by simp
    then obtain t' where "store1 (p + j) c t = Some t'" "inv t'" "live t' = live t" "rd t' = (rd t)(p + j := c mod 256)"
      using store1_law [of t p n "p + j" c] I l by auto
    then show "\<exists>t'. store1 (p + j) c t = Some t' \<and> ?I (js @ [j]) t'" using I by auto
  qed (use inv in simp)
  moreover have "(\<exists>j \<in> set [0..<k]. a = p + j) \<longleftrightarrow> p \<le> a \<and> a < p + k" for a
    by (auto simp: nat_le_iff_add)
  ultimately show ?thesis by simp
qed

lemma fill_space: "fill store1 p c k s = Some s' \<Longrightarrow> lo s' = lo s \<and> hi s' = hi s \<and> limit s' = limit s"
proof -
  have "foldM (\<lambda>j. store1 (p + j) c) js s = Some s' \<Longrightarrow> lo s' = lo s \<and> hi s' = hi s \<and> limit s' = limit s" for js s
    by (induction js arbitrary: s) (auto simp: bind_eq_Some_conv dest: store1_space)
  then show "fill store1 p c k s = Some s' \<Longrightarrow> lo s' = lo s \<and> hi s' = hi s \<and> limit s' = limit s" by (simp add: fill_def)
qed

lemma holds_apart:
  assumes "inv s" "holds live rd s p k c" "holds live rd s q i d" "p \<noteq> q"
  shows "p + k \<le> q \<or> q + i \<le> p"
proof -
  obtain n m where "k \<le> n" "(p, n) \<in> live s" "i \<le> m" "(q, m) \<in> live s" using assms(2,3) by (auto simp: holds_def)
  then show ?thesis using live_apart [OF assms(1), of p n q m] assms(4) by auto
qed

lemma fill_holds:
  assumes inv: "inv s" and l: "(p, n) \<in> live s" and k: "k \<le> n" and c: "c < 256"
  shows "\<exists>s'. fill store1 p c k s = Some s' \<and> inv s' \<and> live s' = live s \<and> holds live rd s' p k c
    \<and> (\<forall>q i d. q \<noteq> p \<longrightarrow> holds live rd s q i d \<longrightarrow> holds live rd s' q i d)"
proof -
  obtain s' where s': "fill store1 p c k s = Some s'" "inv s'" "live s' = live s"
    "\<And>a. rd s' a = (if p \<le> a \<and> a < p + k then c else rd s a)"
    using fill_bytes [OF inv l k, of c] c by auto
  moreover have "holds live rd s' p k c" using s' l k by (auto simp: holds_def)
  moreover have "holds live rd s' q i d" if qp: "q \<noteq> p" and h: "holds live rd s q i d" for q i d
  proof -
    obtain m where m: "i \<le> m" "(q, m) \<in> live s" "\<forall>j < i. rd s (q + j) = d" using h by (auto simp: holds_def)
    have "rd s' (q + j) = d" if "j < i" for j
      using live_apart [OF inv l m(2)] qp m(1,3) that k unfolding s'(4) by auto
    then show ?thesis using m s'(3) by (auto simp: holds_def)
  qed
  ultimately show ?thesis by blast
qed

lemma alloc_holds:
  assumes inv: "inv s" and k: "0 < k" "k \<le> max_request" and a: "alloc k s = Some (p, s')" "p \<noteq> 0"
  shows "inv s' \<and> (\<exists>n \<ge> k. (p, n) \<in> live s') \<and> (\<forall>m. (p, m) \<notin> live s)
    \<and> (\<forall>q i d. holds live rd s q i d \<longrightarrow> holds live rd s' q i d \<and> (0 < i \<longrightarrow> p + k \<le> q \<or> q + i \<le> p))"
proof -
  obtain n where n: "inv s'" "k \<le> n" "\<forall>m. (p, m) \<notin> live s" "live s' = insert (p, n) (live s)"
    "\<forall>q m a. (q, m) \<in> live s \<longrightarrow> q \<le> a \<longrightarrow> a < q + m \<longrightarrow> rd s' a = rd s a"
    using alloc_law [OF inv k] a by auto
  have "holds live rd s' q i d \<and> (0 < i \<longrightarrow> p + k \<le> q \<or> q + i \<le> p)" if h: "holds live rd s q i d" for q i d
  proof -
    obtain m where m: "i \<le> m" "(q, m) \<in> live s" "\<forall>j < i. rd s (q + j) = d" using h by (auto simp: holds_def)
    have "p \<noteq> q" using m(2) n(3) by auto
    then have "p + n \<le> q \<or> q + m \<le> p" using live_apart [OF n(1), of p n q m] n(4) m(2) by auto
    moreover have "rd s' (q + j) = d" if "j < i" for j using n(5) m that by simp
    ultimately show ?thesis using m n(2,4) by (auto simp: holds_def)
  qed
  then show ?thesis using n by auto
qed

lemma dealloc_holds:
  assumes inv: "inv s" and h: "holds live rd s p k c"
  shows "\<exists>s'. dealloc p s = Some s' \<and> inv s' \<and> (\<forall>q i d. q \<noteq> p \<longrightarrow> holds live rd s q i d \<longrightarrow> holds live rd s' q i d)"
proof -
  obtain n where "(p, n) \<in> live s" using h by (auto simp: holds_def)
  then obtain s' where s': "dealloc p s = Some s'" "inv s'" "live s' = live s - {(p, n)}"
    "\<forall>q m a. (q, m) \<in> live s' \<longrightarrow> q \<le> a \<longrightarrow> a < q + m \<longrightarrow> rd s' a = rd s a"
    using dealloc_law [OF inv] by blast
  have "holds live rd s' q i d" if qp: "q \<noteq> p" and h: "holds live rd s q i d" for q i d
  proof -
    obtain m where m: "i \<le> m" "(q, m) \<in> live s" "\<forall>j < i. rd s (q + j) = d" using h by (auto simp: holds_def)
    then have l: "(q, m) \<in> live s'" using s'(3) qp by simp
    then have "\<forall>j < i. rd s' (q + j) = d" using s'(4) m by simp
    then show ?thesis using l m(1) by (auto simp: holds_def)
  qed
  then show ?thesis using s'(1,2) by blast
qed

lemma holds_payload:
  assumes "inv s" "holds live rd s p k c"
  shows "8 dvd p" "0 < p" "lo s \<le> p" "p + k \<le> hi s" "\<And>j. j < k \<Longrightarrow> load1 s (p + j) = Some c"
proof -
  obtain n where n: "k \<le> n" "(p, n) \<in> live s" "\<forall>j < k. rd s (p + j) = c" using assms(2) by (auto simp: holds_def)
  show "8 dvd p" "0 < p" "lo s \<le> p" "p + k \<le> hi s" using live_bounds [OF assms(1) n(2)] n(1) by simp_all
  show "load1 s (p + j) = Some c" if "j < k" for j using load1_law [OF assms(1) n(2), of "p + j"] n that by simp
qed

lemma resize_holds: "inv s \<Longrightarrow> holds live rd s p n c \<Longrightarrow> 0 < k \<Longrightarrow> k \<le> n \<Longrightarrow> resize p k s = Some (p, s)"
  unfolding holds_def using resize_law [of s p] le_trans by blast

end

section \<open>The allocator implements the interface\<close>

lemma heap_inv_write:
  assumes inv: "heap_inv s mid ps" and u: "(p, n) \<in> used s mid" and w: "p + 8 \<le> w" "w + 8 < p + n"
  shows "heap_inv (s\<lparr>mem := (mem s)(w := v)\<rparr>) mid ps"
proof -
  let ?bs = "(32, True) # mid @ [(32, True)]" and ?s = "s\<lparr>mem := (mem s)(w := v)\<rparr>"
  have ok: "heap_ok s ?bs" and fl: "free_list s ?bs ps" using inv by (simp_all add: heap_inv_def Let_def)
  have b: "(p, n, True) \<in> bset s ?bs" using u by (simp add: used_def used_at_def)
  have fr: "\<forall>q \<in> set ps. \<exists>n. (q, n, False) \<in> bset s ?bs" using fl unfolding free_list_def by blast
  have "heap_ok ?s ?bs"
  proof (rule heap_ok_interior [OF ok])
    fix x assume "((mem s)(w := v)) x \<noteq> mem s x"
    then have "x = w" by (auto split: if_splits)
    then show "\<exists>q k al. (q, k, al) \<in> bset s ?bs \<and> q + 8 \<le> x \<and> x < q + k - 8"
      using b w by (intro exI [of _ p] exI [of _ n] exI [of _ True]) auto
  qed
  moreover have "w \<notin> ptr_words ps"
    using ptr_words_free [OF ok fr] used_not_free [OF inv u, of w] w by auto
  then have "free_list ?s ?bs ps" by (intro free_list_transfer [OF fl]) (use fr in auto)
  ultimately show ?thesis using inv by (simp add: heap_inv_def Let_def)
qed

lemma live_write: "heap_inv s mid ps \<Longrightarrow> heap_inv (s\<lparr>mem := m\<rparr>) mid ps \<Longrightarrow> live (s\<lparr>mem := m\<rparr>) = live s"
  using live_used [of s mid ps] live_used [of "s\<lparr>mem := m\<rparr>" mid ps] by (simp add: used_def)

lemma live_bounds_heap:
  assumes inv: "heap_inv s mid ps" and l: "(p, n) \<in> live s"
  shows "8 dvd p" "8 dvd n" "16 \<le> n" "mem_start_brk s + 40 \<le> p" "p + n + 8 \<le> epilogue s"
proof -
  obtain q k where q: "(q, k) \<in> used s mid" "p = q + 8" "n + 16 = k" using live_cases [OF inv l] by blast
  note b = used_bounds [OF inv q(1)]
  show "8 dvd p" "16 \<le> n" "mem_start_brk s + 40 \<le> p" "p + n + 8 \<le> epilogue s" using b q by simp_all
  have "8 dvd n + 16" using b q by simp
  then show "8 dvd n" by presburger
qed

lemma live_apart_heap:
  assumes inv: "heap_inv s mid ps" and l: "(p, n) \<in> live s" "(q, m) \<in> live s"
  shows "p = q \<and> n = m \<or> p + n + 16 \<le> q \<or> q + m + 16 \<le> p"
proof -
  have wf: "wf_seq mid" using inv by (simp add: heap_inv_def Let_def heap_ok_def)
  obtain a i where a: "(a, i) \<in> used s mid" "p = a + 8" "n + 16 = i" using live_cases [OF inv l(1)] by blast
  obtain b j where b: "(b, j) \<in> used s mid" "q = b + 8" "m + 16 = j" using live_cases [OF inv l(2)] by blast
  have "(a, i, True) \<in> blocks (mem_start_brk s + 32) mid" "(b, j, True) \<in> blocks (mem_start_brk s + 32) mid"
    using a b by (simp_all add: used_def used_at_def)
  from blocks_disjoint [OF wf this] show ?thesis using a b by auto
qed

text \<open>The words of a payload: a byte of it is in a word of it.\<close>

lemma payload_word:
  assumes "8 dvd p" "8 dvd n" "p \<le> a" "a < p + (n::nat)"
  shows "p \<le> a - a mod 8" "a - a mod 8 + 8 \<le> p + n" "8 dvd a - a mod 8"
proof -
  obtain i j where ij: "p = 8 * i" "n = 8 * j" using assms(1,2) by blast
  let ?q = "a div 8"
  have a: "a - a mod 8 = 8 * ?q" by (simp add: minus_mod_eq_mult_div)
  have "i \<le> ?q" "?q < i + j" using assms(3,4) ij by (simp_all add: div_less_iff_less_mult less_eq_div_iff_mult_less_eq mult.commute)
  then show "p \<le> a - a mod 8" "a - a mod 8 + 8 \<le> p + n" "8 dvd a - a mod 8" unfolding a ij by simp_all
qed

lemma kept_byte:
  assumes inv: "heap_inv s mid ps" and k: "kept s s'" and l: "(q, m) \<in> live s" "q \<le> a" "a < q + m"
  shows "byte s' a = byte s a"
proof -
  note w = payload_word [OF live_bounds_heap(1,2) [OF inv l(1)] l(2,3)]
  then have "mem s' (a - a mod 8) = mem s (a - a mod 8)" using k l(1) unfolding kept_def by fastforce
  then show ?thesis by (simp add: byte_def)
qed

lemma store_byte_live:
  assumes inv: "heap_inv s mid ps" and l: "(p, n) \<in> live s" "p \<le> a" "a < p + n"
  shows "\<exists>s'. store_byte a b s = Some s' \<and> heap_inv s' mid ps \<and> live s' = live s \<and> byte s' = (byte s)(a := b mod 256)
    \<and> s' = s\<lparr>mem := mem s'\<rparr>" "load_byte s a = Some (byte s a)"
proof -
  obtain q k where q: "(q, k) \<in> used s mid" "p = q + 8" "n + 16 = k" using live_cases [OF inv l(1)] by blast
  let ?w = "a - a mod 8"
  note w = payload_word [OF live_bounds_heap(1,2) [OF inv l(1)] l(2,3)]
  have "epilogue s + 32 \<le> mem_max_addr s" using inv by (simp add: heap_inv_def Let_def heap_ok_def)
  then have st: "in_store s ?w"
    using w live_bounds_heap(4,5) [OF inv l(1)] unfolding in_store_def by simp
  then show "load_byte s a = Some (byte s a)" by (rule load_byte_eq)
  let ?m = "(mem s)(?w := u64 (set_byte (a mod 8) b (mem s ?w)))"
  have hi: "heap_inv (s\<lparr>mem := ?m\<rparr>) mid ps" using heap_inv_write [OF inv q(1), of ?w] w q by simp
  moreover have "byte (s\<lparr>mem := ?m\<rparr>) = (byte s)(a := b mod 256)"
  proof
    fix x :: nat
    have "x = x - x mod 8 + x mod 8" "a = ?w + a mod 8" by simp_all
    then have eq: "x - x mod 8 = ?w \<and> x mod 8 = a mod 8 \<longleftrightarrow> x = a" by metis
    show "byte (s\<lparr>mem := ?m\<rparr>) x = ((byte s)(a := b mod 256)) x"
      using eq by (auto simp: byte_def get_set_byte take_bit_eq_mod)
  qed
  ultimately show "\<exists>s'. store_byte a b s = Some s' \<and> heap_inv s' mid ps \<and> live s' = live s \<and> byte s' = (byte s)(a := b mod 256)
    \<and> s' = s\<lparr>mem := mem s'\<rparr>"
    using store_byte_eq [OF st] live_write [OF inv hi] by auto
qed

lemma mm_malloc_live:
  assumes inv: "heap_inv s mid ps" and k: "0 < k" "k \<le> 2 ^ 31 - 32" and ok: "\<not> (no_fit k s \<and> mem_max_addr s < mem_brk s + request_size k)"
  shows "\<exists>p n s' mid' ps'. mm_malloc k s = Some (p, s') \<and> heap_inv s' mid' ps' \<and> 0 < p \<and> k \<le> n \<and> (\<forall>m. (p, m) \<notin> live s)
    \<and> live s' = insert (p, n) (live s) \<and> kept s s' \<and> (separated mid \<longrightarrow> separated mid')
    \<and> mem_start_brk s' = mem_start_brk s \<and> mem_max_addr s' = mem_max_addr s"
proof -
  note r = request_size_ok [OF k]
  have "\<exists>b n s' mid' ps'. mm_malloc k s = Some (b + 8, s') \<and> heap_inv s' mid' ps' \<and> request_size k \<le> n
     \<and> used s' mid' = insert (b, n) (used s mid) \<and> (\<forall>m. (b, m) \<notin> used s mid) \<and> kept s s'
     \<and> (separated mid \<longrightarrow> separated mid') \<and> mem_start_brk s' = mem_start_brk s \<and> mem_max_addr s' = mem_max_addr s"
  proof (cases "no_fit k s")
    case True
    then have room: "mem_brk s + request_size k \<le> mem_max_addr s" using ok by simp
    have "(epilogue s, m) \<notin> used s mid" for m using used_bounds(2,3) [OF inv, of "epilogue s" m] by auto
    moreover have "separated mid \<longrightarrow> separated (mid @ [(request_size k, True)])" by (simp add: separated_append)
    ultimately show ?thesis using mm_malloc_extends [OF inv k True room] by blast
  next
    case False
    then obtain p where "p \<in> set ps" "request_size k \<le> bsz s p" using no_fit_sizes [OF inv] by (auto simp: not_less)
    then obtain b n s' mid' ps' where b: "mm_malloc k s = Some (b + 8, s')" "heap_inv s' mid' ps'" "b \<in> set ps" "request_size k \<le> n"
      "used s' mid' = insert (b, n) (used s mid)" "mem_start_brk s' = mem_start_brk s" "mem_max_addr s' = mem_max_addr s" "kept s s'"
      "separated mid \<longrightarrow> separated mid'"
      using mm_malloc_fits [OF inv k] by blast
    have "(b, m) \<notin> used s mid" for m
    proof
      assume u: "(b, m) \<in> used s mid"
      have "b \<in> free_at (mem_start_brk s) ((32, True) # mid @ [(32, True)])" using b(3) inv by (simp add: heap_inv_def Let_def)
      then obtain j where "(b, j, False) \<in> bset s ((32, True) # mid @ [(32, True)])" unfolding free_at_def by blast
      moreover have "heap_ok s ((32, True) # mid @ [(32, True)])" using inv by (simp add: heap_inv_def Let_def)
      ultimately have "b \<in> free_words s ((32, True) # mid @ [(32, True)])"
        using heap_ok_block(1) unfolding free_words_def by fastforce
      then show False using used_not_free [OF inv u, of b] used_bounds(3) [OF inv u] by simp
    qed
    then show ?thesis using b by blast
  qed
  then obtain b n s' mid' ps' where b: "mm_malloc k s = Some (b + 8, s')" "heap_inv s' mid' ps'" "request_size k \<le> n"
    "used s' mid' = insert (b, n) (used s mid)" "\<forall>m. (b, m) \<notin> used s mid" "kept s s'"
    "mem_start_brk s' = mem_start_brk s" "mem_max_addr s' = mem_max_addr s" "separated mid \<longrightarrow> separated mid'" by blast
  have "live s' = insert (b + 8, n - 16) (live s)" using live_used [OF b(2)] live_used [OF inv] b(4) by simp
  moreover have "(b + 8, m) \<notin> live s" for m
    using live_cases [OF inv, of "b + 8" m] b(5) by (metis add_right_cancel)
  moreover have "k \<le> n - 16" using r(4) b(3) by simp
  ultimately show ?thesis using b by (intro exI [of _ "b + 8"] exI [of _ "n - 16"] exI [of _ s'] exI [of _ mid'] exI [of _ ps']) simp
qed

lemma mm_free_live:
  assumes inv: "heap_inv s mid ps" and l: "(p, n) \<in> live s"
  shows "\<exists>s' mid' ps'. mm_free p s = Some s' \<and> heap_inv s' mid' ps' \<and> live s' = live s - {(p, n)} \<and> kept s' s
    \<and> (separated mid \<longrightarrow> separated mid') \<and> mem_start_brk s' = mem_start_brk s \<and> mem_max_addr s' = mem_max_addr s \<and> mem_brk s' = mem_brk s"
proof -
  obtain q k where q: "(q, k) \<in> used s mid" "p = q + 8" "n + 16 = k" "32 \<le> k" using live_cases [OF inv l] by blast
  obtain s' xs ys mid' ps' where s': "mm_free (q + 8) s = Some s'" "heap_inv s' mid' ps'" "used s' mid' = used s mid - {(q, k)}"
    "s' = s\<lparr>mem := mem s', flist_first := first ps'\<rparr>"
    "\<forall>w. w \<notin> {q..<q + k} \<union> free_words s ((32, True) # mid @ [(32, True)]) \<longrightarrow> mem s' w = mem s w"
    "mid = xs @ (k, True) # ys" "mid' = coalesced xs k ys"
    using mm_free_ok [OF inv q(1)] by blast
  have f: "mem_start_brk s' = mem_start_brk s" "mem_max_addr s' = mem_max_addr s" "mem_brk s' = mem_brk s" by (subst s'(4), simp)+
  have inj: "inj_on (\<lambda>(p, n). (p + 8, n - 16)) (used s mid)"
    using used_bounds(3) [OF inv] by (force simp: inj_on_def)
  have "live s' = live s - {(p, n)}"
    unfolding live_used [OF s'(2)] live_used [OF inv] s'(3)
    using inj_on_image_set_diff [OF inj, of "used s mid" "{(q, k)}"] q by auto
  moreover have "kept s' s"
    unfolding kept_def
  proof clarify
    fix r j w assume l: "(r, j) \<in> live s'" and w: "r \<le> w" "w < r + j"
    obtain a i where a: "(a, i) \<in> used s' mid'" "r = a + 8" "j + 16 = i" using live_cases [OF s'(2) l] by blast
    then have u: "(a, i) \<in> used s mid" "(a, i) \<noteq> (q, k)" using s'(3) by auto
    have wf: "wf_seq mid" using inv by (simp add: heap_inv_def Let_def heap_ok_def)
    have "w \<notin> {q..<q + k}"
      using blocks_disjoint [OF wf, of a i True "mem_start_brk s + 32" q k True] u q(1) a w by (auto simp: used_def used_at_def)
    then show "mem s w = mem s' w" using s'(5) used_not_free [OF inv u(1), of w] w a by simp
  qed
  moreover have "separated mid \<longrightarrow> separated mid'" unfolding s'(6,7) using separated_coalesced by blast
  ultimately show ?thesis using s'(1,2) q(2) f by blast
qed

lemma request_size_le:
  assumes "0 < k" "k \<le> n" "8 dvd n" "16 \<le> n" "n < 2 ^ 31"
  shows "request_size k \<le> n + 16"
proof -
  have "align k = (k + 7) div 8 * 8" using assms by (simp add: align_def)
  moreover have "(k + 7) div 8 \<le> (n + 7) div 8" using assms(2) by (intro div_le_mono) simp
  moreover obtain j where "n = 8 * j" using assms(3) by blast
  ultimately have "align k \<le> n" by simp
  then show ?thesis using assms by (simp add: request_size_def)
qed

lemma mm_realloc_shrinks:
  assumes inv: "heap_inv s mid ps" and l: "(p, n) \<in> live s" and k: "0 < k" "k \<le> n"
  shows "mm_realloc p k s = Some (p, s)"
proof -
  let ?bs = "(32, True) # mid @ [(32, True)]"
  obtain q j where q: "(q, j) \<in> used s mid" "p = q + 8" "n + 16 = j" "32 \<le> j" using live_cases [OF inv l] by blast
  have ok: "heap_ok s ?bs" using inv by (simp add: heap_inv_def Let_def)
  have b: "(q, j, True) \<in> bset s ?bs" using q by (simp add: used_def used_at_def)
  have "request_size k \<le> j"
    using request_size_le [OF k live_bounds_heap(2,3) [OF inv l]] heap_ok_block(10) [OF ok b] q by simp
  then show ?thesis
    using block_laws(2) [OF ok b] k(1) q by (simp add: mm_realloc_def payload_to_block_def Let_def)
qed

lemma mm_malloc_space:
  assumes "mm_inv s" and k: "0 < k" "k \<le> 2 ^ 31 - 32" and m: "mm_malloc k s = Some (p, s')"
  shows "mem_max_addr s' = mem_max_addr s" "mem_start_brk s' = mem_start_brk s" "mem_brk s \<le> mem_brk s'" "mem_brk s' \<le> mem_brk s + request_size k"
    "p = 0 \<Longrightarrow> mem_max_addr s < mem_brk s + request_size k"
proof -
  obtain mid ps where inv: "heap_inv s mid ps" using assms(1) unfolding mm_inv_def by blast
  have "mem_max_addr s' = mem_max_addr s \<and> mem_start_brk s' = mem_start_brk s \<and> mem_brk s \<le> mem_brk s' \<and> mem_brk s' \<le> mem_brk s + request_size k
    \<and> (p = 0 \<longrightarrow> mem_max_addr s < mem_brk s + request_size k)"
  proof (cases "no_fit k s")
    case True
    then show ?thesis
      using mm_malloc_extends [OF inv k True] mm_malloc_fails [OF inv k True] m by (fastforce simp: not_le)
  next
    case False
    then obtain q where "q \<in> set ps" "request_size k \<le> bsz s q" using no_fit_sizes [OF inv] by (auto simp: not_less)
    then show ?thesis using mm_malloc_fits [OF inv k] m by fastforce
  qed
  then show "mem_max_addr s' = mem_max_addr s" "mem_start_brk s' = mem_start_brk s" "mem_brk s \<le> mem_brk s'" "mem_brk s' \<le> mem_brk s + request_size k"
    "p = 0 \<Longrightarrow> mem_max_addr s < mem_brk s + request_size k" by blast+
qed

interpretation mm: allocator mm_inv live mem_heap_lo mem_brk byte mm_malloc mm_realloc mm_free load_byte store_byte "2 ^ 31 - 32"
  request_size mem_max_addr
proof
  fix s p n assume "mm_inv s" and l: "(p, n) \<in> live s"
  then obtain mid ps where inv: "heap_inv s mid ps" and sep: "separated mid" unfolding mm_inv_def by blast
  note b = live_bounds_heap [OF inv l]
  have e: "epilogue s + 32 = mem_brk s" using inv by (simp add: heap_inv_def Let_def)
  show "8 dvd p \<and> 0 < p \<and> mem_heap_lo s \<le> p \<and> p + n \<le> mem_brk s" using b e by (simp add: mem_heap_lo_def)
  show "0 < n" using b by simp
  show "p = q \<and> n = m \<or> p + n \<le> q \<or> q + m \<le> p" if "(q, m) \<in> live s" for q m
    using live_apart_heap [OF inv l that] by auto
  show "mm_realloc p k s = Some (p, s)" if "0 < k" "k \<le> n" for k using mm_realloc_shrinks [OF inv l that] .
  show "\<exists>s'. mm_free p s = Some s' \<and> mm_inv s' \<and> live s' = live s - {(p, n)} \<and>
      (\<forall>q m a. (q, m) \<in> live s' \<longrightarrow> q \<le> a \<longrightarrow> a < q + m \<longrightarrow> byte s' a = byte s a)"
    using mm_free_live [OF inv l] sep kept_byte [where s' = s] unfolding mm_inv_def by metis
  fix a assume a: "p \<le> a" "a < p + n"
  show "load_byte s a = Some (byte s a)" using store_byte_live(2) [OF inv l a] .
  show "\<exists>s'. store_byte a b s = Some s' \<and> mm_inv s' \<and> live s' = live s \<and> byte s' = (byte s)(a := b mod 256)" for b
    using store_byte_live(1) [OF inv l a] sep unfolding mm_inv_def by blast
next
  fix s p n s' assume "mm_inv s" and l: "(p, n) \<in> live s" and f: "mm_free p s = Some s'"
  then obtain mid ps where inv: "heap_inv s mid ps" unfolding mm_inv_def by blast
  show "mem_heap_lo s' = mem_heap_lo s \<and> mem_brk s' = mem_brk s \<and> mem_max_addr s' = mem_max_addr s"
    using mm_free_live [OF inv l] f by (auto simp: mem_heap_lo_def)
next
  fix a b s s' assume "store_byte a b s = Some s'"
  then show "mem_heap_lo s' = mem_heap_lo s \<and> mem_brk s' = mem_brk s \<and> mem_max_addr s' = mem_max_addr s"
    by (auto simp: mem_heap_lo_def store_byte_def load_def store_def split: if_splits)
next
  fix s p s' and k :: nat assume "mm_inv s" "0 < k" "k \<le> 2 ^ 31 - 32" "mm_malloc k s = Some (p, s')"
  then show "mem_max_addr s' = mem_max_addr s \<and> mem_heap_lo s' = mem_heap_lo s \<and> mem_brk s \<le> mem_brk s'
      \<and> mem_brk s' \<le> mem_brk s + request_size k \<and> (p = 0 \<longrightarrow> mem_max_addr s < mem_brk s + request_size k)"
    using mm_malloc_space [of s k p s'] by (simp add: mem_heap_lo_def)
next
  fix s and k :: nat assume "mm_inv s" and k: "0 < k" "k \<le> 2 ^ 31 - 32"
  then obtain mid ps where inv: "heap_inv s mid ps" and sep: "separated mid" unfolding mm_inv_def by blast
  show "mm_malloc k s = Some (0, s) \<or> (\<exists>p n s'. mm_malloc k s = Some (p, s') \<and> mm_inv s' \<and> k \<le> n \<and> (\<forall>m. (p, m) \<notin> live s)
      \<and> live s' = insert (p, n) (live s) \<and> (\<forall>q m a. (q, m) \<in> live s \<longrightarrow> q \<le> a \<longrightarrow> a < q + m \<longrightarrow> byte s' a = byte s a))"
  proof (cases "no_fit k s \<and> mem_max_addr s < mem_brk s + request_size k")
    case True
    then show ?thesis using mm_malloc_fails [OF inv k] by simp
  next
    case False
    then show ?thesis using mm_malloc_live [OF inv k] sep kept_byte [OF inv] unfolding mm_inv_def by metis
  qed
qed

end
