(* ===== verification/MmTheorems.thy ===== *)
theory MmTheorems
  imports MmCorrect
begin

text \<open>
  The theorems about the allocator: initialisation, allocation, freeing, reallocation and the
  heap check, the refinement of an abstract allocator, and the invariant of every state that
  a client can bring about.
\<close>

section \<open>An abstract allocator\<close>

text \<open>The abstract state maps the address of a payload in use to its bytes.\<close>

type_synonym payloads = "nat \<rightharpoonup> nat list"

datatype mm_call = Malloc nat | Realloc nat nat | Free nat | Write nat nat nat

definition payloads_of :: "heap \<Rightarrow> payloads" where
  "payloads_of s p = (if \<exists>n. (p, n) \<in> live s then Some (map (byte s) [p..<p + (THE n. (p, n) \<in> live s)]) else None)"

fun legal :: "mm_call \<Rightarrow> payloads \<Rightarrow> bool" where
  "legal (Malloc k) A \<longleftrightarrow> 0 < k \<and> k \<le> 2 ^ 31 - 32"
| "legal (Realloc p k) A \<longleftrightarrow> (\<exists>bs. A p = Some bs \<and> 0 < k \<and> k \<le> length bs)"
| "legal (Free p) A \<longleftrightarrow> p \<in> dom A"
| "legal (Write p i b) A \<longleftrightarrow> (\<exists>bs. A p = Some bs \<and> i < length bs)"

inductive spec_step :: "mm_call \<Rightarrow> nat \<Rightarrow> payloads \<Rightarrow> payloads \<Rightarrow> bool" where
  spec_malloc: "p \<noteq> 0 \<Longrightarrow> 8 dvd p \<Longrightarrow> k \<le> length bs \<Longrightarrow> A p = None \<Longrightarrow>
     (\<And>q cs. A q = Some cs \<Longrightarrow> p + length bs \<le> q \<or> q + length cs \<le> p) \<Longrightarrow> spec_step (Malloc k) p A (A(p \<mapsto> bs))"
| spec_malloc_fails: "spec_step (Malloc k) 0 A A"
| spec_realloc: "A p = Some bs \<Longrightarrow> k \<le> length bs \<Longrightarrow> spec_step (Realloc p k) p A A"
| spec_free: "p \<in> dom A \<Longrightarrow> spec_step (Free p) 0 A (A(p := None))"
| spec_write: "A p = Some bs \<Longrightarrow> i < length bs \<Longrightarrow> spec_step (Write p i b) 0 A (A(p \<mapsto> bs[i := b mod 256]))"

fun mm_exec :: "mm_call \<Rightarrow> heap \<Rightarrow> (nat \<times> heap) option" where
  "mm_exec (Malloc k) s = mm_malloc k s"
| "mm_exec (Realloc p k) s = mm_realloc p k s"
| "mm_exec (Free p) s = map_option (Pair 0) (mm_free p s)"
| "mm_exec (Write p i b) s = map_option (Pair 0) (store_byte (p + i) b s)"

lemma payloads_live:
  assumes "mm_inv s" "(p, n) \<in> live s"
  shows "payloads_of s p = Some (map (byte s) [p..<p + n])"
proof -
  have "m = n" if "(p, m) \<in> live s" for m
    using mm.live_apart [OF assms that] mm.live_positive [OF assms] mm.live_positive [OF assms(1) that] by auto
  then have "(THE n. (p, n) \<in> live s) = n" using assms(2) by blast
  then show ?thesis using assms(2) by (auto simp: payloads_of_def)
qed

lemma payloads_not_live: "(\<And>n. (p, n) \<notin> live s) \<Longrightarrow> payloads_of s p = None"
  by (simp add: payloads_of_def)

lemma payloads_Some:
  assumes "mm_inv s" "payloads_of s p = Some bs"
  shows "(p, length bs) \<in> live s" "bs = map (byte s) [p..<p + length bs]"
proof -
  obtain n where n: "(p, n) \<in> live s" using assms(2) payloads_not_live [of p s] by fastforce
  then have "bs = map (byte s) [p..<p + n]" using payloads_live [OF assms(1) n] assms(2) by simp
  then show "(p, length bs) \<in> live s" "bs = map (byte s) [p..<p + length bs]" using n by simp_all
qed

lemma payloads_eqI:
  assumes "mm_inv s" "mm_inv s'" and "(p, n) \<in> live s" "(p, n) \<in> live s'"
    and "\<And>a. p \<le> a \<Longrightarrow> a < p + n \<Longrightarrow> byte s' a = byte s a"
  shows "payloads_of s' p = payloads_of s p"
  using payloads_live [OF assms(1,3)] payloads_live [OF assms(2,4)] assms(5) by simp

lemma refines_malloc:
  assumes inv: "mm_inv s" and k: "0 < k" "k \<le> 2 ^ 31 - 32"
  shows "\<exists>r s'. mm_malloc k s = Some (r, s') \<and> mm_inv s' \<and> spec_step (Malloc k) r (payloads_of s) (payloads_of s')"
  using mm.alloc_law [OF inv k]
proof
  assume "mm_malloc k s = Some (0, s)"
  then show ?thesis using inv spec_malloc_fails by blast
next
  assume "\<exists>p n s'. mm_malloc k s = Some (p, s') \<and> mm_inv s' \<and> k \<le> n \<and> (\<forall>m. (p, m) \<notin> live s) \<and>
     live s' = insert (p, n) (live s) \<and> (\<forall>q m a. (q, m) \<in> live s \<longrightarrow> q \<le> a \<longrightarrow> a < q + m \<longrightarrow> byte s' a = byte s a)"
  then obtain p n s' where s': "mm_malloc k s = Some (p, s')" "mm_inv s'" "k \<le> n" "\<forall>m. (p, m) \<notin> live s"
    "live s' = insert (p, n) (live s)" "\<forall>q m a. (q, m) \<in> live s \<longrightarrow> q \<le> a \<longrightarrow> a < q + m \<longrightarrow> byte s' a = byte s a"
    by blast
  let ?bs = "map (byte s') [p..<p + n]"
  have "payloads_of s' q = ((payloads_of s)(p \<mapsto> ?bs)) q" for q
  proof (cases "q = p")
    case True
    then show ?thesis using payloads_live [OF s'(2), of p n] s'(5) by simp
  next
    case False
    show ?thesis
    proof (cases "\<exists>m. (q, m) \<in> live s")
      case True
      then obtain m where m: "(q, m) \<in> live s" by blast
      then have "payloads_of s' q = payloads_of s q" using payloads_eqI [OF inv s'(2) m] s'(5,6) by simp
      then show ?thesis using False by simp
    next
      case F: False
      then have "payloads_of s' q = None" "payloads_of s q = None" using False s'(5) by (auto intro!: payloads_not_live)
      then show ?thesis using False by simp
    qed
  qed
  then have eq: "payloads_of s' = (payloads_of s)(p \<mapsto> ?bs)" by blast
  have "spec_step (Malloc k) p (payloads_of s) (payloads_of s')"
    unfolding eq
  proof (rule spec_malloc)
    show "p \<noteq> 0" "8 dvd p" using mm.live_bounds [OF s'(2), of p n] s'(5) by auto
    show "k \<le> length ?bs" "payloads_of s p = None" using s'(3,4) payloads_not_live by auto
    fix q cs assume "payloads_of s q = Some cs"
    then have q: "(q, length cs) \<in> live s" using payloads_Some(1) [OF inv] by blast
    then have "p \<noteq> q" using s'(4) by blast
    then show "p + length ?bs \<le> q \<or> q + length cs \<le> p"
      using mm.live_apart [OF s'(2), of p n q "length cs"] q s'(5) by auto
  qed
  then show ?thesis using s'(1,2) by blast
qed

lemma refines_free:
  assumes inv: "mm_inv s" and p: "p \<in> dom (payloads_of s)"
  shows "\<exists>s'. mm_free p s = Some s' \<and> mm_inv s' \<and> spec_step (Free p) 0 (payloads_of s) (payloads_of s')"
proof -
  obtain bs where "payloads_of s p = Some bs" using p by blast
  then have l: "(p, length bs) \<in> live s" using payloads_Some(1) [OF inv] by blast
  then obtain s' where s': "mm_free p s = Some s'" "mm_inv s'" "live s' = live s - {(p, length bs)}"
    "\<forall>q m a. (q, m) \<in> live s' \<longrightarrow> q \<le> a \<longrightarrow> a < q + m \<longrightarrow> byte s' a = byte s a"
    using mm.dealloc_law [OF inv] by blast
  have u: "n = length bs" if "(p, n) \<in> live s" for n
    using mm.live_apart [OF inv l that] mm.live_positive [OF inv l] mm.live_positive [OF inv that] by auto
  have "payloads_of s' q = ((payloads_of s)(p := None)) q" for q
  proof (cases "q \<noteq> p \<and> (\<exists>m. (q, m) \<in> live s)")
    case True
    then obtain m where m: "(q, m) \<in> live s" "(q, m) \<in> live s'" using s'(3) by blast
    then show ?thesis using payloads_eqI [OF inv s'(2) m] s'(4) True by simp
  next
    case False
    then have "payloads_of s' q = None" "q \<noteq> p \<longrightarrow> payloads_of s q = None"
      using s'(3) u by (auto intro!: payloads_not_live)
    then show ?thesis by simp
  qed
  then have "payloads_of s' = (payloads_of s)(p := None)" by blast
  then show ?thesis using s'(1,2) spec_free [OF p] by auto
qed

lemma refines_write:
  assumes inv: "mm_inv s" and p: "payloads_of s p = Some bs" "i < length bs"
  shows "\<exists>s'. store_byte (p + i) b s = Some s' \<and> mm_inv s' \<and> spec_step (Write p i b) 0 (payloads_of s) (payloads_of s')"
proof -
  note l = payloads_Some [OF inv p(1)]
  obtain s' where s': "store_byte (p + i) b s = Some s'" "mm_inv s'" "live s' = live s" "byte s' = (byte s)(p + i := b mod 256)"
    using mm.store1_law [OF inv l(1), of "p + i" b] p(2) by auto
  have "payloads_of s' q = ((payloads_of s)(p \<mapsto> bs[i := b mod 256])) q" for q
  proof (cases "\<exists>m. (q, m) \<in> live s")
    case True
    then obtain m where m: "(q, m) \<in> live s" by blast
    show ?thesis
    proof (cases "q = p")
      case True
      have "map (byte s') [p..<p + length bs] = (map (byte s) [p..<p + length bs])[i := b mod 256]"
        by (rule nth_equalityI) (auto simp: s'(4) nth_list_update)
      then show ?thesis using payloads_live [OF s'(2), of p "length bs"] s'(3) l True by simp
    next
      case False
      then have "byte s' a = byte s a" if "q \<le> a" "a < q + m" for a
        using mm.live_apart [OF inv l(1) m] p(2) that unfolding s'(4) by auto
      then show ?thesis using payloads_eqI [OF inv s'(2) m] s'(3) m False by simp
    qed
  next
    case False
    then have "q \<noteq> p" using l(1) by blast
    then show ?thesis using False s'(3) payloads_not_live [of q] by simp
  qed
  then have "payloads_of s' = (payloads_of s)(p \<mapsto> bs[i := b mod 256])" by blast
  then show ?thesis using s'(1,2) spec_write [of "payloads_of s" p bs i b] p by auto
qed

lemma mm_refines:
  assumes inv: "mm_inv s" and c: "legal c (payloads_of s)"
  shows "\<exists>r s'. mm_exec c s = Some (r, s') \<and> mm_inv s' \<and> spec_step c r (payloads_of s) (payloads_of s')"
proof (cases c)
  case (Realloc p k)
  then obtain bs where p: "payloads_of s p = Some bs" "0 < k" "k \<le> length bs" using c by auto
  then have "mm_realloc p k s = Some (p, s)" using mm.resize_law [OF inv payloads_Some(1) [OF inv p(1)]] by blast
  then show ?thesis using Realloc inv spec_realloc [of "payloads_of s" p bs k] p by auto
qed (use c refines_malloc [OF inv] refines_free [OF inv] refines_write [OF inv] in \<open>fastforce+\<close>)

section \<open>The states a client can bring about\<close>

text \<open>\<open>base\<close> is where \<^verbatim>\<open>mem_init\<close> got its memory. Every call has to be legal, its result is arbitrary.\<close>

inductive mm_reachable :: "nat \<Rightarrow> heap \<Rightarrow> bool" for base where
  reach_init: "mem_init base s0 = Some s1 \<Longrightarrow> mm_init (mem_reset_brk s1) = Some (0, s) \<Longrightarrow> mm_reachable base s"
| reach_call: "mm_reachable base s \<Longrightarrow> legal c (payloads_of s) \<Longrightarrow> mm_exec c s = Some (r, s') \<Longrightarrow> mm_reachable base s'"

lemma mm_init_inv:
  assumes "8 dvd base" "0 < base" "base + MAX_HEAP < 2 ^ 63" "mem_init base s0 = Some s1"
  shows "\<exists>s. mm_init (mem_reset_brk s1) = Some (0, s) \<and> mm_inv s \<and> live s = {}"
proof -
  have "fresh_store (mem_reset_brk s1)" using assms by (auto simp: mem_init_def mem_reset_brk_def fresh_store_def)
  then obtain s where s: "mm_init (mem_reset_brk s1) = Some (0, s)" "heap_inv s [(32, False)] [mem_start_brk (mem_reset_brk s1) + 32]"
    using mm_init_ok by blast
  then have "live s = {}" using live_used [OF s(2)] by (simp add: used_def)
  moreover have "mm_inv s" unfolding mm_inv_def using s(2) by (intro exI [of _ "[(32, False)]"]) auto
  ultimately show ?thesis using s(1) by blast
qed

lemma reachable_inv:
  assumes base: "8 dvd base" "0 < base" "base + MAX_HEAP < 2 ^ 63" and r: "mm_reachable base s"
  shows "mm_inv s"
  using r
proof induction
  case (reach_init s0 s1 s)
  then show ?case using mm_init_inv [OF base reach_init(1)] by auto
next
  case (reach_call s c r s')
  then show ?case using mm_refines [of s c] by auto
qed

section \<open>The heap check\<close>

lemma check_free_ok:
  assumes ok: "heap_ok s bs"
  shows "free_list s bs (pre @ cs) \<Longrightarrow> pre \<noteq> [] \<Longrightarrow> length cs < fuel \<Longrightarrow>
    check_free fuel (if cs = [] then flist_first s else hd cs) s = Some 0"
proof (induction cs arbitrary: pre fuel)
  case Nil
  then show ?case by (cases fuel) auto
next
  case (Cons x cs)
  then obtain f where f: "fuel = Suc f" by (cases fuel) auto
  have ne: "x \<noteq> flist_first s" using Cons.prems(1,2) by (cases pre) (auto simp: free_list_def first_def)
  obtain n where n: "(x, n, False) \<in> bset s bs" using free_list_block [OF Cons.prems(1), of x] by auto
  have a: "block_allocated x s = Some 0" using block_laws [OF ok n] by simp
  have nx: "block_next_free x s = Some (if cs = [] then flist_first s else hd cs)"
    using free_list_wrap [OF ok, of pre x] free_list_next(1) [OF ok, of pre x] Cons.prems(1) by (cases cs) auto
  show ?case using Cons.IH [of "pre @ [x]" f] Cons.prems f ne a nx by simp
qed

lemma mm_check_heap_eq:
  assumes inv: "heap_inv s mid ps"
  shows "mm_check_heap s = (if ps = [] then None else Some (0, enum_blocks (mem_start_brk s + 32) mid))"
proof -
  let ?bs = "(32, True) # mid @ [(32, True)]"
  have ok: "heap_ok s ?bs" and fl: "free_list s ?bs ps" and pr: "prologue s = mem_start_brk s"
    using inv by (simp_all add: heap_inv_def Let_def)
  have b: "block_next (prologue s) s = Some (prologue s + 32)"
    using block_laws [OF ok, of "mem_start_brk s" 32 True] pr by simp
  show ?thesis
  proof (cases ps)
    case Nil
    have "\<not> in_store s 0" using ok by (simp add: in_store_def heap_ok_def)
    then show ?thesis using Nil free_list_empty [OF inv] b heap_inv_walk [OF inv]
      by (simp add: mm_check_heap_def block_allocated_def load_def)
  next
    case (Cons x cs)
    then have x: "flist_first s = x" using fl by (simp add: free_list_def first_def)
    obtain n where n: "(x, n, False) \<in> bset s ?bs" using free_list_block [OF fl, of x] Cons by auto
    have a: "block_allocated x s = Some 0" using block_laws [OF ok n] by simp
    have nx: "block_next_free x s = Some (if cs = [] then flist_first s else hd cs)"
      using free_list_wrap [OF ok, of "[]" x] free_list_next(1) [OF ok, of "[]" x] fl Cons by (cases cs) auto
    have "length cs < list_fuel s"
      using list_fuel_enough(1) [OF ok, of ps] fl Cons by (simp add: free_list_def)
    then have "check_free (list_fuel s) (if cs = [] then flist_first s else hd cs) s = Some 0"
      using check_free_ok [OF ok, of "[x]" cs] fl Cons by simp
    then show ?thesis using Cons b heap_inv_walk [OF inv] x a nx by (simp add: mm_check_heap_def)
  qed
qed

section \<open>A heap with nothing in use\<close>

lemma nothing_used:
  assumes "used_at a bs = {}" "separated bs" "bs \<noteq> []"
  shows "\<exists>n. bs = [(n, False)]"
proof -
  obtain n b bs' where bs: "bs = (n, b) # bs'" using assms(3) by (cases bs) auto
  then have "\<not> b" using assms(1) by auto
  moreover have "bs' = []"
  proof (rule ccontr)
    assume "bs' \<noteq> []"
    then obtain m c bs'' where "bs' = (m, c) # bs''" by (cases bs') auto
    then show False using assms(1,2) bs \<open>\<not> b\<close> by (auto split: if_splits)
  qed
  ultimately show ?thesis using bs by simp
qed

lemma empty_heap_fits:
  assumes inv: "heap_inv s mid ps" "separated mid" and l: "live s = {}"
    and k: "0 < k" "k \<le> 2 ^ 31 - 32" "request_size k + 64 \<le> mem_heapsize s"
  shows "\<not> no_fit k s"
proof -
  have "used_at (mem_start_brk s + 32) mid = {}" using live_used [OF inv(1)] l by (simp add: used_def)
  moreover have "mem_heapsize s = total mid + 64" using inv(1) by (simp add: heap_inv_def Let_def mem_heapsize_def)
  then have "mid \<noteq> []" using k(3) request_size_ok(1) [OF k(1,2)] by auto
  ultimately obtain n where n: "mid = [(n, False)]" using nothing_used inv(2) by blast
  have "mem_heapsize s = n + 64" using inv(1) n by (simp add: heap_inv_def Let_def mem_heapsize_def)
  moreover have "(mem_start_brk s + 32, n, 0) \<in> set (heap_walk s)" using free_walk [OF inv(1)] n by simp
  ultimately show ?thesis using k(3) unfolding no_fit_def by fastforce
qed

section \<open>The walk over the heap\<close>

definition tiles :: "nat \<times> nat \<times> nat \<Rightarrow> nat \<times> nat \<times> nat \<Rightarrow> bool" where
  "tiles = (\<lambda>(p, n, a) (q, m, b). q = p + n \<and> (a \<noteq> 0 \<or> b \<noteq> 0))"

lemma walk_tiles: "separated bs \<Longrightarrow> successively tiles (enum_blocks a bs)"
  by (induction bs arbitrary: a rule: separated.induct) (auto simp: tiles_def)

lemma inv_walk: "mm_inv s \<Longrightarrow> successively tiles (heap_walk s)"
  unfolding mm_inv_def using walk_tiles heap_inv_walk by (fastforce simp: heap_walk_def)

section \<open>A heap to try the theorems on\<close>

definition example_heap :: heap where
  "example_heap = \<lparr>mem = init_mem 4096 (\<lambda>_. 0), mem_start_brk = 4096, mem_brk = 4192, mem_max_addr = 4096 + MAX_HEAP,
     flist_first = 4128, prologue = 4096, epilogue = 4160\<rparr>"

definition blank_store :: heap where
  "blank_store = \<lparr>mem = (\<lambda>_. 0), mem_start_brk = 4096, mem_brk = 4096, mem_max_addr = 4096 + MAX_HEAP,
     flist_first = 0, prologue = 0, epilogue = 0\<rparr>"

lemma example_heap_init: "mem_init 4096 blank_store = Some blank_store" "mm_init (mem_reset_brk blank_store) = Some (0, example_heap)"
proof -
  show "mem_init 4096 blank_store = Some blank_store" by (simp add: mem_init_def blank_store_def)
  have "fresh_store (mem_reset_brk blank_store)" by (simp add: fresh_store_def mem_reset_brk_def blank_store_def)
  from mm_init_eq [OF this] show "mm_init (mem_reset_brk blank_store) = Some (0, example_heap)"
    by (simp add: mem_reset_brk_def blank_store_def example_heap_def)
qed

lemma example_heap_inv: "mm_inv example_heap" "live example_heap = {}"
  using mm_init_inv [of 4096 blank_store blank_store] example_heap_init by auto

lemma example_heap_blocks: "heap_inv example_heap [(32, False)] [4128]" "heap_walk example_heap = [(4128, 32, 0)]"
proof -
  have "fresh_store (mem_reset_brk blank_store)" "mem_start_brk (mem_reset_brk blank_store) = 4096"
    by (simp_all add: fresh_store_def mem_reset_brk_def blank_store_def)
  then show h: "heap_inv example_heap [(32, False)] [4128]" using mm_init_ok example_heap_init(2) by fastforce
  have "mem_start_brk example_heap = 4096" by (simp add: example_heap_def)
  then show "heap_walk example_heap = [(4128, 32, 0)]" using heap_inv_walk [OF h] by (simp add: heap_walk_def)
qed

lemma example_reachable: "mm_reachable 4096 example_heap"
  by (rule reach_init [OF example_heap_init])

lemma example_alloc:
  "\<exists>s. mm_malloc 100 example_heap = Some (4168, s) \<and> heap_inv s [(32, False), (120, True)] [4128] \<and> mm_inv s \<and> live s = {(4168, 104)}
     \<and> mem_start_brk s = 4096 \<and> mem_max_addr s = 4096 + MAX_HEAP"
proof -
  have no: "no_fit 100 example_heap" by (simp add: no_fit_def example_heap_blocks(2) request_size_def align_def)
  have r: "request_size 100 = 120" by (simp add: request_size_def align_def)
  have e: "epilogue example_heap = 4160" "mem_start_brk example_heap = 4096" "mem_max_addr example_heap = 4096 + MAX_HEAP"
    "mem_brk example_heap = 4192" by (simp_all add: example_heap_def)
  obtain s where s: "mm_malloc 100 example_heap = Some (4168, s)" "heap_inv s [(32, False), (120, True)] [4128]"
    "mem_start_brk s = 4096" "mem_max_addr s = 4096 + MAX_HEAP"
    using mm_malloc_extends [OF example_heap_blocks(1), of 100] no by (auto simp: r e)
  have "live s = {(4168, 104)}" using live_used [OF s(2)] s(3) by (simp add: used_def)
  moreover have "mm_inv s" unfolding mm_inv_def using s(2) by (intro exI [of _ "[(32, False), (120, True)]"]) auto
  ultimately show ?thesis using s by blast
qed

section \<open>Theorems\<close>

text \<open>After \<^verbatim>\<open>mem_init\<close> at an aligned address, \<^verbatim>\<open>mm_init\<close> succeeds and leaves a consistent heap with
  no payload in use.\<close>

theorem mm_init_correct:
  assumes "8 dvd base" "0 < base" "base + MAX_HEAP < 2 ^ 63" "mem_init base s0 = Some s1"
  shows "\<exists>s. mm_init (mem_reset_brk s1) = Some (0, s) \<and> mm_inv s \<and> live s = {} \<and> mm_check_heap s = Some (0, [(base + 32, 32, 0)])"
proof -
  have f: "fresh_store (mem_reset_brk s1)" and b: "mem_start_brk (mem_reset_brk s1) = base"
    using assms by (auto simp: mem_init_def mem_reset_brk_def fresh_store_def)
  obtain s where s: "mm_init (mem_reset_brk s1) = Some (0, s)" "heap_inv s [(32, False)] [base + 32]" "mem_start_brk s = base"
    using mm_init_ok [OF f] b by auto
  have "mm_check_heap s = Some (0, [(base + 32, 32, 0)])" using mm_check_heap_eq [OF s(2)] s(3) by simp
  then show ?thesis using s(1) mm_init_inv [OF assms] by auto
qed

theorem mm_init_correct_witness:
  "mm_init (mem_reset_brk blank_store) = Some (0, example_heap) \<and> mm_check_heap example_heap = Some (0, [(4128, 32, 0)])"
  using mm_init_correct [of 4096 blank_store blank_store] example_heap_init by simp

text \<open>C1. For a request of 1 to 2147483616 bytes, \<^verbatim>\<open>mm_malloc\<close> fails exactly when no free block is large
  enough and the heap cannot grow by the block size; then nothing changes. Otherwise it returns
  an aligned payload of at least that many bytes that overlaps no payload in use, and no byte
  of a payload in use changes.\<close>

theorem mm_malloc_correct:
  assumes inv: "mm_inv s" and k: "0 < k" "k \<le> 2 ^ 31 - 32"
  shows "\<exists>r s'. mm_malloc k s = Some (r, s') \<and> mm_inv s' \<and>
    (if no_fit k s \<and> mem_max_addr s < mem_brk s + request_size k then r = 0 \<and> s' = s
     else r \<noteq> 0 \<and> 8 dvd r \<and> (\<exists>n \<ge> k. live s' = insert (r, n) (live s) \<and> (\<forall>(q, m) \<in> live s. r + n \<le> q \<or> q + m \<le> r))
       \<and> (\<forall>(q, m) \<in> live s. \<forall>a \<in> {q..<q + m}. byte s' a = byte s a))"
proof -
  obtain mid ps where h: "heap_inv s mid ps" "separated mid" using inv unfolding mm_inv_def by blast
  show ?thesis
  proof (cases "no_fit k s \<and> mem_max_addr s < mem_brk s + request_size k")
    case True
    then show ?thesis using mm_malloc_fails [OF h(1) k] inv by simp
  next
    case False
    obtain p n s' mid' ps' where s': "mm_malloc k s = Some (p, s')" "heap_inv s' mid' ps'" "0 < p" "k \<le> n" "\<forall>m. (p, m) \<notin> live s"
      "live s' = insert (p, n) (live s)" "kept s s'" "separated mid'"
      using mm_malloc_live [OF h(1) k False] h(2) by blast
    have i: "mm_inv s'" using s'(2,8) unfolding mm_inv_def by blast
    have "p + n \<le> q \<or> q + m \<le> p" if "(q, m) \<in> live s" for q m
      using mm.live_apart [OF i, of p n q m] that s'(5,6) by auto
    moreover have "8 dvd p" using mm.live_bounds [OF i, of p n] s'(6) by simp
    moreover have "byte s' a = byte s a" if "(q, m) \<in> live s" "a \<in> {q..<q + m}" for q m a
      using kept_byte [OF h(1) s'(7) that(1), of a] that(2) by simp
    ultimately show ?thesis using False s'(1,3,4,6) i by (simp only: if_False) blast
  qed
qed

theorem mm_malloc_correct_witness:
  "\<exists>r s' n. mm_malloc 100 example_heap = Some (r, s') \<and> r \<noteq> 0 \<and> 100 \<le> n \<and> live s' = {(r, n)}"
proof -
  have "mem_brk example_heap + request_size 100 \<le> mem_max_addr example_heap"
    by (simp add: example_heap_def request_size_def align_def)
  then show ?thesis using mm_malloc_correct [OF example_heap_inv(1), of 100] example_heap_inv(2) by auto
qed

text \<open>C5. When some free block is large enough, \<^verbatim>\<open>mm_malloc\<close> takes a smallest such block.\<close>

theorem mm_malloc_best_fit:
  assumes inv: "mm_inv s" and k: "0 < k" "k \<le> 2 ^ 31 - 32" and fit: "\<not> no_fit k s"
  shows "\<exists>b n s'. mm_malloc k s = Some (b + WORD_SIZE, s') \<and> (b, n, 0) \<in> set (heap_walk s) \<and> request_size k \<le> n
    \<and> (\<forall>(b', n', a) \<in> set (heap_walk s). a = 0 \<and> request_size k \<le> n' \<longrightarrow> n \<le> n') \<and> mem_brk s' = mem_brk s"
proof -
  obtain mid ps where h: "heap_inv s mid ps" using inv unfolding mm_inv_def by blast
  obtain p where "p \<in> set ps" "request_size k \<le> bsz s p" using fit no_fit_sizes [OF h] by (auto simp: not_less)
  then obtain b s' n where b: "mm_malloc k s = Some (b + 8, s')" "b \<in> set ps" "mem_brk s' = mem_brk s"
    "\<forall>q \<in> set ps. request_size k \<le> bsz s q \<longrightarrow> bsz s b \<le> bsz s q" "request_size k \<le> n" "n \<le> bsz s b"
    using mm_malloc_fits [OF h k] by blast
  have "(b, bsz s b, 0) \<in> set (heap_walk s)" using free_sizes [OF h] b(2) by blast
  moreover have "bsz s b \<le> n'" if "(b', n', a) \<in> set (heap_walk s)" "a = 0" "request_size k \<le> n'" for b' n' a
    using free_sizes [OF h, of b' n'] b(4) that by simp
  ultimately show ?thesis using b le_trans [OF b(5,6)]
    by (intro exI [of _ b] exI [of _ "bsz s b"] exI [of _ s']) auto
qed

theorem mm_malloc_best_fit_witness:
  "\<exists>s'. mm_malloc 16 example_heap = Some (4136, s') \<and> mem_brk s' = mem_brk example_heap"
proof -
  have "\<not> no_fit 16 example_heap" by (simp add: no_fit_def example_heap_blocks(2) request_size_def align_def)
  then show ?thesis using mm_malloc_best_fit [OF example_heap_inv(1), of 16] example_heap_blocks(2) by auto
qed

text \<open>C3. \<^verbatim>\<open>mm_free\<close> on a payload in use returns, removes that payload and nothing else from the payloads in
  use, keeps the heap consistent and leaves every byte of the other payloads alone; on \<^verbatim>\<open>NULL\<close> it
  does nothing.\<close>

theorem mm_free_correct:
  assumes inv: "mm_inv s" and p: "p = 0 \<or> (p, n) \<in> live s"
  shows "\<exists>s'. mm_free p s = Some s' \<and> mm_inv s' \<and> live s' = live s - {(p, n)}
    \<and> (\<forall>(q, m) \<in> live s'. \<forall>a \<in> {q..<q + m}. byte s' a = byte s a) \<and> (p = 0 \<longrightarrow> s' = s)"
proof (cases "p = 0")
  case True
  have "(0, n) \<notin> live s" using mm.live_bounds [OF inv, of 0 n] by auto
  then show ?thesis using True inv by (auto simp: mm_free_def)
next
  case False
  then obtain s' where s': "mm_free p s = Some s'" "mm_inv s'" "live s' = live s - {(p, n)}"
    "\<forall>q m a. (q, m) \<in> live s' \<longrightarrow> q \<le> a \<longrightarrow> a < q + m \<longrightarrow> byte s' a = byte s a"
    using mm.dealloc_law [OF inv, of p n] p by blast
  have "\<forall>(q, m) \<in> live s'. \<forall>a \<in> {q..<q + m}. byte s' a = byte s a" using s'(4) by auto
  then show ?thesis using False s'(1-3) by blast
qed

theorem mm_free_correct_witness:
  "\<exists>s' s''. mm_malloc 100 example_heap = Some (4168, s') \<and> live s' = {(4168, 104)} \<and> mm_free 4168 s' = Some s'' \<and> live s'' = {}"
proof -
  obtain s' where "mm_malloc 100 example_heap = Some (4168, s')" "mm_inv s'" "live s' = {(4168, 104)}" using example_alloc by blast
  then show ?thesis using mm_free_correct [of s' 4168 104] by auto
qed

text \<open>C2. Every call a client may make refines the abstract allocator: it returns, keeps the heap
  consistent, and its effect on the payloads and their bytes is a step of the specification.\<close>

theorem mm_refines_allocator:
  assumes "mm_inv s" "legal c (payloads_of s)"
  shows "\<exists>r s'. mm_exec c s = Some (r, s') \<and> mm_inv s' \<and> spec_step c r (payloads_of s) (payloads_of s')"
  using mm_refines [OF assms] .

theorem mm_refines_allocator_witness:
  "\<exists>r s'. mm_exec (Malloc 24) example_heap = Some (r, s') \<and> mm_inv s'
     \<and> spec_step (Malloc 24) r (payloads_of example_heap) (payloads_of s')"
  using mm_refines_allocator [OF example_heap_inv(1), of "Malloc 24"] by simp

text \<open>C4. In every state a client can bring about by legal calls the payloads in use are aligned, lie
  within the heap and do not overlap, the walk of \<^verbatim>\<open>mm_check_heap\<close> meets blocks that follow one
  another without gaps, and no two neighbouring blocks are both free.\<close>

theorem mm_reachable_safe:
  assumes "8 dvd base" "0 < base" "base + MAX_HEAP < 2 ^ 63" "mm_reachable base s"
  shows "(\<forall>(p, n) \<in> live s. 8 dvd p \<and> mem_heap_lo s \<le> p \<and> p + n \<le> mem_brk s)
    \<and> (\<forall>(p, n) \<in> live s. \<forall>(q, m) \<in> live s. (p, n) = (q, m) \<or> p + n \<le> q \<or> q + m \<le> p)
    \<and> successively tiles (heap_walk s)"
proof -
  have inv: "mm_inv s" using reachable_inv [OF assms] .
  then show ?thesis using mm.live_bounds [OF inv] mm.live_apart [OF inv] inv_walk [OF inv] by blast
qed

theorem mm_reachable_safe_witness: "\<exists>s. mm_reachable 4096 s \<and> successively tiles (heap_walk s) \<and> heap_walk s \<noteq> []"
  using mm_reachable_safe [of 4096 example_heap] example_reachable example_heap_blocks(2)
  by (intro exI [of _ example_heap]) simp

text \<open>\<^verbatim>\<open>mm_check_heap\<close> on a consistent heap reports success whenever the free list is not empty; with
  an empty free list it reads through a null pointer.\<close>

theorem mm_check_heap_result:
  assumes "mm_inv s"
  shows "mm_check_heap s = (if flist_first s = 0 then None else Some (0, heap_walk s))"
proof -
  obtain mid ps where h: "heap_inv s mid ps" using assms unfolding mm_inv_def by blast
  show ?thesis using mm_check_heap_eq [OF h] free_list_empty [OF h] heap_inv_walk [OF h] by (simp add: heap_walk_def)
qed

theorem mm_check_heap_result_witness: "mm_check_heap example_heap = Some (0, [(4128, 32, 0)])"
  using mm_check_heap_result [OF example_heap_inv(1)] example_heap_blocks(2) by (simp add: example_heap_def)

text \<open>C6. Once every payload is freed the whole heap is one free block again: every request that fits into
  the heap succeeds without growing it.\<close>

theorem mm_freed_heap_reusable:
  assumes inv: "mm_inv s" and l: "live s = {}" and k: "0 < k" "k \<le> 2 ^ 31 - 32" "request_size k + 64 \<le> mem_heapsize s"
  shows "\<exists>r s'. mm_malloc k s = Some (r, s') \<and> r \<noteq> 0 \<and> mem_brk s' = mem_brk s"
proof -
  obtain mid ps where h: "heap_inv s mid ps" "separated mid" using inv unfolding mm_inv_def by blast
  have "\<not> no_fit k s" by (rule empty_heap_fits [OF h l k])
  then obtain p where "p \<in> set ps" "request_size k \<le> bsz s p" using no_fit_sizes [OF h(1)] by (auto simp: not_less)
  then show ?thesis using mm_malloc_fits [OF h(1) k(1,2)] by fastforce
qed

theorem mm_freed_heap_reusable_witness:
  "\<exists>r s'. mm_malloc 16 example_heap = Some (r, s') \<and> r \<noteq> 0 \<and> mem_brk s' = 4192"
  using mm_freed_heap_reusable [OF example_heap_inv, of 16]
  by (simp add: example_heap_def mem_heapsize_def request_size_def align_def)

text \<open>C7. \<^verbatim>\<open>mm_realloc\<close> keeps a payload that is large enough where it is; a request beyond it treats the
  first word of the payload as a block header, and stops the program when that word leads out of the heap.\<close>

theorem mm_realloc_result:
  assumes inv: "mm_inv s" and l: "(p, n) \<in> live s" and k: "0 < k"
  shows "(k \<le> n \<longrightarrow> mm_realloc p k s = Some (p, s)) \<and>
    (n < k \<and> k \<le> 2 ^ 31 - 32 \<and> mem_max_addr s \<le> p + and_m2 (mem s p) \<longrightarrow> mm_realloc p k s = None)"
proof -
  obtain mid ps where h: "heap_inv s mid ps" using inv unfolding mm_inv_def by blast
  let ?bs = "(32, True) # mid @ [(32, True)]"
  obtain q j where q: "(q, j) \<in> used s mid" "p = q + 8" "n + 16 = j" "32 \<le> j" using live_cases [OF h l] by blast
  have ok: "heap_ok s ?bs" using h by (simp add: heap_inv_def Let_def)
  have b: "(q, j, True) \<in> bset s ?bs" using q by (simp add: used_def used_at_def)
  have "mm_realloc p k s = None" if g: "n < k" "k \<le> 2 ^ 31 - 32" "mem_max_addr s \<le> p + and_m2 (mem s p)"
  proof -
    have "j < request_size k" using request_size_ok(4) [OF k g(2)] g(1) q(3) by simp
    moreover have "block_next_size p s = None"
      using g(3) by (simp add: block_next_size_def block_next_def block_size_def load_def in_store_def bind_eq_None_conv)
    ultimately show ?thesis using block_laws(2) [OF ok b] k q(2)
      by (simp add: mm_realloc_def payload_to_block_def Let_def)
  qed
  then show ?thesis using mm.resize_law [OF inv l k] by blast
qed

theorem mm_realloc_result_witness:
  "\<exists>s s'. mm_malloc 100 example_heap = Some (4168, s) \<and> mm_realloc 4168 50 s = Some (4168, s)
     \<and> s' = s\<lparr>mem := (mem s)(4168 := 2 ^ 62)\<rparr> \<and> mm_realloc 4168 200 s' = None"
proof -
  obtain s where s: "mm_malloc 100 example_heap = Some (4168, s)" "heap_inv s [(32, False), (120, True)] [4128]" "mm_inv s"
    "live s = {(4168, 104)}" "mem_start_brk s = 4096" "mem_max_addr s = 4096 + MAX_HEAP" using example_alloc by blast
  let ?s = "s\<lparr>mem := (mem s)(4168 := 2 ^ 62)\<rparr>"
  have h: "heap_inv ?s [(32, False), (120, True)] [4128]"
    using heap_inv_write [OF s(2), of 4160 120 4168 "2 ^ 62"] s(5) by (simp add: used_def)
  then have i: "mm_inv ?s" unfolding mm_inv_def by (intro exI [of _ "[(32, False), (120, True)]"]) auto
  have "live ?s = {(4168, 104)}" using live_write [OF s(2) h] s(4) by simp
  then have "mm_realloc 4168 200 ?s = None"
    using mm_realloc_result [OF i, of 4168 104 200] s(6) by (simp add: and_m2_def)
  then show ?thesis using mm_realloc_result [OF s(3), of 4168 104 50] s(1,4) by auto
qed

end
