(* ===== verification/Mdriver.thy ===== *)
theory Mdriver
  imports MmTheorems Complex_Main
begin

text \<open>
  The test driver of the allocator, \<^verbatim>\<open>src/malloc/mdriver.c\<close>: the list of payload ranges, and the
  evaluation of a trace for correctness, space utilisation and speed, with \<^verbatim>\<open>mm.c\<close> and with the
  allocator of the C library. \<^const>\<open>None\<close> is a program that stops: an \<^verbatim>\<open>exit\<close> by \<^verbatim>\<open>app_error\<close> or
  \<^verbatim>\<open>unix_error\<close>, a failed assertion, or an access outside an array or the store.
\<close>

section \<open>Data\<close>

datatype op_type = ALLOC | FREE | REALLOC

record traceop =
  op_type :: op_type
  op_index :: int
  op_size :: int

text \<open>The messages of \<^verbatim>\<open>malloc_error\<close>.\<close>

datatype mm_error = Init_failed | Malloc_failed | Realloc_failed | Not_aligned | Outside_heap | Overlaps | Data_lost

text \<open>
  The state of an evaluation: the heap, the range list \<^verbatim>\<open>*ranges\<close> as pairs \<^verbatim>\<open>(lo, hi)\<close>, the errors
  reported so far with the line number of the request (\<^verbatim>\<open>errors\<close> is their number), and the two
  arrays of the trace.
\<close>

record driver =
  the_heap :: heap
  ranges :: "(nat \<times> nat) list"
  errors :: "(nat \<times> mm_error) list"
  blocks_arr :: "nat list"
  block_sizes :: "nat list"

definition LINENUM :: "nat \<Rightarrow> nat" where
  "LINENUM i = i + 5"

definition malloc_error :: "nat \<Rightarrow> mm_error \<Rightarrow> driver \<Rightarrow> driver" where
  "malloc_error opnum msg d = d\<lparr>errors := errors d @ [(LINENUM opnum, msg)]\<rparr>"

text \<open>Array accesses with an \<^verbatim>\<open>int\<close> index, and the conversion of \<^verbatim>\<open>int\<close> to \<^verbatim>\<open>size_t\<close>.\<close>

definition get_at :: "'a list \<Rightarrow> int \<Rightarrow> 'a option" where
  "get_at xs i = (if 0 \<le> i \<and> nat i < length xs then Some (xs ! nat i) else None)"

definition set_at :: "'a list \<Rightarrow> int \<Rightarrow> 'a \<Rightarrow> 'a list option" where
  "set_at xs i v = (if 0 \<le> i \<and> nat i < length xs then Some (xs[nat i := v]) else None)"

definition size_t :: "int \<Rightarrow> nat" where
  "size_t i = nat (i mod 2 ^ 64)"

section \<open>Range lists\<close>

definition add_range :: "nat \<Rightarrow> int \<Rightarrow> nat \<Rightarrow> driver \<Rightarrow> (bool \<times> driver) option" where
  "add_range lo siz opnum d =
     (let hi = nat (int lo + siz - 1); h = the_heap d in
      if \<not> siz > 0 then None
      else if lo mod ALIGNMENT \<noteq> 0 then Some (False, malloc_error opnum Not_aligned d)
      else if lo < mem_heap_lo h \<or> lo > mem_heap_hi h \<or> hi < mem_heap_lo h \<or> hi > mem_heap_hi h
        then Some (False, malloc_error opnum Outside_heap d)
      else if \<exists>(plo, phi) \<in> set (ranges d). lo \<ge> plo \<and> lo \<le> phi \<or> hi \<ge> plo \<and> hi \<le> phi
        then Some (False, malloc_error opnum Overlaps d)
      else Some (True, d\<lparr>ranges := (lo, hi) # ranges d\<rparr>))"

primrec remove_range :: "(nat \<times> nat) list \<Rightarrow> nat \<Rightarrow> (nat \<times> nat) list" where
  "remove_range [] lo = []"
| "remove_range (p # ps) lo = (if fst p = lo then ps else p # remove_range ps lo)"

definition clear_ranges :: "driver \<Rightarrow> driver" where
  "clear_ranges d = d\<lparr>ranges := []\<rparr>"

section \<open>Correctness\<close>

definition low_byte :: "int \<Rightarrow> nat" where
  "low_byte index = nat (index mod 256)"

definition memset :: "nat \<Rightarrow> nat \<Rightarrow> nat \<Rightarrow> heap \<Rightarrow> heap option" where
  "memset = fill store_byte"

text \<open>A byte read through a \<^verbatim>\<open>char *\<close>; the type is signed.\<close>

definition schar_of :: "nat \<Rightarrow> int" where
  "schar_of b = (if b < 128 then int b else int b - 256)"

primrec data_kept :: "nat \<Rightarrow> nat \<Rightarrow> int \<Rightarrow> heap \<Rightarrow> bool option" where
  "data_kept newp 0 index h = Some True"
| "data_kept newp (Suc n) index h = do {
     ok \<leftarrow> data_kept newp n index h;
     if ok then do { b \<leftarrow> load_byte h (newp + n); Some (schar_of b = int (low_byte index)) } else Some False
   }"

text \<open>\<^verbatim>\<open>trace->blocks[index] = p; trace->block_sizes[index] = size\<close>.\<close>

definition remember :: "int \<Rightarrow> nat \<Rightarrow> int \<Rightarrow> driver \<Rightarrow> driver option" where
  "remember index p siz d = do {
     bs \<leftarrow> set_at (blocks_arr d) index p;
     zs \<leftarrow> set_at (block_sizes d) index (size_t siz);
     Some (d\<lparr>blocks_arr := bs, block_sizes := zs\<rparr>)
   }"

definition set_heap :: "driver \<Rightarrow> heap \<Rightarrow> driver" where
  "set_heap d h = d\<lparr>the_heap := h\<rparr>"

definition valid_alloc :: "nat \<Rightarrow> int \<Rightarrow> int \<Rightarrow> driver \<Rightarrow> (bool \<times> driver) option" where
  "valid_alloc i index siz d = do {
     (p, h) \<leftarrow> mm_malloc (size_t siz) (the_heap d);
     let d = set_heap d h;
     if p = 0 then Some (False, malloc_error i Malloc_failed d)
     else do {
       (ok, d) \<leftarrow> add_range p siz i d;
       if \<not> ok then Some (False, d)
       else do {
         h \<leftarrow> memset p (low_byte index) (size_t siz) (the_heap d);
         d \<leftarrow> remember index p siz (set_heap d h);
         Some (True, d)
       }
     }
   }"

definition valid_realloc :: "nat \<Rightarrow> int \<Rightarrow> int \<Rightarrow> driver \<Rightarrow> (bool \<times> driver) option" where
  "valid_realloc i index siz d = do {
     oldp \<leftarrow> get_at (blocks_arr d) index;
     (newp, h) \<leftarrow> mm_realloc oldp (size_t siz) (the_heap d);
     let d = set_heap d h;
     if newp = 0 then Some (False, malloc_error i Realloc_failed d)
     else do {
       (ok, d) \<leftarrow> add_range newp siz i (d\<lparr>ranges := remove_range (ranges d) oldp\<rparr>);
       if \<not> ok then Some (False, d)
       else do {
         oldsize \<leftarrow> get_at (block_sizes d) index;
         let oldsize = to_int oldsize;
         let oldsize = (if siz < oldsize then siz else oldsize);
         kept \<leftarrow> data_kept newp (nat oldsize) index (the_heap d);
         if \<not> kept then Some (False, malloc_error i Data_lost d)
         else do {
           h \<leftarrow> memset newp (low_byte index) (size_t siz) (the_heap d);
           d \<leftarrow> remember index newp siz (set_heap d h);
           Some (True, d)
         }
       }
     }
   }"

definition valid_free :: "int \<Rightarrow> driver \<Rightarrow> (bool \<times> driver) option" where
  "valid_free index d = do {
     p \<leftarrow> get_at (blocks_arr d) index;
     h \<leftarrow> mm_free p (the_heap d);
     Some (True, d\<lparr>ranges := remove_range (ranges d) p, the_heap := h\<rparr>)
   }"

definition valid_op :: "nat \<Rightarrow> traceop \<Rightarrow> driver \<Rightarrow> (bool \<times> driver) option" where
  "valid_op i opn d = (case op_type opn of
       ALLOC \<Rightarrow> valid_alloc i (op_index opn) (op_size opn) d
     | REALLOC \<Rightarrow> valid_realloc i (op_index opn) (op_size opn) d
     | FREE \<Rightarrow> valid_free (op_index opn) d)"

primrec valid_loop :: "nat \<Rightarrow> traceop list \<Rightarrow> driver \<Rightarrow> (bool \<times> driver) option" where
  "valid_loop i [] d = Some (True, d)"
| "valid_loop i (opn # ops) d = do {
     (ok, d) \<leftarrow> valid_op i opn d;
     if ok then valid_loop (Suc i) ops d else Some (False, d)
   }"

definition eval_mm_valid :: "traceop list \<Rightarrow> driver \<Rightarrow> (bool \<times> driver) option" where
  "eval_mm_valid ops d = do {
     let d = clear_ranges (set_heap d (mem_reset_brk (the_heap d)));
     (r, h) \<leftarrow> mm_init (the_heap d);
     let d = set_heap d h;
     if r < 0 then Some (False, malloc_error 0 Init_failed d) else valid_loop 0 ops d
   }"

section \<open>Space utilisation\<close>

text \<open>The evaluation state and the two counters \<^verbatim>\<open>total_size\<close> and \<^verbatim>\<open>max_total_size\<close>.\<close>

record usage =
  drv :: driver
  total_size :: int
  max_total_size :: int

definition count :: "usage \<Rightarrow> driver \<Rightarrow> int \<Rightarrow> usage option" where
  "count u d delta = do {
     t \<leftarrow> c_int (total_size u + delta);
     Some \<lparr>drv = d, total_size = t, max_total_size = (if t > max_total_size u then t else max_total_size u)\<rparr>
   }"

definition util_op :: "nat \<Rightarrow> traceop \<Rightarrow> usage \<Rightarrow> (bool \<times> usage) option" where
  "util_op i opn u = (let d = drv u; index = op_index opn; siz = op_size opn in case op_type opn of
       ALLOC \<Rightarrow> do {
         (p, h) \<leftarrow> mm_malloc (size_t siz) (the_heap d);
         if p = 0 then None
         else do {
           (ok, d) \<leftarrow> add_range p siz i (set_heap d h);
           if \<not> ok then Some (False, u\<lparr>drv := d\<rparr>)
           else do {
             h \<leftarrow> memset p (low_byte index) (size_t siz) (the_heap d);
             d \<leftarrow> remember index p siz (set_heap d h);
             u \<leftarrow> count u d siz;
             Some (True, u)
           }
         }
       }
     | REALLOC \<Rightarrow> do {
         oldp \<leftarrow> get_at (blocks_arr d) index;
         (newp, h) \<leftarrow> mm_realloc oldp (size_t siz) (the_heap d);
         if newp = 0 then None
         else do {
           (ok, d) \<leftarrow> add_range newp siz i ((set_heap d h)\<lparr>ranges := remove_range (ranges d) oldp\<rparr>);
           if \<not> ok then Some (False, u\<lparr>drv := d\<rparr>)
           else do {
             h \<leftarrow> memset newp (low_byte index) (size_t siz) (the_heap d);
             oldsize \<leftarrow> get_at (block_sizes d) index;
             d \<leftarrow> remember index newp siz (set_heap d h);
             delta \<leftarrow> c_int (siz - to_int oldsize);
             u \<leftarrow> count u d delta;
             Some (True, u)
           }
         }
       }
     | FREE \<Rightarrow> do {
         sz \<leftarrow> get_at (block_sizes d) index;
         p \<leftarrow> get_at (blocks_arr d) index;
         h \<leftarrow> mm_free p (the_heap d);
         t \<leftarrow> c_int (total_size u - to_int sz);
         Some (True, u\<lparr>drv := d\<lparr>ranges := remove_range (ranges d) p, the_heap := h\<rparr>, total_size := t\<rparr>)
       })"

primrec util_loop :: "nat \<Rightarrow> traceop list \<Rightarrow> usage \<Rightarrow> (bool \<times> usage) option" where
  "util_loop i [] u = Some (True, u)"
| "util_loop i (opn # ops) u = do {
     (ok, u) \<leftarrow> util_op i opn u;
     if ok then util_loop (Suc i) ops u else Some (False, u)
   }"

text \<open>The result is \<^verbatim>\<open>max_total_size\<close> divided by \<^verbatim>\<open>mem_heapsize()\<close>, or 0 after an early return.\<close>

definition eval_mm_util :: "traceop list \<Rightarrow> driver \<Rightarrow> (real \<times> driver) option" where
  "eval_mm_util ops d = do {
     let d = clear_ranges (set_heap d (mem_reset_brk (the_heap d)));
     (r, h) \<leftarrow> mm_init (the_heap d);
     if r < 0 then None
     else do {
       (ok, u) \<leftarrow> util_loop 0 ops \<lparr>drv = set_heap d h, total_size = 0, max_total_size = 0\<rparr>;
       Some (if ok then real_of_int (max_total_size u) / real (mem_heapsize (the_heap (drv u))) else 0, drv u)
     }
   }"

section \<open>Speed\<close>

definition speed_op :: "traceop \<Rightarrow> driver \<Rightarrow> driver option" where
  "speed_op opn d = (let index = op_index opn; siz = op_size opn in case op_type opn of
       ALLOC \<Rightarrow> do {
         (p, h) \<leftarrow> mm_malloc (size_t siz) (the_heap d);
         if p = 0 then None
         else do {
           h \<leftarrow> memset p (low_byte index) (size_t siz) h;
           bs \<leftarrow> set_at (blocks_arr d) index p;
           Some (d\<lparr>the_heap := h, blocks_arr := bs\<rparr>)
         }
       }
     | REALLOC \<Rightarrow> do {
         oldp \<leftarrow> get_at (blocks_arr d) index;
         (newp, h) \<leftarrow> mm_realloc oldp (size_t siz) (the_heap d);
         if newp = 0 then None
         else do {
           h \<leftarrow> memset newp (low_byte index) (size_t siz) h;
           bs \<leftarrow> set_at (blocks_arr d) index newp;
           Some (d\<lparr>the_heap := h, blocks_arr := bs\<rparr>)
         }
       }
     | FREE \<Rightarrow> do {
         block \<leftarrow> get_at (blocks_arr d) index;
         h \<leftarrow> mm_free block (the_heap d);
         Some (d\<lparr>the_heap := h\<rparr>)
       })"

definition eval_mm_speed :: "traceop list \<Rightarrow> driver \<Rightarrow> driver option" where
  "eval_mm_speed ops d = do {
     (r, h) \<leftarrow> mm_init (mem_reset_brk (the_heap d));
     if r < 0 then None else foldM speed_op ops (set_heap d h)
   }"

section \<open>The allocator of the C library\<close>

text \<open>
  \<open>malloc\<close>, \<open>realloc\<close> and \<open>free\<close> of the C library are parameters, functions on a state of their
  own; the state of an evaluation is that state with the array \<^verbatim>\<open>blocks\<close>. The two evaluations differ
  only in how they name a failure, after which the program exits.
\<close>

definition libc_op :: "(nat \<Rightarrow> 'l \<Rightarrow> nat \<times> 'l) \<Rightarrow> (nat \<Rightarrow> nat \<Rightarrow> 'l \<Rightarrow> nat \<times> 'l) \<Rightarrow> (nat \<Rightarrow> 'l \<Rightarrow> 'l) \<Rightarrow>
    traceop \<Rightarrow> 'l \<times> nat list \<Rightarrow> ('l \<times> nat list) option" where
  "libc_op malloc realloc free opn st = (let (l, bs) = st; index = op_index opn; siz = op_size opn in case op_type opn of
       ALLOC \<Rightarrow> (let (p, l) = malloc (size_t siz) l in
         if p = 0 then None else do { bs \<leftarrow> set_at bs index p; Some (l, bs) })
     | REALLOC \<Rightarrow> do {
         oldp \<leftarrow> get_at bs index;
         let (newp, l) = realloc oldp (size_t siz) l;
         if newp = 0 then None else do { bs \<leftarrow> set_at bs index newp; Some (l, bs) }
       }
     | FREE \<Rightarrow> do { p \<leftarrow> get_at bs index; Some (free p l, bs) })"

definition eval_libc_valid :: "(nat \<Rightarrow> 'l \<Rightarrow> nat \<times> 'l) \<Rightarrow> (nat \<Rightarrow> nat \<Rightarrow> 'l \<Rightarrow> nat \<times> 'l) \<Rightarrow> (nat \<Rightarrow> 'l \<Rightarrow> 'l) \<Rightarrow>
    traceop list \<Rightarrow> 'l \<times> nat list \<Rightarrow> (bool \<times> 'l \<times> nat list) option" where
  "eval_libc_valid malloc realloc free ops st = do { st \<leftarrow> foldM (libc_op malloc realloc free) ops st; Some (True, st) }"

definition eval_libc_speed :: "(nat \<Rightarrow> 'l \<Rightarrow> nat \<times> 'l) \<Rightarrow> (nat \<Rightarrow> nat \<Rightarrow> 'l \<Rightarrow> nat \<times> 'l) \<Rightarrow> (nat \<Rightarrow> 'l \<Rightarrow> 'l) \<Rightarrow>
    traceop list \<Rightarrow> 'l \<times> nat list \<Rightarrow> ('l \<times> nat list) option" where
  "eval_libc_speed malloc realloc free ops st = foldM (libc_op malloc realloc free) ops st"

end
