(* ===== verification/MdriverCorrect.thy ===== *)
theory MdriverCorrect
  imports Mdriver
begin

text \<open>
  The driver against the allocator: on a trace whose requests make sense the driver finds no
  fault with \<^verbatim>\<open>mm.c\<close>, except that memory may run out.
\<close>

section \<open>Traces\<close>

text \<open>
  \<open>A\<close> maps the identifiers whose block is allocated to its size. A request for a block goes to an
  identifier that has none, a block is freed once, and a block is only ever reallocated to at most
  its size.
\<close>

fun wf_ops :: "nat \<Rightarrow> (nat \<rightharpoonup> nat) \<Rightarrow> traceop list \<Rightarrow> bool" where
  "wf_ops ids A [] \<longleftrightarrow> True"
| "wf_ops ids A (opn # ops) \<longleftrightarrow>
     (let i = nat (op_index opn); z = nat (op_size opn) in 0 \<le> op_index opn \<and> i < ids \<and>
      (case op_type opn of
         ALLOC \<Rightarrow> A i = None \<and> 0 < op_size opn \<and> z \<le> 2 ^ 31 - 32 \<and> wf_ops ids (A(i \<mapsto> z)) ops
       | FREE \<Rightarrow> A i \<noteq> None \<and> wf_ops ids (A(i := None)) ops
       | REALLOC \<Rightarrow> (case A i of None \<Rightarrow> False
           | Some old \<Rightarrow> 0 < op_size opn \<and> z \<le> old \<and> i mod 256 < 128 \<and> wf_ops ids (A(i \<mapsto> z)) ops)))"

definition demand :: "traceop list \<Rightarrow> nat" where
  "demand ops = (\<Sum>opn \<leftarrow> ops. case op_type opn of ALLOC \<Rightarrow> request_size (nat (op_size opn)) | _ \<Rightarrow> 0)"

lemma demand_simps [simp]: "demand [] = 0"
  "demand (opn # ops) = (case op_type opn of ALLOC \<Rightarrow> request_size (nat (op_size opn)) | _ \<Rightarrow> 0) + demand ops"
  by (simp_all add: demand_def)

text \<open>The sizes after one request.\<close>

definition step_sizes :: "traceop \<Rightarrow> (nat \<rightharpoonup> nat) \<Rightarrow> (nat \<rightharpoonup> nat)" where
  "step_sizes opn A = (case op_type opn of FREE \<Rightarrow> A(nat (op_index opn) := None) | _ \<Rightarrow> A(nat (op_index opn) \<mapsto> nat (op_size opn)))"

section \<open>The invariant of an evaluation\<close>

definition block_ok :: "driver \<Rightarrow> nat \<Rightarrow> nat \<Rightarrow> bool" where
  "block_ok d i z \<longleftrightarrow> holds live byte (the_heap d) (blocks_arr d ! i) z (i mod 256) \<and> block_sizes d ! i = z
     \<and> 0 < z \<and> z \<le> 2 ^ 31 - 32"

definition drv_ok :: "nat \<Rightarrow> (nat \<rightharpoonup> nat) \<Rightarrow> driver \<Rightarrow> bool" where
  "drv_ok ids A d \<longleftrightarrow> mm_inv (the_heap d) \<and> length (blocks_arr d) = ids \<and> length (block_sizes d) = ids
     \<and> dom A \<subseteq> {..<ids} \<and> (\<forall>i z. A i = Some z \<longrightarrow> block_ok d i z) \<and> (\<forall>i z j y. A i = Some z \<longrightarrow> A j = Some y \<longrightarrow> blocks_arr d ! i = blocks_arr d ! j \<longrightarrow> i = j)
     \<and> distinct (map fst (ranges d))
     \<and> set (ranges d) = {(blocks_arr d ! i, blocks_arr d ! i + z - 1) | i z. A i = Some z}"

definition grown :: "driver \<Rightarrow> driver \<Rightarrow> nat \<Rightarrow> bool" where
  "grown d d' c \<longleftrightarrow> errors d' = errors d \<and> mem_brk (the_heap d') \<le> mem_brk (the_heap d) + c
     \<and> mem_max_addr (the_heap d') = mem_max_addr (the_heap d)
     \<and> mem_heap_lo (the_heap d') = mem_heap_lo (the_heap d) \<and> mem_brk (the_heap d) \<le> mem_brk (the_heap d')"

lemma drv_okD:
  assumes "drv_ok ids A d"
  shows "mm_inv (the_heap d)" "length (blocks_arr d) = ids" "length (block_sizes d) = ids" "dom A \<subseteq> {..<ids}"
    "A i = Some z \<Longrightarrow> i < ids" "A i = Some z \<Longrightarrow> holds live byte (the_heap d) (blocks_arr d ! i) z (i mod 256)"
    "A i = Some z \<Longrightarrow> block_sizes d ! i = z" "A i = Some z \<Longrightarrow> 0 < z" "A i = Some z \<Longrightarrow> z \<le> 2 ^ 31 - 32"
    "A i = Some z \<Longrightarrow> A j = Some y \<Longrightarrow> i \<noteq> j \<Longrightarrow> blocks_arr d ! i \<noteq> blocks_arr d ! j"
    "distinct (map fst (ranges d))"
    "set (ranges d) = {(blocks_arr d ! i, blocks_arr d ! i + z - 1) | i z. A i = Some z}"
  using assms unfolding drv_ok_def block_ok_def by blast+

lemma drv_okI:
  assumes "mm_inv (the_heap d)" "length (blocks_arr d) = ids" "length (block_sizes d) = ids"
    "\<And>i z. A i = Some z \<Longrightarrow> i < ids" "\<And>i z. A i = Some z \<Longrightarrow> block_ok d i z"
    "\<And>i z j y. A i = Some z \<Longrightarrow> A j = Some y \<Longrightarrow> i \<noteq> j \<Longrightarrow> blocks_arr d ! i \<noteq> blocks_arr d ! j"
    "distinct (map fst (ranges d))"
    "set (ranges d) = {(blocks_arr d ! i, blocks_arr d ! i + z - 1) | i z. A i = Some z}"
  shows "drv_ok ids A d"
proof -
  have "dom A \<subseteq> {..<ids}" using assms(4) by auto
  moreover have "\<forall>i z j y. A i = Some z \<longrightarrow> A j = Some y \<longrightarrow> blocks_arr d ! i = blocks_arr d ! j \<longrightarrow> i = j" using assms(6) by blast
  ultimately show ?thesis using assms(1-3,5,7,8) unfolding drv_ok_def by blast
qed

lemma remove_range_set:
  "distinct (map fst rs) \<Longrightarrow> set (remove_range rs lo) = {r \<in> set rs. fst r \<noteq> lo} \<and> distinct (map fst (remove_range rs lo))"
proof (induction rs)
  case (Cons r rs)
  then have "\<forall>q \<in> set rs. fst q \<noteq> fst r" by (auto simp: image_iff)
  then show ?case using Cons by auto
qed simp

lemma ranges_removed:
  assumes ok: "drv_ok ids A d" and y: "A i = Some y"
  shows "set (remove_range (ranges d) (blocks_arr d ! i)) =
      {(blocks_arr d ! j, blocks_arr d ! j + w - 1) | j w. A j = Some w \<and> j \<noteq> i}" (is "?L = ?R")
    "distinct (map fst (remove_range (ranges d) (blocks_arr d ! i)))"
proof -
  note D = drv_okD [OF ok]
  note R = remove_range_set [OF D(11), of "blocks_arr d ! i"]
  show "distinct (map fst (remove_range (ranges d) (blocks_arr d ! i)))" using R by blast
  have L: "?L = {r \<in> set (ranges d). fst r \<noteq> blocks_arr d ! i}" using R by blast
  show "?L = ?R"
  proof
    show "?L \<subseteq> ?R" unfolding L D(12) by fastforce
    show "?R \<subseteq> ?L" unfolding L D(12) using D(10) [OF _ y] by fastforce
  qed
qed

lemma access_laws [simp]:
  "i < length xs \<Longrightarrow> get_at xs (int i) = Some (xs ! i)" "i < length xs \<Longrightarrow> set_at xs (int i) v = Some (xs[i := v])"
  by (simp_all add: get_at_def set_at_def)

lemma size_t_id [simp]: "z < 2 ^ 64 \<Longrightarrow> size_t (int z) = z"
  by (simp add: size_t_def)

lemma low_byte_id [simp]: "low_byte (int i) = i mod 256"
  by (simp add: low_byte_def nat_mod_distrib)

lemma add_range_ok:
  assumes inv: "mm_inv (the_heap d)" and h: "z \<le> m" "(p, m) \<in> live (the_heap d)" and z: "0 < z"
    and free: "\<And>plo phi. (plo, phi) \<in> set (ranges d) \<Longrightarrow> p + z \<le> plo \<or> phi < p"
  shows "add_range p (int z) n d = Some (True, d\<lparr>ranges := (p, p + z - 1) # ranges d\<rparr>)"
proof -
  note b = mm.live_bounds [OF inv h(2)]
  have hi: "nat (int p + int z - 1) = p + z - 1" using z by simp
  have "p + z \<le> mem_brk (the_heap d)" using b h(1) by linarith
  then have "mem_heap_lo (the_heap d) \<le> p" "p + z - 1 \<le> mem_heap_hi (the_heap d)"
    using b unfolding mem_heap_hi_def by (simp, intro diff_le_mono)
  moreover have "\<not> (\<exists>(plo, phi) \<in> set (ranges d). p \<ge> plo \<and> p \<le> phi \<or> p + z - 1 \<ge> plo \<and> p + z - 1 \<le> phi)"
    using free z by fastforce
  ultimately show ?thesis using b z unfolding add_range_def Let_def hi by auto
qed

section \<open>One request\<close>

lemma valid_alloc_ok:
  assumes ok: "drv_ok ids A d" and i: "i < ids" "A i = None" and z: "0 < z" "z \<le> 2 ^ 31 - 32"
  shows "(\<exists>d'. valid_alloc n (int i) (int z) d = Some (False, d') \<and> errors d' = errors d @ [(LINENUM n, Malloc_failed)]
      \<and> mem_max_addr (the_heap d) < mem_brk (the_heap d) + request_size z)
    \<or> (\<exists>d'. valid_alloc n (int i) (int z) d = Some (True, d') \<and> drv_ok ids (A(i \<mapsto> z)) d' \<and> grown d d' (request_size z))"
proof -
  let ?h = "the_heap d"
  note D = drv_okD [OF ok]
  have sz: "size_t (int z) = z" using z by simp
  obtain p h where m: "mm_malloc z ?h = Some (p, h)" using mm.alloc_law [OF D(1) z] by blast
  note sp = mm.alloc_space [OF D(1) z m]
  show ?thesis
  proof (cases "p = 0")
    case True
    then have "valid_alloc n (int i) (int z) d = Some (False, malloc_error n Malloc_failed (set_heap d h))"
      using m sz by (simp add: valid_alloc_def Let_def)
    then show ?thesis using sp True by (simp add: malloc_error_def set_heap_def)
  next
    case False
    have a: "mm_inv h" "\<exists>k \<ge> z. (p, k) \<in> live h" "\<forall>k. (p, k) \<notin> live ?h"
      "\<And>q j c. holds live byte ?h q j c \<Longrightarrow> holds live byte h q j c \<and> (0 < j \<longrightarrow> p + z \<le> q \<or> q + j \<le> p)"
      using mm.alloc_holds [OF D(1) z m False] by blast+
    have free: "p + z \<le> plo \<or> phi < p" if r: "(plo, phi) \<in> set (ranges d)" for plo phi
    proof -
      obtain j y where y: "A j = Some y" "plo = blocks_arr d ! j" "phi = plo + y - 1" using r unfolding D(12) by blast
      then show ?thesis using a(4) [OF D(6) [OF y(1)]] D(8) [OF y(1)] by auto
    qed
    obtain k where k: "z \<le> k" "(p, k) \<in> live h" using a(2) by blast
    have add: "add_range p (int z) n (set_heap d h) = Some (True, (set_heap d h)\<lparr>ranges := (p, p + z - 1) # ranges d\<rparr>)"
      using add_range_ok [of "set_heap d h" z k p] a(1) k z(1) free by (simp add: set_heap_def)
    obtain h' where f: "memset p (i mod 256) z h = Some h'" "mm_inv h'" "holds live byte h' p z (i mod 256)"
      "\<forall>q j c. q \<noteq> p \<longrightarrow> holds live byte h q j c \<longrightarrow> holds live byte h' q j c"
      using mm.fill_holds [OF a(1) k(2,1), of "i mod 256"] unfolding memset_def by auto
    have sp': "mem_brk h' = mem_brk h" "mem_max_addr h' = mem_max_addr h" "mem_heap_lo h' = mem_heap_lo h" using mm.fill_space f(1) by (simp_all add: memset_def)
    let ?d = "d\<lparr>the_heap := h', ranges := (p, p + z - 1) # ranges d, blocks_arr := (blocks_arr d)[i := p], block_sizes := (block_sizes d)[i := z]\<rparr>"
    have "valid_alloc n (int i) (int z) d = Some (True, ?d)"
      using m sz False add f(1) i(1) D(2,3) by (simp add: valid_alloc_def Let_def set_heap_def remember_def)
    moreover have "grown d ?d (request_size z)" using sp sp' by (simp add: grown_def)
    moreover have "drv_ok ids (A(i \<mapsto> z)) ?d"
    proof -
      have ne: "blocks_arr d ! j \<noteq> p" if "A j = Some y" for j y
        using D(6) [OF that] a(3) by (auto simp: holds_def)
      have j: "j \<noteq> i" if "A j = Some y" for j y using that i(2) by auto
      have "block_ok ?d j y" if "(A(i \<mapsto> z)) j = Some y" for j y
      proof (cases "j = i")
        case True
        then show ?thesis using that f(3) z i(1) D(2,3) by (simp add: block_ok_def)
      next
        case False
        then have y: "A j = Some y" using that by simp
        have "holds live byte h' (blocks_arr d ! j) y (j mod 256)" using f(4) ne [OF y] a(4) [OF D(6) [OF y]] by blast
        then show ?thesis using False D(7-9) [OF y] by (simp add: block_ok_def)
      qed
      moreover have "p \<notin> fst ` set (ranges d)" using D(12) ne by force
      moreover have "set (ranges ?d) = {(blocks_arr ?d ! j, blocks_arr ?d ! j + y - 1) | j y. (A(i \<mapsto> z)) j = Some y}" (is "_ = ?R")
      proof -
        have "r \<in> ?R \<longleftrightarrow> r = (p, p + z - 1) \<or> r \<in> set (ranges d)" for r
          unfolding D(12) using i(1) D(2) j by (auto split: if_splits)
        then show ?thesis by auto
      qed
      moreover have "blocks_arr ?d ! j \<noteq> blocks_arr ?d ! k" if "(A(i \<mapsto> z)) j = Some y" "(A(i \<mapsto> z)) k = Some w" "j \<noteq> k" for j y k w
        using that ne D(10) [of j y k w] i(1) D(2) by (cases "j = i"; cases "k = i") auto
      moreover have "j < ids" if "(A(i \<mapsto> z)) j = Some y" for j y using that D(5) i(1) by (auto split: if_splits)
      ultimately show ?thesis using f(2) D(2,3,11) by (intro drv_okI) simp_all
    qed
    ultimately show ?thesis by blast
  qed
qed

lemma valid_free_ok:
  assumes ok: "drv_ok ids A d" and z: "A i = Some z"
  shows "\<exists>d'. valid_free (int i) d = Some (True, d') \<and> drv_ok ids (A(i := None)) d' \<and> grown d d' 0"
proof -
  let ?h = "the_heap d" and ?p = "blocks_arr d ! i"
  note D = drv_okD [OF ok]
  obtain h where h: "mm_free ?p ?h = Some h" "mm_inv h"
    "\<And>q j c. q \<noteq> ?p \<Longrightarrow> holds live byte ?h q j c \<Longrightarrow> holds live byte h q j c"
    using mm.dealloc_holds [OF D(1) D(6) [OF z]] by blast
  have sp: "mem_brk h = mem_brk ?h" "mem_max_addr h = mem_max_addr ?h" "mem_heap_lo h = mem_heap_lo ?h"
    using mm.dealloc_space [OF D(1) _ h(1)] D(6) [OF z] by (auto simp: holds_def)
  let ?d = "d\<lparr>ranges := remove_range (ranges d) ?p, the_heap := h\<rparr>"
  have "valid_free (int i) d = Some (True, ?d)" using D(2) D(5) [OF z] h(1) by (simp add: valid_free_def)
  moreover have "grown d ?d 0" using sp by (simp add: grown_def)
  moreover have "drv_ok ids (A(i := None)) ?d"
  proof -
    have ne: "blocks_arr d ! j \<noteq> ?p" if "A j = Some y" "j \<noteq> i" for j y using D(10) [OF that(1) z that(2)] .
    have "set (ranges ?d) = {(blocks_arr d ! j, blocks_arr d ! j + y - 1) | j y. (A(i := None)) j = Some y}"
      using ranges_removed(1) [OF ok z] by (auto split: if_splits)
    moreover have "block_ok ?d j y" if "(A(i := None)) j = Some y" for j y
    proof -
      have y: "A j = Some y" "j \<noteq> i" using that by (auto split: if_splits)
      then show ?thesis using h(3) [OF ne [OF y] D(6) [OF y(1)]] D(7-9) [OF y(1)] by (simp add: block_ok_def)
    qed
    moreover have "blocks_arr d ! j \<noteq> blocks_arr d ! k" if "(A(i := None)) j = Some y" "(A(i := None)) k = Some w" "j \<noteq> k" for j y k w
      using that D(10) [of j y k w] by (auto split: if_splits)
    moreover have "j < ids" if "(A(i := None)) j = Some y" for j y using that D(5) by (auto split: if_splits)
    ultimately show ?thesis using h(2) D(2,3) ranges_removed(2) [OF ok z] by (intro drv_okI) simp_all
  qed
  ultimately show ?thesis by blast
qed

lemma data_kept_ok:
  assumes "\<And>j. j < n \<Longrightarrow> load_byte h (p + j) = Some (i mod 256)" "i mod 256 < 128"
  shows "data_kept p n (int i) h = Some True"
  using assms by (induction n) (auto simp: schar_of_def)

text \<open>A block made smaller stays where it is and its range is replaced; then its data are compared.\<close>

lemma valid_realloc_eq:
  assumes ok: "drv_ok ids A d" and y: "A i = Some y" and z: "0 < z" "z \<le> y"
  shows "valid_realloc n (int i) (int z) d = (let d' = d\<lparr>ranges := (blocks_arr d ! i, blocks_arr d ! i + z - 1) # remove_range (ranges d) (blocks_arr d ! i)\<rparr> in do {
     kept \<leftarrow> data_kept (blocks_arr d ! i) z (int i) (the_heap d);
     if \<not> kept then Some (False, malloc_error n Data_lost d')
     else do {
       h \<leftarrow> memset (blocks_arr d ! i) (i mod 256) z (the_heap d);
       d' \<leftarrow> remember (int i) (blocks_arr d ! i) (int z) (set_heap d' h);
       Some (True, d')
     } })"
proof -
  let ?h = "the_heap d" and ?p = "blocks_arr d ! i"
  note D = drv_okD [OF ok]
  have zb: "z \<le> 2 ^ 31 - 32" using z(2) D(9) [OF y] by simp
  then have sz: "size_t (int z) = z" "to_int y = int y" using D(9) [OF y] by (simp_all add: to_int_small)
  have r: "mm_realloc ?p z ?h = Some (?p, ?h)" using mm.resize_holds [OF D(1) D(6) [OF y] z] .
  have p0: "?p \<noteq> 0" using mm.holds_payload(2) [OF D(1) D(6) [OF y]] by simp
  obtain k where k: "y \<le> k" "(?p, k) \<in> live ?h" using D(6) [OF y] by (auto simp: holds_def)
  let ?rs = "remove_range (ranges d) ?p"
  have ne: "blocks_arr d ! j \<noteq> ?p" if "A j = Some w" "j \<noteq> i" for j w using D(10) [OF that(1) y that(2)] .
  note rs = ranges_removed(1) [OF ok y]
  have free: "?p + z \<le> plo \<or> phi < ?p" if m: "(plo, phi) \<in> set ?rs" for plo phi
  proof -
    obtain j w where w: "A j = Some w" "j \<noteq> i" "plo = blocks_arr d ! j" "phi = plo + w - 1" using m unfolding rs by blast
    have "?p + y \<le> plo \<or> plo + w \<le> ?p"
      using mm.holds_apart [OF D(1) D(6) [OF y] D(6) [OF w(1)]] ne [OF w(1,2)] w(3) by auto
    then show ?thesis using z(2) D(8) [OF w(1)] w(4) by auto
  qed
  have add: "add_range ?p (int z) n (d\<lparr>ranges := ?rs\<rparr>) = Some (True, d\<lparr>ranges := (?p, ?p + z - 1) # ?rs\<rparr>)"
    using add_range_ok [of "d\<lparr>ranges := ?rs\<rparr>" z k ?p] D(1) z(1) k(2) le_trans [OF z(2) k(1)] free by simp
  note facts = r sz p0 add D(2,3) D(5) [OF y] D(7) [OF y]
  show ?thesis
  proof (cases "z < y")
    case True
    then show ?thesis using facts by (simp add: valid_realloc_def Let_def set_heap_def cong: if_cong)
  next
    case False
    then have "y = z" using z(2) by simp
    then show ?thesis using facts by (simp add: valid_realloc_def Let_def set_heap_def cong: if_cong)
  qed
qed

lemma valid_realloc_ok:
  assumes ok: "drv_ok ids A d" and y: "A i = Some y" and z: "0 < z" "z \<le> y" and small: "i mod 256 < 128"
  shows "\<exists>d'. valid_realloc n (int i) (int z) d = Some (True, d') \<and> drv_ok ids (A(i \<mapsto> z)) d' \<and> grown d d' 0"
proof -
  let ?h = "the_heap d" and ?p = "blocks_arr d ! i" and ?rs = "remove_range (ranges d) (blocks_arr d ! i)"
  note D = drv_okD [OF ok]
  have zb: "z \<le> 2 ^ 31 - 32" using z(2) D(9) [OF y] by simp
  then have sz: "size_t (int z) = z" by simp
  obtain k where k: "y \<le> k" "(?p, k) \<in> live ?h" using D(6) [OF y] by (auto simp: holds_def)
  have ne: "blocks_arr d ! j \<noteq> ?p" if "A j = Some w" "j \<noteq> i" for j w using D(10) [OF that(1) y that(2)] .
  note rs = ranges_removed(1) [OF ok y]
  have data: "data_kept ?p z (int i) ?h = Some True"
    using data_kept_ok [OF _ small] mm.holds_payload(5) [OF D(1) D(6) [OF y]] z(2) by auto
  obtain h where f: "memset ?p (i mod 256) z ?h = Some h" "mm_inv h" "holds live byte h ?p z (i mod 256)"
    "\<forall>q j c. q \<noteq> ?p \<longrightarrow> holds live byte ?h q j c \<longrightarrow> holds live byte h q j c"
    using mm.fill_holds [OF D(1) k(2) le_trans [OF z(2) k(1)], of "i mod 256"] unfolding memset_def by auto
  have sp: "mem_brk h = mem_brk ?h" "mem_max_addr h = mem_max_addr ?h" "mem_heap_lo h = mem_heap_lo ?h" using mm.fill_space f(1) by (simp_all add: memset_def)
  let ?d = "d\<lparr>the_heap := h, ranges := (?p, ?p + z - 1) # ?rs, block_sizes := (block_sizes d)[i := z]\<rparr>"
  have "valid_realloc n (int i) (int z) d = Some (True, ?d)"
    using data f(1) D(2,3) D(5) [OF y] sz by (simp add: valid_realloc_eq [OF ok y z] Let_def set_heap_def remember_def)
  moreover have "grown d ?d 0" using sp by (simp add: grown_def)
  moreover have "drv_ok ids (A(i \<mapsto> z)) ?d"
  proof -
    have "block_ok ?d j w" if "(A(i \<mapsto> z)) j = Some w" for j w
    proof (cases "j = i")
      case True
      then show ?thesis using that f(3) z(1) zb D(3) D(5) [OF y] by (simp add: block_ok_def)
    next
      case False
      then have w: "A j = Some w" using that by simp
      have "holds live byte h (blocks_arr d ! j) w (j mod 256)" using f(4) ne [OF w False] D(6) [OF w] by blast
      then show ?thesis using False D(7-9) [OF w] by (simp add: block_ok_def)
    qed
    moreover have "set (ranges ?d) = {(blocks_arr d ! j, blocks_arr d ! j + w - 1) | j w. (A(i \<mapsto> z)) j = Some w}"
      using rs by (auto split: if_splits)
    moreover have "?p \<notin> fst ` set ?rs" using rs ne by force
    moreover have "j < ids" if "(A(i \<mapsto> z)) j = Some w" for j w using that D(5) y by (auto split: if_splits)
    moreover have "blocks_arr d ! j \<noteq> blocks_arr d ! k" if "(A(i \<mapsto> z)) j = Some w" "(A(i \<mapsto> z)) k = Some v" "j \<noteq> k" for j w k v
      using that D(10) [of j _ k] y by (auto split: if_splits)
    ultimately show ?thesis using f(2) D(2,3) ranges_removed(2) [OF ok y] by (intro drv_okI) simp_all
  qed
  ultimately show ?thesis by blast
qed

section \<open>A whole trace\<close>

lemma valid_op_ok:
  assumes ok: "drv_ok ids A d" and wf: "wf_ops ids A (opn # ops)"
  shows "(\<exists>d'. valid_op n opn d = Some (False, d') \<and> errors d' = errors d @ [(LINENUM n, Malloc_failed)]
      \<and> mem_max_addr (the_heap d) < mem_brk (the_heap d) + demand [opn])
    \<or> (\<exists>d'. valid_op n opn d = Some (True, d') \<and> drv_ok ids (step_sizes opn A) d' \<and> wf_ops ids (step_sizes opn A) ops
      \<and> grown d d' (demand [opn]))"
proof -
  define i z where "i = nat (op_index opn)" "z = nat (op_size opn)"
  have i: "op_index opn = int i" "i < ids" using wf by (auto simp: i_z_def Let_def)
  show ?thesis
  proof (cases "op_type opn")
    case ALLOC
    then have z: "op_size opn = int z" "A i = None" "0 < z" "z \<le> 2 ^ 31 - 32" "wf_ops ids (A(i \<mapsto> z)) ops"
      using wf by (auto simp: i_z_def Let_def)
    then show ?thesis using valid_alloc_ok [OF ok i(2) z(2-4), of n] ALLOC i by (auto simp: valid_op_def step_sizes_def)
  next
    case FREE
    then obtain y where y: "A i = Some y" "wf_ops ids (A(i := None)) ops" using wf by (auto simp: i_z_def Let_def)
    then show ?thesis using valid_free_ok [OF ok y(1)] FREE i by (auto simp: valid_op_def step_sizes_def)
  next
    case REALLOC
    then obtain y where y: "op_size opn = int z" "A i = Some y" "0 < z" "z \<le> y" "i mod 256 < 128" "wf_ops ids (A(i \<mapsto> z)) ops"
      using wf by (auto simp: i_z_def Let_def split: option.splits)
    then show ?thesis using valid_realloc_ok [OF ok y(2-5), of n] REALLOC i by (auto simp: valid_op_def step_sizes_def)
  qed
qed

lemma valid_loop_ok:
  "drv_ok ids A d \<Longrightarrow> wf_ops ids A ops \<Longrightarrow>
   (\<exists>d' A' k. valid_loop n ops d = Some (True, d') \<and> grown d d' k \<and> drv_ok ids A' d') \<or>
   (\<exists>d' i. valid_loop n ops d = Some (False, d') \<and> errors d' = errors d @ [(LINENUM i, Malloc_failed)]
      \<and> mem_max_addr (the_heap d) < mem_brk (the_heap d) + demand ops)"
proof (induction ops arbitrary: n A d)
  case (Cons opn ops)
  let ?h = "the_heap d"
  consider d' where "valid_op n opn d = Some (False, d')" "errors d' = errors d @ [(LINENUM n, Malloc_failed)]"
      "mem_max_addr ?h < mem_brk ?h + demand [opn]"
    | d' where "valid_op n opn d = Some (True, d')" "drv_ok ids (step_sizes opn A) d'" "wf_ops ids (step_sizes opn A) ops"
        "grown d d' (demand [opn])"
    using valid_op_ok [OF Cons.prems, of n] by blast
  then show ?case
  proof cases
    case 1
    then have "mem_max_addr ?h < mem_brk ?h + demand (opn # ops)" by simp
    then show ?thesis using 1 by auto
  next
    case 2
    then have v: "valid_loop n (opn # ops) d = valid_loop (Suc n) ops d'" by simp
    have g: "errors d' = errors d" "mem_max_addr (the_heap d') = mem_max_addr ?h" "mem_brk (the_heap d') + demand ops \<le> mem_brk ?h + demand (opn # ops)"
      using 2(4) by (simp_all add: grown_def)
    have "grown d d'' (demand [opn] + k)" if "grown d' d'' k" for d'' k using that 2(4) by (simp add: grown_def)
    then show ?thesis using Cons.IH [OF 2(2,3), of "Suc n"] g unfolding v by fastforce
  qed
qed (auto simp: grown_def)

text \<open>The state in which \<^verbatim>\<open>main\<close> starts an evaluation: the store was set up by \<^verbatim>\<open>mem_init\<close>.\<close>

definition ready :: "nat \<Rightarrow> driver \<Rightarrow> bool" where
  "ready ids d \<longleftrightarrow> 8 dvd mem_start_brk (the_heap d) \<and> 0 < mem_start_brk (the_heap d)
     \<and> mem_max_addr (the_heap d) = mem_start_brk (the_heap d) + MAX_HEAP \<and> mem_max_addr (the_heap d) < 2 ^ 63
     \<and> length (blocks_arr d) = ids \<and> length (block_sizes d) = ids"

lemma ready_init:
  assumes "ready ids d"
  shows "\<exists>h. mm_init (mem_reset_brk (the_heap d)) = Some (0, h) \<and> drv_ok ids Map.empty (set_heap (clear_ranges d) h)
    \<and> mem_max_addr h = mem_start_brk h + MAX_HEAP \<and> mem_brk h = mem_start_brk h + 96 \<and> mem_start_brk h = mem_start_brk (the_heap d)"
proof -
  let ?s = "mem_reset_brk (the_heap d)"
  have "fresh_store ?s" using assms by (simp add: ready_def fresh_store_def mem_reset_brk_def)
  then obtain h where h: "mm_init ?s = Some (0, h)" "heap_inv h [(32, False)] [mem_start_brk ?s + 32]"
    "mem_start_brk h = mem_start_brk ?s" "mem_max_addr h = mem_max_addr ?s" using mm_init_ok by blast
  have "mm_inv h" unfolding mm_inv_def using h(2) by (intro exI [of _ "[(32, False)]"]) auto
  then have "drv_ok ids Map.empty (set_heap (clear_ranges d) h)"
    using assms by (auto simp: drv_ok_def ready_def set_heap_def clear_ranges_def)
  moreover have "mem_brk h = mem_start_brk h + 96" using h(2) by (simp add: heap_inv_def Let_def)
  moreover have "mem_max_addr h = mem_start_brk h + MAX_HEAP" using h assms by (simp add: ready_def mem_reset_brk_def)
  moreover have "mem_start_brk h = mem_start_brk (the_heap d)" using h(3) by (simp add: mem_reset_brk_def)
  ultimately show ?thesis using h(1) by blast
qed

lemma eval_mm_valid_cases:
  assumes r: "ready ids d" and wf: "wf_ops ids Map.empty ops"
  shows "(\<exists>d'. eval_mm_valid ops d = Some (True, d') \<and> errors d' = errors d \<and> ready ids d') \<or>
    (\<exists>d' i. eval_mm_valid ops d = Some (False, d') \<and> errors d' = errors d @ [(LINENUM i, Malloc_failed)]
       \<and> MAX_HEAP < demand ops + 96)"
proof -
  obtain h where h: "mm_init (mem_reset_brk (the_heap d)) = Some (0, h)" "drv_ok ids Map.empty (set_heap (clear_ranges d) h)"
    "mem_max_addr h = mem_start_brk h + MAX_HEAP" "mem_brk h = mem_start_brk h + 96" "mem_start_brk h = mem_start_brk (the_heap d)"
    using ready_init [OF r] by blast
  let ?d = "set_heap (clear_ranges d) h"
  have "ready ids d'" if "grown ?d d' k" "drv_ok ids A' d'" for d' k A'
    using that r h(3,5) drv_okD(2,3) [OF that(2)] by (simp add: ready_def grown_def set_heap_def mem_heap_lo_def)
  moreover have "eval_mm_valid ops d = valid_loop 0 ops (set_heap (clear_ranges d) h)"
    using h(1) by (simp add: eval_mm_valid_def clear_ranges_def set_heap_def)
  moreover have "errors (set_heap (clear_ranges d) h) = errors d" "the_heap (set_heap (clear_ranges d) h) = h"
    by (simp_all add: clear_ranges_def set_heap_def)
  ultimately show ?thesis using valid_loop_ok [OF h(2) wf, of 0] h(3,4) by (auto simp: grown_def)
qed

section \<open>The other evaluations follow\<close>

text \<open>Where the correctness evaluation goes on, the speed evaluation makes the same calls.\<close>

lemma speed_op_follows:
  assumes v: "valid_op n opn d = Some (True, d')" and e: "the_heap e = the_heap d" "blocks_arr e = blocks_arr d"
  shows "\<exists>e'. speed_op opn e = Some e' \<and> the_heap e' = the_heap d' \<and> blocks_arr e' = blocks_arr d'"
proof (cases "op_type opn")
  case ALLOC
  obtain p h c where p: "mm_malloc (size_t (op_size opn)) (the_heap d) = Some (p, h)" "p \<noteq> 0"
    and c: "add_range p (op_size opn) n (set_heap d h) = Some (True, c)"
      "(do { h \<leftarrow> memset p (low_byte (op_index opn)) (size_t (op_size opn)) (the_heap c);
             d \<leftarrow> remember (op_index opn) p (op_size opn) (set_heap c h); Some (True, d) }) = Some (True, d')"
    using v ALLOC by (auto simp: valid_op_def valid_alloc_def Let_def bind_eq_Some_conv split: if_splits)
  have "the_heap c = h" "blocks_arr c = blocks_arr d"
    using c(1) by (auto simp: add_range_def Let_def set_heap_def malloc_error_def split: if_splits)
  then show ?thesis using ALLOC p c(2) e
    by (auto simp: speed_op_def Let_def set_heap_def remember_def bind_eq_Some_conv)
next
  case REALLOC
  obtain old p h c where p: "get_at (blocks_arr d) (op_index opn) = Some old" "mm_realloc old (size_t (op_size opn)) (the_heap d) = Some (p, h)" "p \<noteq> 0"
    and c: "add_range p (op_size opn) n ((set_heap d h)\<lparr>ranges := remove_range (ranges (set_heap d h)) old\<rparr>) = Some (True, c)"
      "(do { h \<leftarrow> memset p (low_byte (op_index opn)) (size_t (op_size opn)) (the_heap c);
             d \<leftarrow> remember (op_index opn) p (op_size opn) (set_heap c h); Some (True, d) }) = Some (True, d')"
    using v REALLOC by (auto simp: valid_op_def valid_realloc_def Let_def bind_eq_Some_conv split: if_splits)
  have "the_heap c = h" "blocks_arr c = blocks_arr d"
    using c(1) by (auto simp: add_range_def Let_def set_heap_def malloc_error_def split: if_splits)
  then show ?thesis using REALLOC p c(2) e
    by (auto simp: speed_op_def Let_def set_heap_def remember_def bind_eq_Some_conv)
next
  case FREE
  then show ?thesis using v e by (auto simp: valid_op_def valid_free_def speed_op_def Let_def bind_eq_Some_conv)
qed

lemma speed_loop_follows:
  "valid_loop n ops d = Some (True, d') \<Longrightarrow> the_heap e = the_heap d \<Longrightarrow> blocks_arr e = blocks_arr d \<Longrightarrow>
   \<exists>e'. foldM speed_op ops e = Some e' \<and> the_heap e' = the_heap d' \<and> blocks_arr e' = blocks_arr d'"
proof (induction ops arbitrary: n d e)
  case (Cons opn ops)
  obtain c where c: "valid_op n opn d = Some (True, c)" "valid_loop (Suc n) ops c = Some (True, d')"
    using Cons.prems(1) by (auto simp: bind_eq_Some_conv split: if_splits)
  obtain e1 where "speed_op opn e = Some e1" "the_heap e1 = the_heap c" "blocks_arr e1 = blocks_arr c"
    using speed_op_follows [OF c(1) Cons.prems(2,3)] by blast
  then show ?case using Cons.IH [OF c(2)] by simp
qed simp

section \<open>Space utilisation\<close>

lemma used_at_sum:
  "wf_seq bs \<Longrightarrow> finite (used_at a bs) \<and> (\<Sum>(p, n) \<in> used_at a bs. n) \<le> total bs"
proof (induction a bs rule: blocks.induct)
  case (2 a n al bs)
  have "(a, n) \<notin> used_at (a + n) bs" using used_at_bounds [of bs a n "a + n"] 2(2) by auto
  then show ?case using 2 by auto
qed simp

lemma live_sum:
  assumes "mm_inv s"
  shows "finite (live s)" "(\<Sum>(p, n) \<in> live s. n) \<le> mem_heapsize s"
proof -
  obtain mid ps where inv: "heap_inv s mid ps" using assms unfolding mm_inv_def by blast
  have u: "finite (used s mid)" "(\<Sum>(p, n) \<in> used s mid. n) \<le> total mid"
    using used_at_sum [of mid "mem_start_brk s + 32"] inv by (simp_all add: heap_inv_def Let_def heap_ok_def used_def)
  then show "finite (live s)" using live_used [OF inv] by simp
  have inj: "inj_on (\<lambda>(p, n). (p + 8, n - 16)) (used s mid)" using used_bounds(3) [OF inv] by (force simp: inj_on_def)
  have "(\<Sum>(p, n) \<in> live s. n) = (\<Sum>(p, n) \<in> used s mid. n - 16)"
    unfolding live_used [OF inv] by (subst sum.reindex [OF inj]) (simp add: case_prod_beta)
  also have "\<dots> \<le> (\<Sum>(p, n) \<in> used s mid. n)" by (intro sum_mono) auto
  also have "\<dots> \<le> mem_heapsize s" using u(2) inv by (simp add: heap_inv_def Let_def mem_heapsize_def)
  finally show "(\<Sum>(p, n) \<in> live s. n) \<le> mem_heapsize s" .
qed

definition loaded :: "(nat \<rightharpoonup> nat) \<Rightarrow> nat" where
  "loaded A = (\<Sum>i \<in> dom A. the (A i))"

lemma loaded_bound:
  assumes ok: "drv_ok ids A d"
  shows "finite (dom A)" "loaded A \<le> mem_heapsize (the_heap d)"
proof -
  note D = drv_okD [OF ok]
  show fin: "finite (dom A)" using D(4) finite_subset by blast
  have "\<forall>i \<in> dom A. \<exists>n. the (A i) \<le> n \<and> (blocks_arr d ! i, n) \<in> live (the_heap d)"
    using D(6) unfolding holds_def by fastforce
  then obtain f where f: "\<forall>i \<in> dom A. the (A i) \<le> f i \<and> (blocks_arr d ! i, f i) \<in> live (the_heap d)" by metis
  have inj: "inj_on (\<lambda>i. (blocks_arr d ! i, f i)) (dom A)" using D(10) by (fastforce simp: inj_on_def dom_def)
  have "loaded A \<le> (\<Sum>i \<in> dom A. f i)" unfolding loaded_def using f by (intro sum_mono) blast
  also have "\<dots> = (\<Sum>(p, n) \<in> (\<lambda>i. (blocks_arr d ! i, f i)) ` dom A. n)" by (simp add: sum.reindex [OF inj])
  also have "\<dots> \<le> (\<Sum>(p, n) \<in> live (the_heap d). n)"
    using live_sum(1) [OF D(1)] f by (intro sum_mono2) auto
  also have "\<dots> \<le> mem_heapsize (the_heap d)" using live_sum(2) [OF D(1)] .
  finally show "loaded A \<le> mem_heapsize (the_heap d)" .
qed

lemma loaded_simps:
  assumes "finite (dom A)"
  shows "A i = None \<Longrightarrow> loaded (A(i \<mapsto> z)) = loaded A + z" "A i = Some y \<Longrightarrow> loaded (A(i := None)) + y = loaded A"
    "A i = Some y \<Longrightarrow> loaded (A(i \<mapsto> z)) + y = loaded A + z"
proof -
  have c: "(\<Sum>j \<in> S. the ((A(i := v)) j)) = (\<Sum>j \<in> S. the (A j))" if "i \<notin> S" for v S using that by (intro sum.cong) auto
  show "A i = None \<Longrightarrow> loaded (A(i \<mapsto> z)) = loaded A + z"
    using assms c [of "dom A" "Some z"] by (simp add: loaded_def domIff)
  assume y: "A i = Some y"
  have r: "loaded A = y + (\<Sum>j \<in> dom A - {i}. the (A j))"
    unfolding loaded_def using assms y by (subst sum.remove [of _ i]) auto
  show "loaded (A(i := None)) + y = loaded A" using r c [of "dom A - {i}" None] by (simp add: loaded_def)
  have "loaded (A(i \<mapsto> z)) = z + (\<Sum>j \<in> dom A - {i}. the (A j))"
    unfolding loaded_def using assms y c [of "dom A - {i}" "Some z"] by (simp add: insert_absorb domI sum.remove [of "dom A" i])
  then show "loaded (A(i \<mapsto> z)) + y = loaded A + z" using r by simp
qed

lemma util_op_follows:
  assumes v: "valid_op n opn (drv u) = Some (True, d')"
  shows "util_op n opn u = (case op_type opn of
       ALLOC \<Rightarrow> do { u \<leftarrow> count u d' (op_size opn); Some (True, u) }
     | REALLOC \<Rightarrow> do {
         oldsize \<leftarrow> get_at (block_sizes (drv u)) (op_index opn);
         delta \<leftarrow> c_int (op_size opn - to_int oldsize);
         u \<leftarrow> count u d' delta;
         Some (True, u) }
     | FREE \<Rightarrow> do {
         sz \<leftarrow> get_at (block_sizes (drv u)) (op_index opn);
         t \<leftarrow> c_int (total_size u - to_int sz);
         Some (True, u\<lparr>drv := d', total_size := t\<rparr>) })"
proof (cases "op_type opn")
  case ALLOC
  obtain p h c where p: "mm_malloc (size_t (op_size opn)) (the_heap (drv u)) = Some (p, h)" "p \<noteq> 0"
    and c: "add_range p (op_size opn) n (set_heap (drv u) h) = Some (True, c)"
      "(do { h \<leftarrow> memset p (low_byte (op_index opn)) (size_t (op_size opn)) (the_heap c);
             d \<leftarrow> remember (op_index opn) p (op_size opn) (set_heap c h); Some (True, d) }) = Some (True, d')"
    using v ALLOC by (auto simp: valid_op_def valid_alloc_def Let_def bind_eq_Some_conv split: if_splits)
  then show ?thesis using ALLOC by (auto simp: util_op_def Let_def bind_eq_Some_conv)
next
  case REALLOC
  obtain old p h c z where p: "get_at (blocks_arr (drv u)) (op_index opn) = Some old"
      "mm_realloc old (size_t (op_size opn)) (the_heap (drv u)) = Some (p, h)" "p \<noteq> 0"
    and c: "add_range p (op_size opn) n ((set_heap (drv u) h)\<lparr>ranges := remove_range (ranges (set_heap (drv u) h)) old\<rparr>) = Some (True, c)"
      "get_at (block_sizes c) (op_index opn) = Some z"
      "(do { h \<leftarrow> memset p (low_byte (op_index opn)) (size_t (op_size opn)) (the_heap c);
             d \<leftarrow> remember (op_index opn) p (op_size opn) (set_heap c h); Some (True, d) }) = Some (True, d')"
    using v REALLOC by (auto simp: valid_op_def valid_realloc_def Let_def bind_eq_Some_conv split: if_splits)
  have s: "block_sizes c = block_sizes (drv u)"
    using c(1) by (auto simp: add_range_def Let_def set_heap_def malloc_error_def split: if_splits)
  have r: "ranges (set_heap (drv u) h) = ranges (drv u)" by (simp add: set_heap_def)
  show ?thesis using REALLOC p c s unfolding r by (auto simp: util_op_def Let_def bind_eq_Some_conv)
next
  case FREE
  then show ?thesis using v by (auto simp: valid_op_def valid_free_def util_op_def Let_def bind_eq_Some_conv)
qed

lemma heapsize_bound: "mm_inv s \<Longrightarrow> mem_heapsize s \<le> MAX_HEAP"
  by (auto simp: mm_inv_def heap_inv_def Let_def heap_ok_def mem_heapsize_def)

text \<open>The counters of the evaluation: the sum of the sizes in use, and its maximum so far.\<close>

definition counted :: "(nat \<rightharpoonup> nat) \<Rightarrow> usage \<Rightarrow> bool" where
  "counted A u \<longleftrightarrow> total_size u = int (loaded A) \<and> 0 \<le> max_total_size u \<and> max_total_size u \<le> int (mem_heapsize (the_heap (drv u)))"

lemma count_ok:
  assumes ok: "drv_ok ids A d'" and t: "total_size u + delta = int (loaded A)"
    and m: "0 \<le> max_total_size u" "max_total_size u \<le> int (mem_heapsize (the_heap d'))"
  shows "\<exists>u'. count u d' delta = Some u' \<and> drv u' = d' \<and> counted A u'"
proof -
  have "loaded A \<le> mem_heapsize (the_heap d')" "mem_heapsize (the_heap d') \<le> MAX_HEAP"
    using loaded_bound(2) [OF ok] heapsize_bound [OF drv_okD(1) [OF ok]] .
  then show ?thesis using m by (simp add: count_def t counted_def)
qed

lemma util_op_ok:
  assumes ok: "drv_ok ids A (drv u)" and wf: "wf_ops ids A (opn # ops)" and c: "counted A u"
    and v: "valid_op n opn (drv u) = Some (True, d')" and ok': "drv_ok ids (step_sizes opn A) d'" and g: "grown (drv u) d' k"
  shows "\<exists>u'. util_op n opn u = Some (True, u') \<and> drv u' = d' \<and> counted (step_sizes opn A) u'"
proof -
  note D = drv_okD [OF ok] and L = loaded_simps [OF loaded_bound(1) [OF ok]]
  define i z where "i = nat (op_index opn)" "z = nat (op_size opn)"
  have i: "op_index opn = int i" "i < ids" using wf by (auto simp: i_z_def Let_def)
  have "mem_heapsize (the_heap (drv u)) \<le> mem_heapsize (the_heap d')"
    using g by (simp add: grown_def mem_heapsize_def mem_heap_lo_def diff_le_mono)
  then have m: "0 \<le> max_total_size u" "max_total_size u \<le> int (mem_heapsize (the_heap d'))" and t: "total_size u = int (loaded A)"
    using c by (simp_all add: counted_def)
  note U = util_op_follows [OF v]
  show ?thesis
  proof (cases "op_type opn")
    case ALLOC
    then have z: "op_size opn = int z" "A i = None" "step_sizes opn A = A(i \<mapsto> z)"
      using wf by (auto simp: i_z_def Let_def step_sizes_def)
    then have "total_size u + op_size opn = int (loaded (step_sizes opn A))" using L(1) [OF z(2)] t by simp
    then show ?thesis using count_ok [OF ok' _ m] U ALLOC by fastforce
  next
    case FREE
    then obtain y where y: "A i = Some y" "step_sizes opn A = A(i := None)" using wf by (auto simp: i_z_def Let_def step_sizes_def)
    have b: "to_int y = int y" using D(9) [OF y(1)] by (simp add: to_int_small)
    have t': "total_size u - int y = int (loaded (step_sizes opn A))" using L(2) [OF y(1)] t unfolding y(2) by linarith
    have "loaded (step_sizes opn A) \<le> MAX_HEAP"
      using loaded_bound(2) [OF ok'] heapsize_bound [OF drv_okD(1) [OF ok']] by simp
    then have "c_int (total_size u - int y) = Some (int (loaded (step_sizes opn A)))" unfolding t' by simp
    moreover have "get_at (block_sizes (drv u)) (op_index opn) = Some y" using D(3) D(5) [OF y(1)] D(7) [OF y(1)] i by simp
    ultimately show ?thesis using U FREE b m by (simp add: counted_def)
  next
    case REALLOC
    then obtain y where y: "op_size opn = int z" "A i = Some y" "step_sizes opn A = A(i \<mapsto> z)" "z \<le> y"
      using wf by (auto simp: i_z_def Let_def step_sizes_def split: option.splits)
    have b: "to_int y = int y" "y < 2 ^ 31" using D(9) [OF y(2)] by (simp_all add: to_int_small)
    have "total_size u + (op_size opn - int y) = int (loaded (step_sizes opn A))" using L(3) [OF y(2), of z] t y(1,3) by simp
    then obtain u' where "count u d' (op_size opn - int y) = Some u'" "drv u' = d'" "counted (step_sizes opn A) u'"
      using count_ok [OF ok' _ m] by blast
    moreover have "c_int (op_size opn - int y) = Some (op_size opn - int y)" using y(1,4) b(2) by simp
    moreover have "get_at (block_sizes (drv u)) (op_index opn) = Some y" using D(3) D(5) [OF y(2)] D(7) [OF y(2)] i by simp
    ultimately show ?thesis using U REALLOC b(1) by simp
  qed
qed

lemma util_loop_ok:
  "drv_ok ids A (drv u) \<Longrightarrow> wf_ops ids A ops \<Longrightarrow> counted A u \<Longrightarrow> valid_loop n ops (drv u) = Some (True, d') \<Longrightarrow>
   \<exists>u' A'. util_loop n ops u = Some (True, u') \<and> drv u' = d' \<and> counted A' u'"
proof (induction ops arbitrary: n A u)
  case (Cons opn ops)
  obtain c where c: "valid_op n opn (drv u) = Some (True, c)" "valid_loop (Suc n) ops c = Some (True, d')"
    using Cons.prems(4) by (auto simp: bind_eq_Some_conv split: if_splits)
  have n: "drv_ok ids (step_sizes opn A) c" "wf_ops ids (step_sizes opn A) ops" "grown (drv u) c (demand [opn])"
    using valid_op_ok [OF Cons.prems(1,2), of n] c(1) by auto
  obtain u' where u': "util_op n opn u = Some (True, u')" "drv u' = c" "counted (step_sizes opn A) u'"
    using util_op_ok [OF Cons.prems(1-3) c(1) n(1,3)] by blast
  then show ?case using Cons.IH [of "step_sizes opn A" u' "Suc n"] n c(2) by simp
qed auto

lemma eval_mm_util_ok:
  assumes r: "ready ids d" and wf: "wf_ops ids Map.empty ops" and v: "eval_mm_valid ops d = Some (True, d')"
  shows "\<exists>x. eval_mm_util ops d = Some (x, d') \<and> 0 \<le> x \<and> x \<le> 1"
proof -
  obtain h where h: "mm_init (mem_reset_brk (the_heap d)) = Some (0, h)" "drv_ok ids Map.empty (set_heap (clear_ranges d) h)"
    using ready_init [OF r] by blast
  let ?u = "\<lparr>drv = set_heap (clear_ranges d) h, total_size = 0, max_total_size = 0\<rparr>"
  have "valid_loop 0 ops (drv ?u) = Some (True, d')"
    using v h(1) by (simp add: eval_mm_valid_def clear_ranges_def set_heap_def)
  moreover have "counted Map.empty ?u" by (simp add: counted_def loaded_def)
  ultimately obtain u' A' where u: "util_loop 0 ops ?u = Some (True, u')" "drv u' = d'" "counted A' u'"
    using util_loop_ok [of ids Map.empty ?u ops 0 d'] h(2) wf by auto
  let ?x = "real_of_int (max_total_size u') / real (mem_heapsize (the_heap d'))"
  have "eval_mm_util ops d = Some (?x, d')"
    using h(1) u(1,2) by (simp add: eval_mm_util_def clear_ranges_def set_heap_def)
  moreover have "0 \<le> ?x" "?x \<le> 1" using u(2,3) by (auto simp: counted_def divide_le_eq_1)
  ultimately show ?thesis by blast
qed

section \<open>Theorems\<close>

definition example_trace :: "traceop list" where
  "example_trace = [\<lparr>op_type = ALLOC, op_index = 0, op_size = 16\<rparr>, \<lparr>op_type = ALLOC, op_index = 1, op_size = 100\<rparr>,
     \<lparr>op_type = REALLOC, op_index = 1, op_size = 50\<rparr>, \<lparr>op_type = FREE, op_index = 0, op_size = 0\<rparr>,
     \<lparr>op_type = FREE, op_index = 1, op_size = 0\<rparr>]"

definition example_driver :: driver where
  "example_driver = \<lparr>the_heap = blank_store, ranges = [], errors = [], blocks_arr = [0, 0], block_sizes = [0, 0]\<rparr>"

lemma example_trace_ok: "ready 2 example_driver" "wf_ops 2 Map.empty example_trace" "demand example_trace + 96 \<le> MAX_HEAP"
  by (simp_all add: ready_def example_driver_def blank_store_def example_trace_def request_size_def align_def Let_def)

text \<open>C8. On a trace whose requests make sense the correctness evaluation of the driver returns. It reports
  at most one error, that \<^verbatim>\<open>mm_malloc\<close> found no memory, and only if the blocks of all requests together
  exceed the heap; in particular it never finds a payload misaligned, outside the heap, overlapping
  another one, or with its data lost.\<close>

theorem eval_mm_valid_accepts:
  assumes "ready ids d" "wf_ops ids Map.empty ops"
  shows "\<exists>ok d'. eval_mm_valid ops d = Some (ok, d') \<and>
    (if ok then errors d' = errors d
     else (\<exists>i. errors d' = errors d @ [(LINENUM i, Malloc_failed)]) \<and> MAX_HEAP < demand ops + 96)"
  using eval_mm_valid_cases [OF assms] by (elim disjE exE) auto

theorem eval_mm_valid_accepts_witness:
  "\<exists>d'. eval_mm_valid example_trace example_driver = Some (True, d') \<and> errors d' = []"
proof -
  obtain ok d' where "eval_mm_valid example_trace example_driver = Some (ok, d')"
    "if ok then errors d' = errors example_driver
     else (\<exists>i. errors d' = errors example_driver @ [(LINENUM i, Malloc_failed)]) \<and> MAX_HEAP < demand example_trace + 96"
    using eval_mm_valid_accepts [OF example_trace_ok(1,2)] by blast
  then show ?thesis using example_trace_ok(3) by (auto simp: example_driver_def split: if_splits)
qed

text \<open>C10. When the correctness evaluation accepts such a trace, the utilisation evaluation returns as well,
  ends in the same state, and its result lies between 0 and 1.\<close>

theorem eval_mm_util_bounded:
  assumes "ready ids d" "wf_ops ids Map.empty ops" "eval_mm_valid ops d = Some (True, d')"
  shows "\<exists>x. eval_mm_util ops d = Some (x, d') \<and> 0 \<le> x \<and> x \<le> 1"
  by (rule eval_mm_util_ok [OF assms])

theorem eval_mm_util_bounded_witness:
  "\<exists>x d'. eval_mm_util example_trace example_driver = Some (x, d') \<and> 0 \<le> x \<and> x \<le> 1"
proof -
  obtain d' where "eval_mm_valid example_trace example_driver = Some (True, d')"
    using eval_mm_valid_cases [OF example_trace_ok(1,2)] example_trace_ok(3) by auto
  then show ?thesis using eval_mm_util_bounded [OF example_trace_ok(1,2)] by blast
qed

text \<open>C11. On every trace that the correctness evaluation accepts the timed evaluation makes the same calls:
  it runs to the end and leaves the same heap and the same block pointers.\<close>

theorem eval_mm_speed_agrees:
  assumes "eval_mm_valid ops d = Some (True, d')"
  shows "\<exists>e. eval_mm_speed ops d = Some e \<and> the_heap e = the_heap d' \<and> blocks_arr e = blocks_arr d'"
proof -
  obtain r h where h: "mm_init (mem_reset_brk (the_heap d)) = Some (r, h)" "\<not> r < 0"
    "valid_loop 0 ops (set_heap (clear_ranges d) h) = Some (True, d')"
    using assms by (auto simp: eval_mm_valid_def clear_ranges_def set_heap_def Let_def bind_eq_Some_conv split: if_splits)
  have "the_heap (set_heap d h) = the_heap (set_heap (clear_ranges d) h)" "blocks_arr (set_heap d h) = blocks_arr (set_heap (clear_ranges d) h)"
    by (simp_all add: set_heap_def clear_ranges_def)
  then show ?thesis using speed_loop_follows [OF h(3)] h(1,2) by (simp add: eval_mm_speed_def)
qed

theorem eval_mm_speed_agrees_witness: "\<exists>e. eval_mm_speed example_trace example_driver = Some e"
proof -
  obtain d' where "eval_mm_valid example_trace example_driver = Some (True, d')"
    using eval_mm_valid_cases [OF example_trace_ok(1,2)] example_trace_ok(3) by auto
  then show ?thesis using eval_mm_speed_agrees by blast
qed

text \<open>\<^verbatim>\<open>add_range\<close> accepts exactly the aligned ranges inside the heap neither end of which lies in a
  range of the list. A range that strictly contains one of the list is accepted, although they overlap.\<close>

theorem add_range_checks_ends:
  assumes z: "0 < z" and lo: "0 < lo" "mem_heap_lo (the_heap d) \<le> lo" "lo + z \<le> mem_brk (the_heap d)" "8 dvd lo"
  shows "((\<exists>d'. add_range lo (int z) n d = Some (True, d')) \<longleftrightarrow>
      (\<forall>(plo, phi) \<in> set (ranges d). lo \<notin> {plo..phi} \<and> lo + z - 1 \<notin> {plo..phi}))
    \<and> ((\<forall>(plo, phi) \<in> set (ranges d). lo < plo \<and> phi < lo + z - 1) \<longrightarrow>
      add_range lo (int z) n d = Some (True, d\<lparr>ranges := (lo, lo + z - 1) # ranges d\<rparr>))"
proof -
  have hi: "nat (int lo + int z - 1) = lo + z - 1" using z by simp
  have "lo + z - 1 \<le> mem_heap_hi (the_heap d)" unfolding mem_heap_hi_def using lo(3) by (rule diff_le_mono)
  then have inside: "\<not> (lo < mem_heap_lo (the_heap d) \<or> lo > mem_heap_hi (the_heap d) \<or> lo + z - 1 < mem_heap_lo (the_heap d)
    \<or> lo + z - 1 > mem_heap_hi (the_heap d))" using lo z by auto
  have eq: "add_range lo (int z) n d =
     (if \<exists>(plo, phi) \<in> set (ranges d). lo \<ge> plo \<and> lo \<le> phi \<or> lo + z - 1 \<ge> plo \<and> lo + z - 1 \<le> phi
        then Some (False, malloc_error n Overlaps d)
      else Some (True, d\<lparr>ranges := (lo, lo + z - 1) # ranges d\<rparr>))"
    using z lo(4) inside unfolding add_range_def Let_def hi by auto
  have "(\<exists>d'. add_range lo (int z) n d = Some (True, d')) \<longleftrightarrow>
      (\<forall>(plo, phi) \<in> set (ranges d). lo \<notin> {plo..phi} \<and> lo + z - 1 \<notin> {plo..phi})"
    unfolding eq by auto
  moreover have "add_range lo (int z) n d = Some (True, d\<lparr>ranges := (lo, lo + z - 1) # ranges d\<rparr>)"
    if "\<forall>(plo, phi) \<in> set (ranges d). lo < plo \<and> phi < lo + z - 1"
    using that unfolding eq by fastforce
  ultimately show ?thesis by blast
qed

theorem add_range_checks_ends_witness:
  "\<exists>d d'. ranges d = [(4168, 4183)] \<and> add_range 4160 64 0 d = Some (True, d') \<and> ranges d' = [(4160, 4223), (4168, 4183)]"
proof -
  let ?d = "example_driver\<lparr>the_heap := blank_store\<lparr>mem_brk := 8192\<rparr>, ranges := [(4168, 4183)]\<rparr>"
  have "add_range 4160 (int 64) 0 ?d = Some (True, ?d\<lparr>ranges := (4160, 4160 + 64 - 1) # ranges ?d\<rparr>)"
    using add_range_checks_ends [of 64 4160 ?d 0] by (simp add: mem_heap_lo_def blank_store_def)
  then show ?thesis by (intro exI [of _ ?d] exI [of _ "?d\<lparr>ranges := [(4160, 4223), (4168, 4183)]\<rparr>"]) simp
qed

lemma data_kept_signed:
  assumes "\<And>j. j < n \<Longrightarrow> load_byte h (p + j) = Some (i mod 256)" "128 \<le> i mod 256"
  shows "data_kept p n (int i) h = Some (n = 0)"
  using assms by (induction n) (auto simp: schar_of_def)

text \<open>When a block whose number has a low byte of at least 128 is reallocated, the driver reports its data
  as lost although every byte of it is in place: the bytes are read as signed characters.\<close>

theorem valid_realloc_false_alarm:
  assumes ok: "drv_ok ids A d" and y: "A i = Some y" and z: "0 < z" "z \<le> y" and big: "128 \<le> i mod 256"
  shows "(\<forall>j < z. byte (the_heap d) (blocks_arr d ! i + j) = i mod 256) \<and>
    (\<exists>d'. valid_realloc n (int i) (int z) d = Some (False, d') \<and> errors d' = errors d @ [(LINENUM n, Data_lost)] \<and> the_heap d' = the_heap d)"
proof -
  note D = drv_okD [OF ok]
  have l: "load_byte (the_heap d) (blocks_arr d ! i + j) = Some (i mod 256)" if "j < z" for j
    using mm.holds_payload(5) [OF D(1) D(6) [OF y]] z(2) that by simp
  then have "data_kept (blocks_arr d ! i) z (int i) (the_heap d) = Some False"
    using data_kept_signed [OF _ big, of z "the_heap d" "blocks_arr d ! i"] z(1) by simp
  moreover have "\<forall>j < z. byte (the_heap d) (blocks_arr d ! i + j) = i mod 256" using D(6) [OF y] z(2) by (auto simp: holds_def)
  ultimately show ?thesis by (simp add: valid_realloc_eq [OF ok y z] Let_def malloc_error_def)
qed

theorem valid_realloc_false_alarm_witness:
  "\<exists>d d'. errors d = [] \<and> valid_realloc 1 128 8 d = Some (False, d') \<and> errors d' = [(6, Data_lost)]"
proof -
  let ?d0 = "\<lparr>the_heap = blank_store, ranges = [], errors = [], blocks_arr = replicate 129 0, block_sizes = replicate 129 0\<rparr>"
  have r: "ready 129 ?d0" by (simp add: ready_def blank_store_def)
  obtain h where h: "drv_ok 129 Map.empty (set_heap (clear_ranges ?d0) h)" "mem_max_addr h = mem_start_brk h + MAX_HEAP"
    "mem_brk h = mem_start_brk h + 96" using ready_init [OF r] by blast
  let ?d = "set_heap (clear_ranges ?d0) h"
  have "\<not> mem_max_addr (the_heap ?d) < mem_brk (the_heap ?d) + request_size 16"
    using h(2,3) by (simp add: set_heap_def request_size_def align_def)
  then obtain d where d: "drv_ok 129 [128 \<mapsto> 16] d" "grown ?d d (request_size 16)"
    using valid_alloc_ok [OF h(1), of 128 16 0] by auto
  have "errors d = []" using d(2) by (simp add: grown_def set_heap_def clear_ranges_def)
  then show ?thesis using valid_realloc_false_alarm [OF d(1), of 128 16 8 1] by (auto simp: LINENUM_def)
qed

end
