(* ===== verification/MdriverMain.thy ===== *)
theory MdriverMain
  imports MdriverCorrect
begin

text \<open>
  The rest of the driver, \<^verbatim>\<open>src/malloc/mdriver.c\<close>: reading a trace file, the loop of \<^verbatim>\<open>main\<close> over the traces,
  and the performance index.
\<close>

section \<open>Reading numbers\<close>

text \<open>
  What \<^verbatim>\<open>%d\<close> and \<^verbatim>\<open>%u\<close> of \<^verbatim>\<open>fscanf\<close> have in common: skip white space, an optional sign, digits. Without a digit
  there is no value. The second component is the rest of the file.
\<close>

definition scan_num :: "string \<Rightarrow> int option \<times> string" where
  "scan_num inp = (let f = dropWhile isspace inp;
      neg = (f \<noteq> [] \<and> hd f = CHR ''-'');
      f = (if f \<noteq> [] \<and> (hd f = CHR ''-'' \<or> hd f = CHR ''+'') then tl f else f);
      ds = takeWhile isdigit f
    in (if ds = [] then None else Some (if neg then - digits_val 0 ds else digits_val 0 ds), dropWhile isdigit f))"

text \<open>The value stored into an \<^verbatim>\<open>unsigned\<close>; a number that does not fit has no value. And \<^verbatim>\<open>unsigned\<close> to \<^verbatim>\<open>int\<close>.\<close>

definition uint_val :: "int \<Rightarrow> nat option" where
  "uint_val v = (if \<bar>v\<bar> < 2 ^ 32 then Some (nat (v mod 2 ^ 32)) else None)"

definition uint_to_int :: "nat \<Rightarrow> int" where
  "uint_to_int v = (if v < 2 ^ 31 then int v else int v - 2 ^ 32)"

text \<open>\<^verbatim>\<open>fscanf(tracefile, "%d", ...)\<close> into a field that has no value before.\<close>

definition scan_header :: "string \<Rightarrow> (int \<times> string) option" where
  "scan_header inp = (case scan_num inp of (None, f) \<Rightarrow> None | (Some v, f) \<Rightarrow> do { v \<leftarrow> c_int v; Some (v, f) })"

text \<open>\<^verbatim>\<open>fscanf(tracefile, "%u %u", &index, &size)\<close> and \<^verbatim>\<open>fscanf(tracefile, "%ud", &index)\<close>; a variable that
  is not matched keeps its value, \<^verbatim>\<open>size\<close> has none at first.\<close>

definition scan_two :: "string \<Rightarrow> nat \<Rightarrow> nat option \<Rightarrow> (nat \<times> nat option \<times> string) option" where
  "scan_two inp index siz = (case scan_num inp of
       (None, f) \<Rightarrow> Some (index, siz, f)
     | (Some v, f) \<Rightarrow> do {
         index \<leftarrow> uint_val v;
         case scan_num f of
           (None, f) \<Rightarrow> Some (index, siz, f)
         | (Some w, f) \<Rightarrow> do { z \<leftarrow> uint_val w; Some (index, Some z, f) }
       })"

definition scan_one_d :: "string \<Rightarrow> nat \<Rightarrow> (nat \<times> string) option" where
  "scan_one_d inp index = (case scan_num inp of
       (None, f) \<Rightarrow> Some (index, f)
     | (Some v, f) \<Rightarrow> do {
         index \<leftarrow> uint_val v;
         Some (index, if f \<noteq> [] \<and> hd f = CHR ''d'' then tl f else f)
       })"

section \<open>Reading a trace\<close>

abbreviation MAXLINE :: nat where "MAXLINE \<equiv> 1024"

record trace =
  num_ids :: int
  num_ops :: int
  trace_ops :: "traceop list"

lemma scan_num_shorter: "length (snd (scan_num inp)) \<le> length inp"
proof -
  let ?f = "dropWhile isspace inp"
  have "length (snd (scan_num inp)) \<le> length ?f"
    using length_dropWhile_le [of isdigit "tl ?f"] length_dropWhile_le [of isdigit ?f] by (auto simp: scan_num_def Let_def)
  then show ?thesis using length_dropWhile_le [of isspace inp] by linarith
qed

lemma scan_two_shorter:
  assumes "scan_two inp i z = Some (i', z', f)"
  shows "length f \<le> length inp"
proof -
  obtain v g where v: "scan_num inp = (v, g)" by (cases "scan_num inp")
  obtain w g' where w: "scan_num g = (w, g')" by (cases "scan_num g")
  have "f = g \<or> f = g'" using assms v w by (auto simp: scan_two_def bind_eq_Some_conv split: option.splits)
  moreover have "length g \<le> length inp" "length g' \<le> length g" using scan_num_shorter [of inp] scan_num_shorter [of g] v w by simp_all
  ultimately show ?thesis by auto
qed

lemma scan_one_d_shorter: "scan_one_d inp i = Some (i', f) \<Longrightarrow> length f \<le> length inp"
  using scan_num_shorter [of inp]
  by (auto simp: scan_one_d_def bind_eq_Some_conv split: prod.splits option.splits if_splits)

text \<open>
  The loop over the requests; \<open>junk\<close> is what an unwritten \<^verbatim>\<open>size\<close> field holds. A request beyond the
  array, a type of 1024 characters or more, and an unknown type have no result.
\<close>

function read_ops :: "int \<Rightarrow> int \<Rightarrow> nat \<Rightarrow> nat option \<Rightarrow> nat \<Rightarrow> traceop list \<Rightarrow> string \<Rightarrow> (nat \<times> traceop list) option" where
  "read_ops junk n index siz max_index acc inp =
     (let f = dropWhile isspace inp; ty = takeWhile (\<lambda>c. \<not> isspace c) f; f = dropWhile (\<lambda>c. \<not> isspace c) f in
      if ty = [] then Some (max_index, acc)
      else if length ty \<ge> MAXLINE \<or> int (length acc) \<ge> n then None
      else if hd ty = CHR ''a'' \<or> hd ty = CHR ''r'' then
        (case scan_two f index siz of
           None \<Rightarrow> None
         | Some (index, siz, f) \<Rightarrow> (case siz of
             None \<Rightarrow> None
           | Some z \<Rightarrow> read_ops junk n index siz (if index > max_index then index else max_index)
               (acc @ [\<lparr>op_type = (if hd ty = CHR ''a'' then ALLOC else REALLOC), op_index = uint_to_int index, op_size = uint_to_int z\<rparr>]) f))
      else if hd ty = CHR ''f'' then
        (case scan_one_d f index of
           None \<Rightarrow> None
         | Some (index, f) \<Rightarrow> read_ops junk n index siz max_index
             (acc @ [\<lparr>op_type = FREE, op_index = uint_to_int index, op_size = junk\<rparr>]) f)
      else None)"
  by auto

lemma type_consumed:
  assumes "takeWhile (\<lambda>c. \<not> isspace c) (dropWhile isspace inp) \<noteq> []"
  shows "length (dropWhile (\<lambda>c. \<not> isspace c) (dropWhile isspace inp)) < length inp"
proof -
  let ?f = "dropWhile isspace inp"
  have "length ?f = length (takeWhile (\<lambda>c. \<not> isspace c) ?f) + length (dropWhile (\<lambda>c. \<not> isspace c) ?f)"
    by (metis length_append takeWhile_dropWhile_id)
  moreover have "length ?f \<le> length inp" by (rule length_dropWhile_le)
  moreover have "0 < length (takeWhile (\<lambda>c. \<not> isspace c) ?f)" using assms by simp
  ultimately show ?thesis by linarith
qed

termination read_ops
proof (relation "measure (\<lambda>(junk, n, index, siz, max_index, acc, inp). length inp)")
  fix junk n index siz max_index acc inp f ty f' p i' q z f'' z'
  assume "f = dropWhile isspace inp" "ty = takeWhile (\<lambda>c. \<not> isspace c) f" "f' = dropWhile (\<lambda>c. \<not> isspace c) f" "ty \<noteq> []"
    and "scan_two f' index siz = Some p" "(i', q) = p" "(z, f'') = q" "z = Some z'"
  then show "((junk, n, i', z, if max_index < i' then i' else max_index,
       acc @ [\<lparr>op_type = if hd ty = CHR ''a'' then ALLOC else REALLOC, op_index = uint_to_int i', op_size = uint_to_int z'\<rparr>], f''),
      (junk, n, index, siz, max_index, acc, inp)) \<in> measure (\<lambda>(junk, n, index, siz, max_index, acc, inp). length inp)"
    using type_consumed [of inp] scan_two_shorter [of f' index siz] by fastforce
next
  fix junk n index siz max_index acc inp f ty f' p i' f''
  assume "f = dropWhile isspace inp" "ty = takeWhile (\<lambda>c. \<not> isspace c) f" "f' = dropWhile (\<lambda>c. \<not> isspace c) f" "ty \<noteq> []"
    and "scan_one_d f' index = Some p" "(i', f'') = p"
  then show "((junk, n, i', siz, max_index, acc @ [\<lparr>op_type = FREE, op_index = uint_to_int i', op_size = junk\<rparr>], f''),
      (junk, n, index, siz, max_index, acc, inp)) \<in> measure (\<lambda>(junk, n, index, siz, max_index, acc, inp). length inp)"
    using type_consumed [of inp] scan_one_d_shorter [of f' index] by fastforce
qed simp

declare read_ops.simps [simp del]

definition read_trace :: "int \<Rightarrow> string \<Rightarrow> trace option" where
  "read_trace junk inp = do {
     (sugg_heapsize, f) \<leftarrow> scan_header inp;
     (ids, f) \<leftarrow> scan_header f;
     (n, f) \<leftarrow> scan_header f;
     (weight, f) \<leftarrow> scan_header f;
     if n < 0 \<or> ids < 0 then None
     else do {
       (max_index, ops) \<leftarrow> read_ops junk n 0 None 0 [] f;
       if uint_to_int max_index = ids - 1 \<and> int (length ops) = n
       then Some \<lparr>num_ids = ids, num_ops = n, trace_ops = ops\<rparr> else None
     }
   }"

section \<open>The main loop\<close>

record stats =
  st_ops :: real
  st_valid :: bool
  st_secs :: real
  st_util :: real

text \<open>
  One round of the loop over the trace files. \<^verbatim>\<open>calloc\<close> cleared the statistics. \<^verbatim>\<open>fsecs\<close> runs the timed
  evaluation \<open>runs\<close> times and reports \<open>secs\<close> seconds; both are parameters, and so are the arrays that
  \<^verbatim>\<open>read_trace\<close> allocates.
\<close>

record measured =
  mt_trace :: trace
  mt_blocks :: "nat list"
  mt_sizes :: "nat list"
  mt_runs :: nat
  mt_secs :: real

definition run_trace :: "measured \<Rightarrow> driver \<Rightarrow> (stats \<times> driver) option" where
  "run_trace t d = (let ops = trace_ops (mt_trace t); n = real_of_int (num_ops (mt_trace t));
       d = d\<lparr>blocks_arr := mt_blocks t, block_sizes := mt_sizes t\<rparr> in do {
     (ok, d) \<leftarrow> eval_mm_valid ops d;
     if ok then do {
       (u, d) \<leftarrow> eval_mm_util ops d;
       d \<leftarrow> foldM (\<lambda>_. eval_mm_speed ops) [0..<mt_runs t] d;
       Some (\<lparr>st_ops = n, st_valid = True, st_secs = mt_secs t, st_util = u\<rparr>, d)
     } else Some (\<lparr>st_ops = n, st_valid = False, st_secs = 0, st_util = 0\<rparr>, d)
   })"

primrec run_traces :: "measured list \<Rightarrow> driver \<Rightarrow> (stats list \<times> driver) option" where
  "run_traces [] d = Some ([], d)"
| "run_traces (t # ts) d = do {
     (st, d) \<leftarrow> run_trace t d;
     (sts, d) \<leftarrow> run_traces ts d;
     Some (st # sts, d)
   }"

definition numcorrect :: "stats list \<Rightarrow> nat" where
  "numcorrect sts = length (filter st_valid sts)"

abbreviation AVG_LIBC_THRUPUT :: real where "AVG_LIBC_THRUPUT \<equiv> 600000"
abbreviation UTIL_WEIGHT :: real where "UTIL_WEIGHT \<equiv> 4 / 5"

definition perf_index :: "stats list \<Rightarrow> nat \<Rightarrow> real" where
  "perf_index sts nerrors =
     (let secs = (\<Sum>st \<leftarrow> sts. st_secs st); ops = (\<Sum>st \<leftarrow> sts. st_ops st); util = (\<Sum>st \<leftarrow> sts. st_util st);
          avg_mm_util = util / real (length sts)
      in if nerrors = 0 then
           let avg_mm_throughput = ops / secs;
               p1 = UTIL_WEIGHT * avg_mm_util;
               p2 = (if avg_mm_throughput > AVG_LIBC_THRUPUT then 1 - UTIL_WEIGHT
                     else (1 - UTIL_WEIGHT) * (avg_mm_throughput / AVG_LIBC_THRUPUT))
           in (p1 + p2) * 100
         else 0)"

section \<open>Trace files\<close>

text \<open>The text of a trace, one request per line.\<close>

definition op_text :: "traceop \<Rightarrow> string" where
  "op_text opn = (case op_type opn of
       ALLOC \<Rightarrow> ''a '' @ decimal (nat (op_index opn)) @ '' '' @ decimal (nat (op_size opn)) @ [newline]
     | REALLOC \<Rightarrow> ''r '' @ decimal (nat (op_index opn)) @ '' '' @ decimal (nat (op_size opn)) @ [newline]
     | FREE \<Rightarrow> ''f '' @ decimal (nat (op_index opn)) @ [newline])"

definition trace_text :: "nat \<Rightarrow> nat \<Rightarrow> nat \<Rightarrow> traceop list \<Rightarrow> string" where
  "trace_text heapsize ids weight ops = decimal heapsize @ [newline] @ decimal ids @ [newline] @ decimal (length ops) @ [newline]
     @ decimal weight @ [newline] @ concat (map op_text ops)"

lemma scan_decimal:
  assumes ws: "\<forall>c \<in> set ws. isspace c" and rest: "rest = [] \<or> \<not> isdigit (hd rest)"
  shows "scan_num (ws @ decimal n @ rest) = (Some (int n), rest)"
proof -
  obtain d ds where d: "decimal n = d # ds" using decimal_digits [of n] by (cases "decimal n") auto
  then have dd: "isdigit d" "\<forall>c \<in> set ds. isdigit c" using decimal_digits [of n] by auto
  have f: "dropWhile isspace (ws @ decimal n @ rest) = decimal n @ rest"
    using ws d digit_not_space [OF dd(1)] by (simp add: dropWhile_append2)
  have t: "takeWhile isdigit (decimal n @ rest) = decimal n" "dropWhile isdigit (decimal n @ rest) = rest"
    using decimal_digits [of n] rest by (auto simp: takeWhile_append2 dropWhile_append2) (cases rest; auto)+
  have h: "hd (decimal n @ rest) = d" using d by simp
  show ?thesis
    using digit_not_space [OF dd(1)] t h decimal_digits [of n] unfolding scan_num_def f Let_def by simp
qed

definition printable :: "int \<Rightarrow> traceop \<Rightarrow> bool" where
  "printable junk opn \<longleftrightarrow> 0 \<le> op_index opn \<and> op_index opn < 2 ^ 31 \<and>
     (if op_type opn = FREE then op_size opn = junk else 0 \<le> op_size opn \<and> op_size opn < 2 ^ 31)"

primrec largest :: "traceop list \<Rightarrow> nat \<Rightarrow> nat" where
  "largest [] m = m"
| "largest (opn # ops) m = largest ops (if op_type opn = FREE then m else max (nat (op_index opn)) m)"

lemma uint_small: "0 \<le> v \<Longrightarrow> v < 2 ^ 31 \<Longrightarrow> uint_val v = Some (nat v)" "0 \<le> v \<Longrightarrow> v < 2 ^ 31 \<Longrightarrow> uint_to_int (nat v) = v"
  by (auto simp: uint_val_def uint_to_int_def)

lemma read_ops_text:
  "\<forall>c \<in> set ws. isspace c \<Longrightarrow> \<forall>opn \<in> set ops. printable junk opn \<Longrightarrow> int (length acc + length ops) \<le> n \<Longrightarrow>
   read_ops junk n index siz m acc (ws @ concat (map op_text ops)) = Some (largest ops m, acc @ ops)"
proof (induction ops arbitrary: ws index siz m acc)
  case Nil
  then have "dropWhile isspace ws = []" by simp
  then show ?case by (subst read_ops.simps) (simp only: Let_def concat.simps list.map append_Nil2 takeWhile.simps largest.simps, simp)
next
  case (Cons opn ops)
  define i z where "i = nat (op_index opn)" "z = nat (op_size opn)"
  have i: "op_index opn = int i" "i < 2 ^ 31" using Cons.prems(2) by (auto simp: printable_def i_z_def)
  have ui: "uint_val (int i) = Some i" "uint_to_int i = int i" using uint_small [of "int i"] i by simp_all
  let ?rest = "concat (map op_text ops)"
  have IH: "read_ops junk n i' s' m' (acc @ [opn]) (newline # ?rest) = Some (largest ops m', acc @ opn # ops)" for i' s' m'
    using Cons.IH [of "[newline]" "acc @ [opn]" i' s' m'] Cons.prems by (simp add: isspace_def)
  have acc: "\<not> n \<le> int (length acc)" using Cons.prems(3) by simp
  have drop: "dropWhile isspace (ws @ c # xs) = c # xs" if "\<not> isspace c" for c xs
    using Cons.prems(1) that by (simp add: dropWhile_append2)
  have nd: "\<not> isdigit newline" "\<not> isdigit CHR '' ''" "isspace CHR '' ''" "newline \<noteq> CHR ''d''" by (simp_all add: isdigit_def isspace_def)
  have let_ns: "\<not> isspace CHR ''a''" "\<not> isspace CHR ''r''" "\<not> isspace CHR ''f''" by (simp_all add: isspace_def)
  show ?case
  proof (cases "op_type opn = FREE")
    case True
    have "opn = \<lparr>op_type = FREE, op_index = uint_to_int i, op_size = junk\<rparr>"
      using True i ui Cons.prems(2) by (cases opn) (simp add: printable_def)
    moreover have "scan_one_d ('' '' @ decimal i @ newline # ?rest) index = Some (i, newline # ?rest)"
      using scan_decimal [of "'' ''" "newline # ?rest" i] nd ui by (simp add: scan_one_d_def)
    moreover have "op_text opn = ''f '' @ decimal i @ [newline]" using True by (simp add: op_text_def i_z_def)
    ultimately show ?thesis
      using True IH acc nd let_ns drop [of "CHR ''f''"] by (subst read_ops.simps) (simp add: Let_def)
  next
    case False
    have z: "op_size opn = int z" "z < 2 ^ 31" using Cons.prems(2) False by (auto simp: printable_def i_z_def)
    have uz: "uint_val (int z) = Some z" "uint_to_int z = int z" using uint_small [of "int z"] z by simp_all
    have "scan_two ('' '' @ decimal i @ '' '' @ decimal z @ newline # ?rest) index siz = Some (i, Some z, newline # ?rest)"
      using scan_decimal [of "'' ''" "newline # ?rest" z] scan_decimal [of "'' ''" "'' '' @ decimal z @ newline # ?rest" i] nd ui uz
      by (simp add: scan_two_def)
    moreover have "op_type opn = ALLOC \<or> op_type opn = REALLOC" using False by (cases "op_type opn") auto
    moreover have "opn = \<lparr>op_type = op_type opn, op_index = uint_to_int i, op_size = uint_to_int z\<rparr>"
      using i z ui uz by (cases opn) simp
    moreover have "op_text opn = (if op_type opn = ALLOC then ''a '' else ''r '') @ decimal i @ '' '' @ decimal z @ [newline]"
      using False by (cases "op_type opn") (auto simp: op_text_def i_z_def)
    moreover have "(if m < i then i else m) = max i m" by simp
    ultimately show ?thesis
      using IH acc nd let_ns drop [of "CHR ''a''"] drop [of "CHR ''r''"] i
      by (subst read_ops.simps) (auto simp: Let_def)
  qed
qed

section \<open>The driver as a whole\<close>

lemma speed_op_fields: "speed_op opn d = Some e \<Longrightarrow> errors e = errors d \<and> block_sizes e = block_sizes d"
  by (cases "op_type opn") (auto simp: speed_op_def Let_def bind_eq_Some_conv split: if_splits)

lemma speed_loop_fields: "foldM speed_op ops d = Some e \<Longrightarrow> errors e = errors d \<and> block_sizes e = block_sizes d"
  by (induction ops arbitrary: d) (auto simp: bind_eq_Some_conv dest: speed_op_fields)

lemma eval_mm_speed_ok:
  assumes r: "ready ids d" and v: "eval_mm_valid ops d = Some (True, d')" "ready ids d'"
  shows "\<exists>e. eval_mm_speed ops d = Some e \<and> errors e = errors d \<and> ready ids e"
proof -
  obtain q h where h: "mm_init (mem_reset_brk (the_heap d)) = Some (q, h)" "\<not> q < 0"
    "valid_loop 0 ops (set_heap (clear_ranges d) h) = Some (True, d')"
    using v(1) by (auto simp: eval_mm_valid_def clear_ranges_def set_heap_def Let_def bind_eq_Some_conv split: if_splits)
  obtain e where e: "foldM speed_op ops (set_heap d h) = Some e" "the_heap e = the_heap d'" "blocks_arr e = blocks_arr d'"
    using speed_loop_follows [OF h(3), of "set_heap d h"] by (auto simp: set_heap_def clear_ranges_def)
  then have "errors e = errors d" "block_sizes e = block_sizes d" using speed_loop_fields [OF e(1)] by (simp_all add: set_heap_def)
  then show ?thesis using h(1,2) e r v(2) by (auto simp: eval_mm_speed_def ready_def)
qed

definition accepted :: "nat \<Rightarrow> traceop list \<Rightarrow> bool" where
  "accepted ids ops \<longleftrightarrow> wf_ops ids Map.empty ops \<and> demand ops + 96 \<le> MAX_HEAP"

lemma eval_mm_valid_ok:
  assumes "accepted ids ops" "ready ids d"
  shows "\<exists>d'. eval_mm_valid ops d = Some (True, d') \<and> errors d' = errors d \<and> ready ids d'"
  using eval_mm_valid_cases [OF assms(2), of ops] assms(1) by (auto simp: accepted_def)

lemma speed_runs_ok:
  assumes a: "accepted ids ops"
  shows "ready ids d \<Longrightarrow> \<exists>e. foldM (\<lambda>_. eval_mm_speed ops) [0..<k] d = Some e \<and> errors e = errors d \<and> ready ids e"
proof (induction k)
  case (Suc k)
  then obtain e where e: "foldM (\<lambda>_. eval_mm_speed ops) [0..<k] d = Some e" "errors e = errors d" "ready ids e" by blast
  obtain e' where "eval_mm_valid ops e = Some (True, e')" "ready ids e'" using eval_mm_valid_ok [OF a e(3)] by blast
  then show ?case using eval_mm_speed_ok [OF e(3)] e by (auto simp: foldM_append)
qed simp

lemma run_trace_ok:
  assumes a: "accepted ids (trace_ops (mt_trace t))" and l: "length (mt_blocks t) = ids" "length (mt_sizes t) = ids"
    and r: "ready ids' d"
  shows "\<exists>st d'. run_trace t d = Some (st, d') \<and> st_valid st \<and> st_ops st = real_of_int (num_ops (mt_trace t)) \<and> st_secs st = mt_secs t
    \<and> 0 \<le> st_util st \<and> st_util st \<le> 1 \<and> errors d' = errors d \<and> ready ids d'"
proof -
  let ?ops = "trace_ops (mt_trace t)" and ?d = "d\<lparr>blocks_arr := mt_blocks t, block_sizes := mt_sizes t\<rparr>"
  have "ready ids ?d" using r l by (simp add: ready_def)
  then obtain d1 where d1: "eval_mm_valid ?ops ?d = Some (True, d1)" "errors d1 = errors d" "ready ids d1"
    using eval_mm_valid_ok [OF a, of ?d] by auto
  obtain d2 where d2: "eval_mm_valid ?ops d1 = Some (True, d2)" "errors d2 = errors d1" "ready ids d2"
    using eval_mm_valid_ok [OF a d1(3)] by blast
  obtain x where x: "eval_mm_util ?ops d1 = Some (x, d2)" "0 \<le> x" "x \<le> 1"
    using eval_mm_util_ok [OF d1(3) _ d2(1)] a by (auto simp: accepted_def)
  obtain e where "foldM (\<lambda>_. eval_mm_speed ?ops) [0..<mt_runs t] d2 = Some e" "errors e = errors d2" "ready ids e"
    using speed_runs_ok [OF a d2(3)] by blast
  then show ?thesis using d1 d2 x by (simp add: run_trace_def Let_def)
qed

definition good_trace :: "measured \<Rightarrow> bool" where
  "good_trace t \<longleftrightarrow> length (mt_blocks t) = length (mt_sizes t) \<and> accepted (length (mt_blocks t)) (trace_ops (mt_trace t))
     \<and> 0 \<le> num_ops (mt_trace t) \<and> 0 < mt_secs t"

definition good_stats :: "stats \<Rightarrow> bool" where
  "good_stats st \<longleftrightarrow> st_valid st \<and> 0 \<le> st_util st \<and> st_util st \<le> 1 \<and> 0 \<le> st_ops st \<and> 0 < st_secs st"

lemma run_traces_ok:
  "\<forall>t \<in> set ts. good_trace t \<Longrightarrow> ready ids d \<Longrightarrow>
   \<exists>sts d'. run_traces ts d = Some (sts, d') \<and> length sts = length ts \<and> (\<forall>st \<in> set sts. good_stats st) \<and> errors d' = errors d"
proof (induction ts arbitrary: ids d)
  case (Cons t ts)
  have g: "accepted (length (mt_blocks t)) (trace_ops (mt_trace t))" "length (mt_sizes t) = length (mt_blocks t)" "0 \<le> num_ops (mt_trace t)"
    "0 < mt_secs t" using Cons.prems(1) by (auto simp: good_trace_def)
  obtain st e where e: "run_trace t d = Some (st, e)" "good_stats st" "errors e = errors d" "ready (length (mt_blocks t)) e"
    using run_trace_ok [OF g(1) _ g(2) Cons.prems(2)] g(3,4) by (auto simp: good_stats_def)
  then show ?case using Cons.IH [OF _ e(4)] Cons.prems(1) by auto
qed simp

lemma perf_index_bounds:
  assumes st: "\<forall>st \<in> set sts. good_stats st" and ne: "sts \<noteq> []"
  shows "0 \<le> perf_index sts 0" "perf_index sts 0 \<le> 100"
proof -
  let ?u = "\<Sum>st \<leftarrow> sts. st_util st" and ?o = "\<Sum>st \<leftarrow> sts. st_ops st" and ?s = "\<Sum>st \<leftarrow> sts. st_secs st"
  have "?u \<le> real (length sts) \<and> 0 \<le> ?u \<and> 0 \<le> ?o \<and> 0 \<le> ?s" using st by (induction sts) (auto simp: good_stats_def)
  then have "0 \<le> ?u / real (length sts)" "?u / real (length sts) \<le> 1" "0 \<le> ?o / ?s" using ne by simp_all
  then show "0 \<le> perf_index sts 0" "perf_index sts 0 \<le> 100" by (simp_all add: perf_index_def Let_def)
qed

lemma read_trace_text:
  assumes ops: "\<forall>opn \<in> set ops. printable junk opn" and ids: "ids = Suc (largest ops 0)"
    and small: "heapsize < 2 ^ 31" "ids < 2 ^ 31" "weight < 2 ^ 31" "length ops < 2 ^ 31"
  shows "read_trace junk (trace_text heapsize ids weight ops) = Some \<lparr>num_ids = int ids, num_ops = int (length ops), trace_ops = ops\<rparr>"
proof -
  have h: "scan_header (ws @ decimal k @ newline # rest) = Some (int k, newline # rest)"
    if "\<forall>c \<in> set ws. isspace c" "k < 2 ^ 31" for ws k rest
    using that scan_decimal [OF that(1), of "newline # rest" k] by (simp add: scan_header_def isdigit_def)
  note h0 = h [of "[]"] and h1 = h [of "[newline]"]
  have r: "read_ops junk (int (length ops)) 0 None 0 [] (newline # concat (map op_text ops)) = Some (largest ops 0, ops)"
    using read_ops_text [of "[newline]" ops junk "[]" "int (length ops)" 0 None 0] ops by (simp add: isspace_def)
  have "uint_to_int (largest ops 0) = int ids - 1" using ids small(2) by (simp add: uint_to_int_def)
  then show ?thesis using h0 h1 small r by (simp add: read_trace_def trace_text_def isspace_def)
qed

section \<open>Theorems\<close>

text \<open>C12. \<^verbatim>\<open>read_trace\<close> reads back every trace file in the documented format: header and requests, for
  numbers below 2 to the 31 and identifiers that run from 0 to one less than their number.\<close>

theorem read_trace_roundtrip:
  assumes ops: "\<forall>opn \<in> set ops. printable junk opn" and ids: "ids = Suc (largest ops 0)"
    and small: "heapsize < 2 ^ 31" "ids < 2 ^ 31" "weight < 2 ^ 31" "length ops < 2 ^ 31"
  shows "read_trace junk (trace_text heapsize ids weight ops) = Some \<lparr>num_ids = int ids, num_ops = int (length ops), trace_ops = ops\<rparr>"
  by (rule read_trace_text [OF assms])

theorem read_trace_roundtrip_witness:
  "\<exists>t. read_trace 0 (trace_text 20000 2 1 example_trace) = Some t \<and> trace_ops t = example_trace \<and> num_ids t = 2"
  using read_trace_roundtrip [of example_trace 0 2 20000 1] by (simp add: example_trace_def printable_def)

text \<open>The loop over the traces; with traces whose requests make sense and fit the heap, every trace is
  reported correct, no error is counted and the performance index lies between 0 and 100.\<close>

theorem driver_accepts_allocator:
  assumes ts: "\<forall>t \<in> set ts. good_trace t" "ts \<noteq> []" and r: "ready ids d" "errors d = []"
  shows "\<exists>sts d'. run_traces ts d = Some (sts, d') \<and> numcorrect sts = length ts \<and> errors d' = []
    \<and> 0 \<le> perf_index sts (length (errors d')) \<and> perf_index sts (length (errors d')) \<le> 100"
proof -
  obtain sts d' where s: "run_traces ts d = Some (sts, d')" "length sts = length ts" "\<forall>st \<in> set sts. good_stats st" "errors d' = []"
    using run_traces_ok [OF ts(1) r(1)] r(2) by auto
  moreover have "filter st_valid sts = sts" using s(3) by (simp add: good_stats_def filter_id_conv)
  moreover have "sts \<noteq> []" using s(2) ts(2) by auto
  ultimately show ?thesis using perf_index_bounds [of sts] by (simp add: numcorrect_def)
qed

theorem driver_accepts_allocator_witness:
  "\<exists>t sts d'. trace_ops (mt_trace t) = example_trace \<and> run_traces [t] example_driver = Some (sts, d') \<and> numcorrect sts = 1 \<and> errors d' = []"
proof -
  let ?t = "\<lparr>mt_trace = \<lparr>num_ids = 2, num_ops = 5, trace_ops = example_trace\<rparr>, mt_blocks = [0, 0], mt_sizes = [0, 0], mt_runs = 10, mt_secs = 1\<rparr>"
  have "good_trace ?t" using example_trace_ok by (simp add: good_trace_def accepted_def numeral_2_eq_2)
  then show ?thesis using driver_accepts_allocator [of "[?t]" 2 example_driver] example_trace_ok(1)
    by (intro exI [of _ ?t]) (auto simp: example_driver_def)
qed

end
