(* ===== verification/MdriverOptions.thy ===== *)
theory MdriverOptions
  imports MdriverMain
begin

text \<open>
  Parts of \<^verbatim>\<open>main\<close> in \<^verbatim>\<open>src/malloc/mdriver.c\<close>: its options, the trace files they select,
  the evaluation of the allocator of the C library on a trace, and the table of results. What \<^verbatim>\<open>getopt\<close> makes of the
  arguments is a sequence of options with their arguments; the names of the default trace files are set
  when the program is built; numbers in the table stand for their renderings.
\<close>

section \<open>Options\<close>

record options =
  autograder :: bool
  tracefile :: "string option"
  tracedir :: string
  run_libc :: bool
  verbose :: nat

definition default_options :: "string \<Rightarrow> options" where
  "default_options dir = \<lparr>autograder = False, tracefile = None, tracedir = dir, run_libc = False, verbose = 0\<rparr>"

datatype parsed_option = Exit int | Go options | Undefined

text \<open>One round of the loop over the options. An empty directory makes the program read before its buffer.\<close>

definition apply_option :: "char \<times> string \<Rightarrow> options \<Rightarrow> parsed_option" where
  "apply_option c_arg opts = (let (c, optarg) = c_arg in
     if c = CHR ''g'' then Go (opts\<lparr>autograder := True\<rparr>)
     else if c = CHR ''f'' then Go (opts\<lparr>tracedir := [], tracefile := Some optarg\<rparr>)
     else if c = CHR ''t'' then
       (if tracefile opts \<noteq> None then Go opts
        else if optarg = [] \<or> MAXLINE \<le> length optarg + 1 then Undefined
        else Go (opts\<lparr>tracedir := (if last optarg \<noteq> CHR ''/'' then optarg @ ''/'' else optarg)\<rparr>))
     else if c = CHR ''l'' then Go (opts\<lparr>run_libc := True\<rparr>)
     else if c = CHR ''v'' then Go (opts\<lparr>verbose := 1\<rparr>)
     else if c = CHR ''V'' then Go (opts\<lparr>verbose := 2\<rparr>)
     else if c = CHR ''h'' then Exit 0
     else Exit 1)"

fun read_options :: "(char \<times> string) list \<Rightarrow> options \<Rightarrow> parsed_option" where
  "read_options [] opts = Go opts"
| "read_options (c # cs) opts = (case apply_option c opts of Go opts \<Rightarrow> read_options cs opts | r \<Rightarrow> r)"

definition tracefiles :: "string list \<Rightarrow> options \<Rightarrow> string list" where
  "tracefiles default_tracefiles opts = (case tracefile opts of None \<Rightarrow> default_tracefiles | Some f \<Rightarrow> [f])"

text \<open>The path that \<^verbatim>\<open>read_trace\<close> opens; \<open>files\<close> gives the contents of the files that can be opened.\<close>

definition open_trace :: "int \<Rightarrow> (string \<Rightarrow> string option) \<Rightarrow> options \<Rightarrow> string \<Rightarrow> trace option" where
  "open_trace junk files opts filename =
     (if MAXLINE \<le> length (tracedir opts) + length filename then None
      else do { txt \<leftarrow> files (tracedir opts @ filename); read_trace junk txt })"

section \<open>The allocator of the library\<close>

text \<open>
  One round of the loop over the traces; the array of blocks that \<^verbatim>\<open>read_trace\<close> allocates, the number of
  timed runs and the time are parameters, like the allocator.
\<close>

definition libc_trace :: "(nat \<Rightarrow> 'l \<Rightarrow> nat \<times> 'l) \<Rightarrow> (nat \<Rightarrow> nat \<Rightarrow> 'l \<Rightarrow> nat \<times> 'l) \<Rightarrow> (nat \<Rightarrow> 'l \<Rightarrow> 'l) \<Rightarrow>
    int \<Rightarrow> (string \<Rightarrow> string option) \<Rightarrow> options \<Rightarrow> string \<times> nat list \<times> nat \<times> real \<Rightarrow> 'l \<Rightarrow> (stats \<times> 'l) option" where
  "libc_trace malloc realloc free junk files opts file l = (let (name, blocks, runs, secs) = file in do {
     t \<leftarrow> open_trace junk files opts name;
     (ok, l, bs) \<leftarrow> eval_libc_valid malloc realloc free (trace_ops t) (l, blocks);
     if ok then do {
       (l, bs) \<leftarrow> foldM (\<lambda>_. eval_libc_speed malloc realloc free (trace_ops t)) [0..<runs] (l, bs);
       Some (\<lparr>st_ops = real_of_int (num_ops t), st_valid = True, st_secs = secs, st_util = 0\<rparr>, l)
     } else Some (\<lparr>st_ops = real_of_int (num_ops t), st_valid = False, st_secs = 0, st_util = 0\<rparr>, l)
   })"

section \<open>The table of results\<close>

text \<open>
  The rows that \<^verbatim>\<open>printresults\<close> writes: for a valid trace its number, name, utilisation in percent, requests,
  seconds and thousands of requests in a second; and the totals.
\<close>

datatype row = Consistent nat string real real real real | Inconsistent nat string | Total real real real real | No_total

fun result_rows :: "nat \<Rightarrow> (string \<times> stats) list \<Rightarrow> row list" where
  "result_rows i [] = []"
| "result_rows i ((name, st) # sts) =
     (if st_valid st then Consistent i name (st_util st * 100) (st_ops st) (st_secs st) (st_ops st / 1000 / st_secs st)
      else Inconsistent i name) # result_rows (i + 1) sts"

definition printresults :: "(string \<times> stats) list \<Rightarrow> nat \<Rightarrow> row list" where
  "printresults sts nerrors =
     (let valid = filter st_valid (map snd sts);
          secs = (\<Sum>st \<leftarrow> valid. st_secs st); ops = (\<Sum>st \<leftarrow> valid. st_ops st); util = (\<Sum>st \<leftarrow> valid. st_util st) in
      result_rows 0 sts @
      [if nerrors = 0 then Total (util / real (length sts) * 100) ops secs (ops / 1000 / secs) else No_total])"

section \<open>Lemmas\<close>

lemma apply_option_keeps_file:
  "apply_option c opts = Go opts1 \<Longrightarrow> tracefile opts1 \<noteq> None \<longrightarrow> tracedir opts1 = [] \<or> tracefile opts1 = tracefile opts \<and> tracedir opts1 = tracedir opts"
  by (auto simp: apply_option_def Let_def split: prod.splits if_splits)

text \<open>
  A trace file named with \<^verbatim>\<open>-f\<close> is read from the current directory, whatever \<^verbatim>\<open>-t\<close> says before or after it; the
  last \<^verbatim>\<open>-f\<close> counts.
\<close>

theorem trace_file_option_wins:
  assumes "read_options (cs @ (CHR ''f'', name) # ds) (default_options dir) = Go opts" "CHR ''f'' \<notin> fst ` set ds"
  shows "tracefiles defaults opts = [name] \<and> tracedir opts = []"
proof -
  have later: "read_options ds p = Go opts \<Longrightarrow> tracefile p = Some name \<Longrightarrow> tracedir p = [] \<Longrightarrow> CHR ''f'' \<notin> fst ` set ds
      \<Longrightarrow> tracefile opts = Some name \<and> tracedir opts = []" for ds p
  proof (induction ds arbitrary: p)
    case (Cons d ds)
    then obtain q where q: "apply_option d p = Go q" "read_options ds q = Go opts" by (auto split: parsed_option.splits)
    then have "tracefile q = Some name \<and> tracedir q = []" using Cons.prems
      by (auto simp: apply_option_def Let_def split: prod.splits if_splits)
    then show ?case using Cons.IH [OF q(2)] Cons.prems(4) by simp
  qed simp
  have "\<exists>p. tracefile p = Some name \<and> tracedir p = [] \<and> read_options ds p = Go opts"
    if "read_options (cs @ (CHR ''f'', name) # ds) p = Go opts" for cs p
    using that
  proof (induction cs arbitrary: p)
    case (Cons d cs)
    then show ?case by (auto split: parsed_option.splits)
  qed (auto simp: apply_option_def intro!: exI [of _ "_\<lparr>tracedir := [], tracefile := Some name\<rparr>"])
  then obtain p where "tracefile p = Some name" "tracedir p = []" "read_options ds p = Go opts" using assms(1) by blast
  then show ?thesis using later assms(2) by (simp add: tracefiles_def)
qed

text \<open>
  When every trace was processed correctly, the total line of the table gives the two quantities from which the
  performance index is made: utilisation, and throughput capped at that of the library.
\<close>

theorem total_line_explains_index:
  assumes "\<forall>st \<in> set (map snd sts). st_valid st"
  shows "\<exists>util ops secs kops. last (printresults sts 0) = Total util ops secs kops
    \<and> perf_index (map snd sts) 0 = UTIL_WEIGHT * util + (1 - UTIL_WEIGHT) * 100 * min 1 (kops * 1000 / AVG_LIBC_THRUPUT)"
proof -
  let ?s = "map snd sts"
  have "filter st_valid ?s = ?s" using assms by (simp add: filter_id_conv)
  moreover define thr where "thr = (\<Sum>st \<leftarrow> ?s. st_ops st) / (\<Sum>st \<leftarrow> ?s. st_secs st)"
  moreover have "(\<Sum>st \<leftarrow> ?s. st_ops st) / 1000 / (\<Sum>st \<leftarrow> ?s. st_secs st) * 1000 = thr" by (simp add: thr_def)
  moreover have "(if thr > AVG_LIBC_THRUPUT then 1 - UTIL_WEIGHT else (1 - UTIL_WEIGHT) * (thr / AVG_LIBC_THRUPUT))
      = (1 - UTIL_WEIGHT) * min 1 (thr / AVG_LIBC_THRUPUT)" by (simp add: min_def)
  ultimately show ?thesis by (simp add: printresults_def perf_index_def Let_def algebra_simps flip: thr_def)
qed

end
