(* ===== verification/MdriverRun.thy ===== *)
theory MdriverRun
  imports MdriverOptions
begin

text \<open>
  The whole of \<^verbatim>\<open>main\<close> in \<^verbatim>\<open>src/malloc/mdriver.c\<close>: the parts of the other theories in their order, with the
  messages of the verbose levels, the error lines and the exit status. A run is the list of what it prints with either the
  status it exits with or the value from which it goes on. There is no result where an evaluation stops the program because
  a trace file is malformed or because the simulated memory or the allocator of the library gives up in
  the middle of it. The times that are measured, the number of timed runs behind them and the arrays that
  \<^verbatim>\<open>read_trace\<close> obtains are parameters for each trace.
\<close>

section \<open>Runs\<close>

datatype printed = Usage | Using_default_tracefiles string | Reading string | Could_not_open string
  | Testing_libc | Checking_libc | And_performance | Results_libc "row list"
  | Testing_mm | Checking_mm | Error_line nat nat mm_error | Efficiency | Results_mm "row list"
  | Perf_index real real real | Terminated nat | Correct nat | Perfidx real

type_synonym 'a run = "(printed list \<times> (int + 'a)) option"

definition says :: "printed list \<Rightarrow> 'a \<Rightarrow> 'a run" where
  "says out x = Some (out, Inr x)"

definition and_then :: "'a run \<Rightarrow> ('a \<Rightarrow> 'b run) \<Rightarrow> 'b run" where
  "and_then r f = (case r of None \<Rightarrow> None
     | Some (out, Inl code) \<Rightarrow> Some (out, Inl code)
     | Some (out, Inr x) \<Rightarrow> map_option (\<lambda>(more, y). (out @ more, y)) (f x))"

lemma and_then_simps [simp]:
  "and_then None f = None" "and_then (Some (out, Inl code)) f = Some (out, Inl code)"
  "and_then (Some (out, Inr x)) f = map_option (\<lambda>(more, y). (out @ more, y)) (f x)"
  by (simp_all add: and_then_def)

text \<open>A loop over the trace files, which collects one element of an array for each.\<close>

primrec each_file :: "(nat \<Rightarrow> 'f \<Rightarrow> 's \<Rightarrow> ('b \<times> 's) run) \<Rightarrow> nat \<Rightarrow> 'f list \<Rightarrow> 's \<Rightarrow> ('b list \<times> 's) run" where
  "each_file body i [] s = says [] ([], s)"
| "each_file body i (f # fs) s = and_then (body i f s) (\<lambda>(x, s).
     and_then (each_file body (i + 1) fs s) (\<lambda>(xs, s). says [] (x # xs, s)))"

section \<open>The loops\<close>

text \<open>
  The beginning of \<^verbatim>\<open>read_trace\<close>: the path is put together in a buffer, and a file that cannot be opened ends
  the program with a message that is put together in another buffer of the same size.
\<close>

definition with_trace_file :: "(string \<Rightarrow> string option) \<Rightarrow> options \<Rightarrow> string \<Rightarrow> (string \<Rightarrow> 'a run) \<Rightarrow> 'a run" where
  "with_trace_file files opts filename continue = (let path = tracedir opts @ filename in
     and_then (says (if verbose opts > 1 then [Reading filename] else []) ()) (\<lambda>_.
       if MAXLINE \<le> length path then None
       else case files path of
           None \<Rightarrow> if MAXLINE \<le> length (''Could not open '' @ path @ '' in read_trace'') then None
             else Some ([Could_not_open path], Inl 1)
         | Some txt \<Rightarrow> continue txt))"

definition libc_file :: "(nat \<Rightarrow> 'l \<Rightarrow> nat \<times> 'l) \<Rightarrow> (nat \<Rightarrow> nat \<Rightarrow> 'l \<Rightarrow> nat \<times> 'l) \<Rightarrow> (nat \<Rightarrow> 'l \<Rightarrow> 'l) \<Rightarrow>
    int \<Rightarrow> (string \<Rightarrow> string option) \<Rightarrow> options \<Rightarrow> (nat \<Rightarrow> nat list \<times> nat \<times> real) \<Rightarrow> nat \<Rightarrow> string \<Rightarrow> 'l \<Rightarrow> (stats \<times> 'l) run" where
  "libc_file malloc realloc free junk files opts given i filename l =
     with_trace_file files opts filename (\<lambda>txt. do {
       (st, l) \<leftarrow> libc_trace malloc realloc free junk files opts (filename, given i) l;
       says (if verbose opts > 1 then Checking_libc # (if st_valid st then [And_performance] else []) else []) (st, l)
     })"

text \<open>\<^verbatim>\<open>malloc_error\<close> prints its message when it counts the error.\<close>

definition mm_file :: "int \<Rightarrow> (string \<Rightarrow> string option) \<Rightarrow> options \<Rightarrow> (nat \<Rightarrow> nat list \<times> nat list \<times> nat \<times> real) \<Rightarrow>
    nat \<Rightarrow> string \<Rightarrow> driver \<Rightarrow> ((string \<times> stats) \<times> driver) run" where
  "mm_file junk files opts given i filename d =
     with_trace_file files opts filename (\<lambda>txt. (let (blocks, sizes, runs, secs) = given i in do {
       t \<leftarrow> read_trace junk txt;
       (st, d') \<leftarrow> run_trace \<lparr>mt_trace = t, mt_blocks = blocks, mt_sizes = sizes, mt_runs = runs, mt_secs = secs\<rparr> d;
       says ((if verbose opts > 1 then [Checking_mm] else []) @
             map (\<lambda>(line, e). Error_line i line e) (drop (length (errors d)) (errors d')) @
             (if verbose opts > 1 \<and> st_valid st then [Efficiency, And_performance] else [])) ((filename, st), d')
     }))"

section \<open>The main program\<close>

text \<open>The performance index with the two summands that are printed before it.\<close>

definition index_parts :: "stats list \<Rightarrow> real \<times> real" where
  "index_parts sts =
     (let secs = (\<Sum>st \<leftarrow> sts. st_secs st); ops = (\<Sum>st \<leftarrow> sts. st_ops st); util = (\<Sum>st \<leftarrow> sts. st_util st);
          avg_mm_util = util / real (length sts);
          avg_mm_throughput = ops / secs
      in (UTIL_WEIGHT * avg_mm_util,
          if avg_mm_throughput > AVG_LIBC_THRUPUT then 1 - UTIL_WEIGHT
          else (1 - UTIL_WEIGHT) * (avg_mm_throughput / AVG_LIBC_THRUPUT)))"

lemma perf_index_parts: "perf_index sts 0 = (let (p1, p2) = index_parts sts in (p1 + p2) * 100)"
  by (simp add: perf_index_def index_parts_def Let_def)

definition final_report :: "options \<Rightarrow> (string \<times> stats) list \<Rightarrow> nat \<Rightarrow> printed list" where
  "final_report opts results nerrors =
     (let sts = map snd results; (p1, p2) = index_parts sts; perfindex = perf_index sts nerrors in
      (if verbose opts > 0 then [Results_mm (printresults results nerrors)] else []) @
      (if nerrors = 0 then [Perf_index (p1 * 100) (p2 * 100) perfindex] else [Terminated nerrors]) @
      (if autograder opts then [Correct (numcorrect sts), Perfidx perfindex] else []))"

record 'l machine =
  lib_malloc :: "nat \<Rightarrow> 'l \<Rightarrow> nat \<times> 'l"
  lib_realloc :: "nat \<Rightarrow> nat \<Rightarrow> 'l \<Rightarrow> nat \<times> 'l"
  lib_free :: "nat \<Rightarrow> 'l \<Rightarrow> 'l"
  lib_state :: 'l
  trace_files :: "string \<Rightarrow> string option"
  unset_size :: int
  given_libc :: "nat \<Rightarrow> nat list \<times> nat \<times> real"
  given_mm :: "nat \<Rightarrow> nat list \<times> nat list \<times> nat \<times> real"
  memory_start :: nat
  memory :: heap

text \<open>
  The evaluation of the library's allocator. The array of its results is cleared and its names are never set, so its
  table has none. An error of this allocator ends the program, so none is counted when the table is printed.
\<close>

definition libc_part :: "'l machine \<Rightarrow> options \<Rightarrow> string list \<Rightarrow> unit run" where
  "libc_part m opts names =
     (if run_libc opts then
        and_then (says (if verbose opts > 1 then [Testing_libc] else []) ()) (\<lambda>_.
        and_then (each_file (libc_file (lib_malloc m) (lib_realloc m) (lib_free m) (unset_size m) (trace_files m) opts (given_libc m))
            0 names (lib_state m)) (\<lambda>(sts, l).
          says (if verbose opts > 0 then [Results_libc (printresults (map (Pair []) sts) 0)] else []) ()))
      else says [] ())"

definition mm_part :: "'l machine \<Rightarrow> options \<Rightarrow> string list \<Rightarrow> unit run" where
  "mm_part m opts names =
     and_then (says (if verbose opts > 1 then [Testing_mm] else []) ()) (\<lambda>_. do {
       h \<leftarrow> mem_init (memory_start m) (memory m);
       and_then (each_file (mm_file (unset_size m) (trace_files m) opts (given_mm m)) 0 names
           \<lparr>the_heap = h, ranges = [], errors = [], blocks_arr = [], block_sizes = []\<rparr>) (\<lambda>(results, d).
         Some (final_report opts results (length (errors d)), Inl 0))
     })"

definition mdriver_main :: "'l machine \<Rightarrow> string list \<Rightarrow> string \<Rightarrow> (char \<times> string) list \<Rightarrow> unit run" where
  "mdriver_main m default_tracefiles dir cs = (case read_options cs (default_options dir) of
       Undefined \<Rightarrow> None
     | Exit code \<Rightarrow> Some ([Usage], Inl code)
     | Go opts \<Rightarrow> (let names = tracefiles default_tracefiles opts in
         and_then (says (if tracefile opts = None then [Using_default_tracefiles (tracedir opts)] else []) ()) (\<lambda>_.
         and_then (libc_part m opts names) (\<lambda>_. mm_part m opts names))))"

section \<open>Correctness\<close>

lemma says_then [simp]: "and_then (says out x) f = map_option (\<lambda>(more, y). (out @ more, y)) (f x)"
  by (simp add: says_def)

lemma each_file_ok:
  assumes "P s"
    and "\<And>j s. j < length fs \<Longrightarrow> P s \<Longrightarrow> \<exists>out x s'. body (i + j) (fs ! j) s = Some (out, Inr (x, s')) \<and> P s' \<and> R (fs ! j) x \<and> Q out"
    and Q: "Q []" "\<And>xs ys. Q xs \<Longrightarrow> Q ys \<Longrightarrow> Q (xs @ ys)"
  shows "\<exists>out xs s'. each_file body i fs s = Some (out, Inr (xs, s')) \<and> P s' \<and> list_all2 R fs xs \<and> Q out"
  using assms(1,2)
proof (induction fs arbitrary: i s)
  case Nil
  then show ?case using Q(1) by (simp add: says_def)
next
  case (Cons f fs)
  obtain out x s' where 1: "body i f s = Some (out, Inr (x, s'))" "P s'" "R f x" "Q out"
    using Cons.prems(2) [of 0 s] Cons.prems(1) by auto
  obtain more xs t where 2: "each_file body (i + 1) fs s' = Some (more, Inr (xs, t))" "P t" "list_all2 R fs xs" "Q more"
    using Cons.IH [of s' "i + 1"] 1(2) Cons.prems(2) [of "Suc _"] by fastforce
  then show ?case using 1 Q by (simp add: says_def)
qed

text \<open>
  A trace file with its requests: what the file contains, what \<^verbatim>\<open>accepted\<close> asks of the requests, and arrays of the
  lengths that \<^verbatim>\<open>read_trace\<close> asks for.
\<close>

definition sensible :: "'l machine \<Rightarrow> options \<Rightarrow> nat \<Rightarrow> string \<times> nat \<times> nat \<times> traceop list \<Rightarrow> bool" where
  "sensible m opts i = (\<lambda>(name, heapsize, weight, ops). (let ids = Suc (largest ops 0) in
     length (tracedir opts) + length name < MAXLINE \<and>
     trace_files m (tracedir opts @ name) = Some (trace_text heapsize ids weight ops) \<and>
     (\<forall>opn \<in> set ops. printable (unset_size m) opn) \<and> accepted ids ops \<and>
     heapsize < 2 ^ 31 \<and> ids < 2 ^ 31 \<and> weight < 2 ^ 31 \<and> length ops < 2 ^ 31 \<and>
     length (fst (given_libc m i)) = ids \<and> length (fst (given_mm m i)) = ids \<and> length (fst (snd (given_mm m i))) = ids \<and>
     0 < snd (snd (snd (given_mm m i)))))"

definition no_errors :: "printed list \<Rightarrow> bool" where
  "no_errors out \<longleftrightarrow> (\<forall>p \<in> set out. case p of Error_line i line e \<Rightarrow> False | _ \<Rightarrow> True)"

lemma no_errors_simps [simp]:
  "no_errors []" "no_errors (xs @ ys) \<longleftrightarrow> no_errors xs \<and> no_errors ys"
  "no_errors (x # xs) \<longleftrightarrow> (case x of Error_line i line e \<Rightarrow> False | _ \<Rightarrow> True) \<and> no_errors xs"
  by (auto simp: no_errors_def)

lemma sensible_read:
  assumes "sensible m opts i (name, heapsize, weight, ops)"
  shows "read_trace (unset_size m) (trace_text heapsize (Suc (largest ops 0)) weight ops)
    = Some \<lparr>num_ids = int (Suc (largest ops 0)), num_ops = int (length ops), trace_ops = ops\<rparr>"
  using assms by (intro read_trace_text) (auto simp: sensible_def Let_def)

lemma with_trace_file_found:
  assumes "sensible m opts i (name, heapsize, weight, ops)"
  shows "with_trace_file (trace_files m) opts name continue
    = map_option (\<lambda>(more, y). ((if verbose opts > 1 then [Reading name] else []) @ more, y))
        (continue (trace_text heapsize (Suc (largest ops 0)) weight ops))"
  using assms by (simp add: with_trace_file_def sensible_def Let_def)

lemma wf_ops_index: "wf_ops ids A ops \<Longrightarrow> opn \<in> set ops \<Longrightarrow> 0 \<le> op_index opn \<and> nat (op_index opn) < ids"
  by (induction ids A ops rule: wf_ops.induct) (auto simp: Let_def split: op_type.splits option.splits)

lemma libc_op_ok:
  assumes m: "fst (malloc (size_t (op_size opn)) l) \<noteq> 0" and r: "\<And>p. fst (realloc p (size_t (op_size opn)) l) \<noteq> 0"
    and i: "0 \<le> op_index opn" "nat (op_index opn) < length bs"
  shows "\<exists>l' bs'. libc_op malloc realloc free opn (l, bs) = Some (l', bs') \<and> length bs' = length bs"
proof (cases "op_type opn")
  case ALLOC
  then show ?thesis using m i by (simp add: libc_op_def set_at_def case_prod_beta Let_def)
next
  case REALLOC
  then show ?thesis using r i by (simp add: libc_op_def get_at_def set_at_def case_prod_beta Let_def)
qed (use i in \<open>simp add: libc_op_def get_at_def\<close>)

lemma libc_loop_ok:
  assumes "\<And>n l. fst (malloc n l) \<noteq> 0" "\<And>p n l. fst (realloc p n l) \<noteq> 0"
  shows "\<forall>opn \<in> set ops. 0 \<le> op_index opn \<and> nat (op_index opn) < length bs \<Longrightarrow>
    \<exists>l' bs'. foldM (libc_op malloc realloc free) ops (l, bs) = Some (l', bs') \<and> length bs' = length bs"
proof (induction ops arbitrary: l bs)
  case (Cons opn ops)
  then have "0 \<le> op_index opn" "nat (op_index opn) < length bs" by simp_all
  then obtain l1 bs1 where 1: "libc_op malloc realloc free opn (l, bs) = Some (l1, bs1)" "length bs1 = length bs"
    using libc_op_ok [where malloc = malloc and realloc = realloc and free = free and opn = opn and l = l and bs = bs, OF assms(1,2)] by blast
  then show ?case using Cons.IH [of bs1 l1] Cons.prems by simp
qed simp

lemma libc_runs_ok:
  assumes "\<And>n l. fst (malloc n l) \<noteq> 0" "\<And>p n l. fst (realloc p n l) \<noteq> 0"
    and "\<forall>opn \<in> set ops. 0 \<le> op_index opn \<and> nat (op_index opn) < ids"
  shows "length bs = ids \<Longrightarrow>
    \<exists>l' bs'. foldM (\<lambda>_. eval_libc_speed malloc realloc free ops) [0..<k] (l, bs) = Some (l', bs') \<and> length bs' = ids"
proof (induction k)
  case (Suc k)
  then obtain l' bs' where "foldM (\<lambda>_. eval_libc_speed malloc realloc free ops) [0..<k] (l, bs) = Some (l', bs')" "length bs' = ids"
    by blast
  moreover have "\<exists>l'' bs''. foldM (libc_op malloc realloc free) ops (l', bs') = Some (l'', bs'') \<and> length bs'' = ids"
    using libc_loop_ok [OF assms(1,2), where ops = ops and bs = bs' and free = free and l = l'] assms(3) calculation(2) by simp
  ultimately obtain l'' bs'' where "foldM (\<lambda>_. eval_libc_speed malloc realloc free ops) [0..<k] (l, bs) = Some (l', bs')"
    "eval_libc_speed malloc realloc free ops (l', bs') = Some (l'', bs'')" "length bs'' = ids" by (auto simp: eval_libc_speed_def)
  then show ?case by (simp add: foldM_append)
qed simp

lemma libc_file_ok:
  assumes "sensible m opts i (name, heapsize, weight, ops)"
    and lib: "\<And>n l. fst (lib_malloc m n l) \<noteq> 0" "\<And>p n l. fst (lib_realloc m p n l) \<noteq> 0"
  shows "\<exists>out st l'. libc_file (lib_malloc m) (lib_realloc m) (lib_free m) (unset_size m) (trace_files m) opts (given_libc m) i name l
      = Some (out, Inr (st, l')) \<and> no_errors out"
proof -
  let ?ids = "Suc (largest ops 0)"
  obtain blocks runs secs where g: "given_libc m i = (blocks, runs, secs)" by (cases "given_libc m i") auto
  have s: "length blocks = ?ids" "wf_ops ?ids Map.empty ops" "length (tracedir opts) + length name < MAXLINE"
    "trace_files m (tracedir opts @ name) = Some (trace_text heapsize ?ids weight ops)"
    using assms(1) g by (auto simp: sensible_def accepted_def Let_def)
  have ix: "\<forall>opn \<in> set ops. 0 \<le> op_index opn \<and> nat (op_index opn) < ?ids" using wf_ops_index [OF s(2)] by blast
  have "open_trace (unset_size m) (trace_files m) opts name = Some \<lparr>num_ids = int ?ids, num_ops = int (length ops), trace_ops = ops\<rparr>"
    using s(3,4) sensible_read [OF assms(1)] by (simp add: open_trace_def)
  moreover obtain l1 bs1 where 1: "foldM (libc_op (lib_malloc m) (lib_realloc m) (lib_free m)) ops (l, blocks) = Some (l1, bs1)"
    "length bs1 = ?ids" using libc_loop_ok [where malloc = "lib_malloc m" and realloc = "lib_realloc m" and free = "lib_free m" and ops = ops and bs = blocks and l = l, OF lib]
      ix s(1) by auto
  moreover obtain l2 bs2 where "foldM (\<lambda>_. eval_libc_speed (lib_malloc m) (lib_realloc m) (lib_free m) ops) [0..<runs] (l1, bs1) = Some (l2, bs2)"
    using libc_runs_ok [where malloc = "lib_malloc m" and realloc = "lib_realloc m" and free = "lib_free m" and bs = bs1 and l = l1 and k = runs, OF lib ix 1(2)]
    by blast
  ultimately have "\<exists>st l'. libc_trace (lib_malloc m) (lib_realloc m) (lib_free m) (unset_size m) (trace_files m) opts (name, blocks, runs, secs) l
      = Some (st, l')"
    by (simp add: libc_trace_def eval_libc_valid_def)
  then show ?thesis using g by (auto simp: libc_file_def with_trace_file_found [OF assms(1)] says_def)
qed

lemma mm_file_ok:
  assumes s: "sensible m opts i (name, heapsize, weight, ops)" and d: "\<exists>ids. ready ids d" "errors d = []"
  shows "\<exists>out st d'. mm_file (unset_size m) (trace_files m) opts (given_mm m) i name d = Some (out, Inr ((name, st), d'))
    \<and> (\<exists>ids. ready ids d') \<and> errors d' = [] \<and> good_stats st \<and> no_errors out"
proof -
  let ?ids = "Suc (largest ops 0)"
  let ?t = "\<lparr>num_ids = int ?ids, num_ops = int (length ops), trace_ops = ops\<rparr>"
  obtain blocks sizes runs secs where g: "given_mm m i = (blocks, sizes, runs, secs)" by (cases "given_mm m i") auto
  let ?m = "\<lparr>mt_trace = ?t, mt_blocks = blocks, mt_sizes = sizes, mt_runs = runs, mt_secs = secs\<rparr>"
  have l: "accepted ?ids (trace_ops (mt_trace ?m))" "length (mt_blocks ?m) = ?ids" "length (mt_sizes ?m) = ?ids" "0 < secs"
    using s g by (auto simp: sensible_def Let_def)
  obtain ids where "ready ids d" using d(1) by blast
  then obtain st d' where "run_trace ?m d = Some (st, d')" "good_stats st" "errors d' = []" "ready ?ids d'"
    using run_trace_ok [OF l(1-3)] l(4) d(2) by (fastforce simp: good_stats_def)
  then show ?thesis using g d(2)
    by (auto simp: mm_file_def with_trace_file_found [OF s] sensible_read [OF s] says_def no_errors_def)
qed

lemma libc_part_ok:
  assumes files: "\<And>i. i < length fs \<Longrightarrow> sensible m opts i (fs ! i)"
    and lib: "run_libc opts \<Longrightarrow> (\<forall>n l. fst (lib_malloc m n l) \<noteq> 0) \<and> (\<forall>p n l. fst (lib_realloc m p n l) \<noteq> 0)"
  shows "\<exists>out. libc_part m opts (map fst fs) = Some (out, Inr ()) \<and> no_errors out"
proof (cases "run_libc opts")
  case True
  let ?body = "libc_file (lib_malloc m) (lib_realloc m) (lib_free m) (unset_size m) (trace_files m) opts (given_libc m)"
  have "\<exists>out st l'. ?body (0 + j) (map fst fs ! j) l = Some (out, Inr (st, l')) \<and> True \<and> True \<and> no_errors out"
    if "j < length (map fst fs)" for j l
    using libc_file_ok [of m opts j "fst (fs ! j)" "fst (snd (fs ! j))" "fst (snd (snd (fs ! j)))" "snd (snd (snd (fs ! j)))" l]
      files [of j] lib [OF True] that by simp
  then obtain out sts l where "each_file ?body 0 (map fst fs) (lib_state m) = Some (out, Inr (sts, l))" "no_errors out"
    using each_file_ok [where P = "\<lambda>_. True" and R = "\<lambda>_ _. True" and Q = no_errors and body = ?body and i = 0 and fs = "map fst fs"]
    by (metis no_errors_simps(1,2))
  then show ?thesis using True by (auto simp: libc_part_def says_def)
qed (simp add: libc_part_def says_def)

lemma result_rows_length [simp]: "length (result_rows k sts) = length sts"
  by (induction k sts rule: result_rows.induct) auto

lemma result_rows_nth:
  "j < length sts \<Longrightarrow> st_valid (snd (sts ! j)) \<Longrightarrow> \<exists>u n s r. result_rows k sts ! j = Consistent (k + j) (fst (sts ! j)) u n s r"
proof (induction k sts arbitrary: j rule: result_rows.induct)
  case (2 k name st sts)
  then show ?case by (cases j) auto
qed simp

lemma mm_files_ok:
  assumes files: "\<And>i. i < length fs \<Longrightarrow> sensible m opts i (fs ! i)" and d: "\<exists>ids. ready ids d" "errors d = []"
  shows "\<exists>out results d'. each_file (mm_file (unset_size m) (trace_files m) opts (given_mm m)) 0 (map fst fs) d = Some (out, Inr (results, d'))
    \<and> errors d' = [] \<and> list_all2 (\<lambda>name (n, st). n = name \<and> good_stats st) (map fst fs) results \<and> no_errors out"
proof -
  let ?body = "mm_file (unset_size m) (trace_files m) opts (given_mm m)"
  let ?P = "\<lambda>d. (\<exists>ids. ready ids d) \<and> errors d = []" and ?R = "\<lambda>name (n, st). n = name \<and> good_stats st"
  have "\<exists>out x d'. ?body (0 + j) (map fst fs ! j) d = Some (out, Inr (x, d')) \<and> ?P d' \<and> ?R (map fst fs ! j) x \<and> no_errors out"
    if "j < length (map fst fs)" "?P d" for j d
    using mm_file_ok [of m opts j "fst (fs ! j)" "fst (snd (fs ! j))" "fst (snd (snd (fs ! j)))" "snd (snd (snd (fs ! j)))" d]
      files [of j] that by fastforce
  from each_file_ok [where P = ?P and R = ?R and Q = no_errors and body = ?body and i = 0 and fs = "map fst fs" and s = d, OF _ this]
  show ?thesis using d by auto
qed

lemma good_results:
  assumes "list_all2 (\<lambda>name (n, st). n = name \<and> good_stats st) names results"
  shows "\<forall>st \<in> set (map snd results). good_stats st" "map fst results = names" "numcorrect (map snd results) = length names"
proof -
  show g: "\<forall>st \<in> set (map snd results). good_stats st" and "map fst results = names"
    using assms by (induction names results rule: list_all2_induct) auto
  then show "numcorrect (map snd results) = length names"
    by (auto simp: numcorrect_def good_stats_def filter_id_conv)
qed

text \<open>What a report without errors says about the traces \<open>names\<close>.\<close>

definition full_report :: "options \<Rightarrow> string list \<Rightarrow> printed list \<Rightarrow> bool" where
  "full_report opts names out \<longleftrightarrow> no_errors out \<and>
     (\<exists>u t. 0 \<le> u + t \<and> u + t \<le> 100 \<and> Perf_index u t (u + t) \<in> set out \<and>
        (autograder opts \<longrightarrow> Correct (length names) \<in> set out \<and> Perfidx (u + t) \<in> set out)) \<and>
     (verbose opts > 0 \<longrightarrow> (\<exists>rows. Results_mm rows \<in> set out \<and>
        (\<forall>i < length names. \<exists>util n secs kops. rows ! i = Consistent i (names ! i) util n secs kops)))"

lemma full_report_append: "no_errors xs \<Longrightarrow> full_report opts names out \<Longrightarrow> full_report opts names (xs @ out)"
  by (auto simp: full_report_def)

lemma final_report_full:
  assumes r: "list_all2 (\<lambda>name (n, st). n = name \<and> good_stats st) names results" and ne: "names \<noteq> []"
  shows "full_report opts names (final_report opts results 0)"
proof -
  note g = good_results [OF r]
  have sts: "map snd results \<noteq> []" using g(2) ne by auto
  obtain p1 p2 where p: "index_parts (map snd results) = (p1, p2)" by fastforce
  have sum: "perf_index (map snd results) 0 = p1 * 100 + p2 * 100" using p by (simp add: perf_index_parts algebra_simps)
  have row: "\<exists>util n secs kops. printresults results 0 ! i = Consistent i (names ! i) util n secs kops" if "i < length names" for i
  proof -
    have "length results = length names" "names ! i = fst (results ! i)" using g(2) that by auto
    moreover have "st_valid (snd (results ! i))" using g(1) that calculation(1) by (simp add: good_stats_def)
    ultimately show ?thesis using result_rows_nth [of i results 0] that by (simp add: printresults_def Let_def nth_append)
  qed
  show ?thesis
    using perf_index_bounds [OF g(1) sts] row g(3)
    unfolding full_report_def final_report_def Let_def p sum prod.case
    by (intro conjI) (auto simp: no_errors_def intro!: exI [of _ "p1 * 100"] exI [of _ "p2 * 100"])
qed

section \<open>Theorems\<close>


definition example_machine :: "unit machine" where
  "example_machine = \<lparr>lib_malloc = (\<lambda>n l. (8, l)), lib_realloc = (\<lambda>p n l. (8, l)), lib_free = (\<lambda>p l. l), lib_state = (),
     trace_files = [''traces/short.rep'' \<mapsto> trace_text 20000 2 1 example_trace], unset_size = 0,
     given_libc = (\<lambda>i. ([0, 0], 1, 1)), given_mm = (\<lambda>i. ([0, 0], [0, 0], 10, 1)), memory_start = 4096, memory = blank_store\<rparr>"


end
