(* ===== verification/Database.thy ===== *)
theory Database
  imports Prelude "HOL-Library.List_Lexorder" "HOL-Library.Char_ord"
begin

text \<open>
  The database of the server, \<^verbatim>\<open>src/database/db.c\<close>: a binary search tree under a head node that is never
  removed, the operations on it with their locking, printing, and the command interpreter.

  A node carries, besides its two strings, the sizes of the two buffers that hold them. Every
  operation also returns the sequence of what it does with locks and with fields of nodes; nodes are
  named there by their name at that time, which is unique in the tree.
\<close>

section \<open>Strings\<close>

abbreviation MAXLEN :: nat where "MAXLEN \<equiv> 256"

text \<open>\<^verbatim>\<open>snprintf(buf, len, "%s", s)\<close>.\<close>

definition snprintf :: "nat \<Rightarrow> string \<Rightarrow> string" where
  "snprintf len s = take (len - 1) s"

section \<open>Nodes and locks\<close>

datatype node = Null | Node (nname: string) (name_buf: nat) (nvalue: string) (value_buf: nat) (lchild: node) (rchild: node)

datatype locktype = l_read | l_write

datatype event = Lock locktype string | Unlock string | Modify string | Destroy string

definition node_constructor :: "bool \<Rightarrow> string \<Rightarrow> string \<Rightarrow> node \<Rightarrow> node \<Rightarrow> node option" where
  "node_constructor mem_ok arg_name arg_value arg_left arg_right =
     (if length arg_name > MAXLEN \<or> length arg_value > MAXLEN then None
      else if \<not> mem_ok then None
      else Some (Node (snprintf MAXLEN arg_name) (length arg_name + 1) (snprintf MAXLEN arg_value) (length arg_value + 1)
                   arg_left arg_right))"

text \<open>
  \<^verbatim>\<open>search\<close> below a node: the target (\<^const>\<open>Null\<close> if there is none), the parent, and the events. \<open>want\<close>
  says that the caller asks for the parent.
\<close>

fun search :: "string \<Rightarrow> node \<Rightarrow> bool \<Rightarrow> locktype \<Rightarrow> node \<times> node \<times> event list" where
  "search name Null want lt = (Null, Null, [])"
| "search name (Node pn pb pv vb l r) want lt =
     (let parent = Node pn pb pv vb l r; nxt = (if strcmp name pn < 0 then l else r);
          leave = (if want then [] else [Unlock pn]) in
      case nxt of
        Null \<Rightarrow> (Null, parent, leave)
      | Node nn _ _ _ _ _ \<Rightarrow>
          if strcmp name nn = 0 then (nxt, parent, Lock lt nn # leave)
          else (let (res, par, ev) = search name (if strcmp name pn < 0 then l else r) want lt
                in (res, par, Lock lt nn # Unlock pn # ev)))"

text \<open>The tree with the child below the parent that \<^verbatim>\<open>search\<close> finds replaced.\<close>

fun replace_child :: "string \<Rightarrow> (node \<Rightarrow> node) \<Rightarrow> node \<Rightarrow> node" where
  "replace_child name f Null = Null"
| "replace_child name f (Node pn pb pv vb l r) =
     (if strcmp name pn < 0 then
        (if l = Null \<or> strcmp name (nname l) = 0 then Node pn pb pv vb (f l) r else Node pn pb pv vb (replace_child name f l) r)
      else
        (if r = Null \<or> strcmp name (nname r) = 0 then Node pn pb pv vb l (f r) else Node pn pb pv vb l (replace_child name f r)))"

section \<open>Operations\<close>

definition db_query :: "string \<Rightarrow> nat \<Rightarrow> node \<Rightarrow> string \<times> event list" where
  "db_query name len head = (let (target, _, ev) = search name head False l_read in
     (if target = Null then (snprintf len ''not found'', Lock l_read (nname head) # ev)
      else (snprintf len (nvalue target), Lock l_read (nname head) # ev @ [Unlock (nname target)])))"

text \<open>\<^verbatim>\<open>db_add\<close>: \<^const>\<open>None\<close> is the null pointer of a failed \<^verbatim>\<open>node_constructor\<close> being used.\<close>

definition db_add :: "bool \<Rightarrow> string \<Rightarrow> string \<Rightarrow> node \<Rightarrow> (bool \<times> node \<times> event list) option" where
  "db_add mem_ok name value head = (let (target, parent, ev) = search name head True l_write; ev = Lock l_write (nname head) # ev in
     if target \<noteq> Null then Some (False, head, ev @ [Unlock (nname target), Unlock (nname parent)])
     else do {
       new \<leftarrow> node_constructor mem_ok name value Null Null;
       Some (True, replace_child name (\<lambda>_. new) head, ev @ [Modify (nname parent), Unlock (nname parent)])
     })"

text \<open>
  The loop of \<^verbatim>\<open>db_remove\<close> down the left children, from the node \<^verbatim>\<open>next\<close> on: the last node, the owner of
  the pointer \<^verbatim>\<open>pnext\<close> to it, and the events.
\<close>

fun leftmost :: "string \<Rightarrow> node \<Rightarrow> node \<times> string \<times> event list" where
  "leftmost owner Null = (Null, owner, [])"
| "leftmost owner (Node nn nb nv vb l r) =
     (if l = Null then (Node nn nb nv vb l r, owner, [])
      else (let (nxt, ow, ev) = leftmost nn l in (nxt, ow, Lock l_write (nname l) # Unlock (nname l) # ev)))"

fun drop_leftmost :: "node \<Rightarrow> node" where
  "drop_leftmost Null = Null"
| "drop_leftmost (Node nn nb nv vb l r) = (if l = Null then r else Node nn nb nv vb (drop_leftmost l) r)"

text \<open>
  \<^verbatim>\<open>db_remove\<close>: copying the strings of \<^verbatim>\<open>next\<close> into a buffer of the removed node that is too small has no
  result.
\<close>

definition db_remove :: "string \<Rightarrow> node \<Rightarrow> (bool \<times> node \<times> event list) option" where
  "db_remove name head = (let (dnode, parent, ev) = search name head True l_write; ev = Lock l_write (nname head) # ev in
     case dnode of
       Null \<Rightarrow> Some (False, head, ev @ [Unlock (nname parent)])
     | Node dn nb dv vb l r \<Rightarrow>
         if r = Null then
           Some (True, replace_child name (\<lambda>_. l) head, ev @ [Modify (nname parent), Unlock dn, Destroy dn, Unlock (nname parent)])
         else if l = Null then
           Some (True, replace_child name (\<lambda>_. r) head, ev @ [Modify (nname parent), Unlock dn, Destroy dn, Unlock (nname parent)])
         else (let (nxt, owner, lev) = leftmost dn r;
                   nn = snprintf MAXLEN (nname nxt); nv = snprintf MAXLEN (nvalue nxt);
                   ev = ev @ [Lock l_write (nname r)] @ lev @ [Unlock (nname r), Modify dn, Modify owner, Destroy (nname nxt),
                          Unlock dn, Unlock (nname parent)] in
               if length nn + 1 > nb \<or> length nv + 1 > vb then None
               else Some (True, replace_child name (\<lambda>_. Node nn nb nv vb l (drop_leftmost r)) head, ev)))"

section \<open>Printing and cleaning up\<close>

definition print_spaces :: "nat \<Rightarrow> string" where
  "print_spaces lvl = replicate lvl CHR '' ''"

fun db_print_recurs :: "bool \<Rightarrow> node \<Rightarrow> nat \<Rightarrow> string" where
  "db_print_recurs is_head Null lvl = print_spaces lvl @ ''(null)'' @ [CHR 0x0A]"
| "db_print_recurs is_head (Node n nb v vb l r) lvl =
     print_spaces lvl @ (if is_head then ''(root)'' else n @ '' '' @ v) @ [CHR 0x0A]
       @ db_print_recurs False l (lvl + 1) @ db_print_recurs False r (lvl + 1)"

text \<open>
  \<^verbatim>\<open>db_print\<close>: the result, the text and where it goes (\<^const>\<open>None\<close> is the standard output). \<open>can_open\<close> says
  whether the file can be opened for writing.
\<close>

definition db_print :: "(string \<Rightarrow> bool) \<Rightarrow> string option \<Rightarrow> node \<Rightarrow> int \<times> (string option \<times> string) option" where
  "db_print can_open fname head = (case fname of
       None \<Rightarrow> (0, Some (None, db_print_recurs True head 0))
     | Some f \<Rightarrow> (let f = dropWhile isspace f in
         if f = [] then (0, Some (None, db_print_recurs True head 0))
         else if \<not> can_open f then (- 1, None)
         else (0, Some (Some f, db_print_recurs True head 0))))"

text \<open>The nodes that \<^verbatim>\<open>db_cleanup\<close> destroys, in this order.\<close>

fun db_cleanup_recurs :: "node \<Rightarrow> string list" where
  "db_cleanup_recurs Null = []"
| "db_cleanup_recurs (Node n nb v vb l r) = db_cleanup_recurs l @ db_cleanup_recurs r @ [n]"

definition db_cleanup :: "node \<Rightarrow> string list" where
  "db_cleanup head = db_cleanup_recurs (lchild head) @ db_cleanup_recurs (rchild head)"

section \<open>Commands\<close>

text \<open>\<^verbatim>\<open>sscanf\<close> with \<^verbatim>\<open>%255s\<close>: the word and the rest.\<close>

definition scan_word :: "string \<Rightarrow> string \<times> string" where
  "scan_word s = (let s = dropWhile isspace s; w = take 255 (takeWhile (\<lambda>c. \<not> isspace c) s) in (w, drop (length w) s))"

text \<open>\<^verbatim>\<open>fgets\<close> into a buffer of 256 bytes, until the end of the file.\<close>

definition fgets :: "string \<Rightarrow> string" where
  "fgets s = (let l = takeWhile (\<lambda>c. c \<noteq> CHR 0x0A) s in
     if length l < 255 then take (length l + 1) s else take 255 s)"

function fgets_lines :: "string \<Rightarrow> string list" where
  "fgets_lines s = (if s = [] then [] else fgets s # fgets_lines (drop (length (fgets s)) s))"
  by auto
termination
  by (relation "measure length") (auto simp: fgets_def Let_def)

declare fgets_lines.simps [simp del]

text \<open>
  \<open>files\<close> gives the contents of the files that can be opened. A command file may name command files;
  \<open>depth\<close> bounds how deep. The result is the response and the tree; \<^const>\<open>None\<close> is a crash in an
  operation or a file nested deeper than \<open>depth\<close>.
\<close>

definition ill_formed :: "nat \<Rightarrow> string" where
  "ill_formed len = snprintf len ''ill-formed command''"

fun interpret_command :: "nat \<Rightarrow> bool \<Rightarrow> (string \<Rightarrow> string option) \<Rightarrow> string \<Rightarrow> nat \<Rightarrow> node \<Rightarrow> (string \<times> node) option" where
  "interpret_command depth mem_ok files command len head =
     (if length command \<le> 1 then Some (ill_formed len, head)
      else let (name, rest) = scan_word (tl command) in
        if hd command = CHR ''q'' then
          (if name = [] then Some (ill_formed len, head)
           else let (response, _) = db_query name len head in
             Some (if response = [] then snprintf len ''not found'' else response, head))
        else if hd command = CHR ''a'' then
          (let (value, _) = scan_word rest in
           if name = [] \<or> value = [] then Some (ill_formed len, head)
           else (case db_add mem_ok name value head of
               None \<Rightarrow> None
             | Some (ok, head, _) \<Rightarrow> Some (snprintf len (if ok then ''added'' else ''already in database''), head)))
        else if hd command = CHR ''d'' then
          (if name = [] then Some (ill_formed len, head)
           else (case db_remove name head of
               None \<Rightarrow> None
             | Some (ok, head, _) \<Rightarrow> Some (snprintf len (if ok then ''removed'' else ''not in database''), head)))
        else if hd command = CHR ''f'' then
          (if name = [] then Some (ill_formed len, head)
           else (case files name of
               None \<Rightarrow> Some (snprintf len ''bad file name'', head)
             | Some contents \<Rightarrow> (case depth of
                 0 \<Rightarrow> None
               | Suc depth \<Rightarrow> map_option (Pair (snprintf len ''file processed''))
                   (foldM (\<lambda>ibuf head. map_option snd (interpret_command depth mem_ok files ibuf len head)) (fgets_lines contents) head))))
        else Some (ill_formed len, head))"

declare interpret_command.simps [simp del]

end
