(* ===== verification/DatabaseCorrect.thy ===== *)
theory DatabaseCorrect
  imports Database
begin

text \<open>
  The database is a finite map from names to values: the search-tree invariant, the operations as
  operations on the map, the discipline of the locks, and commands as map operations.
\<close>

section \<open>Search trees\<close>

lemma strcmp_less: "strcmp a b < 0 \<longleftrightarrow> a < b"
  by (induction a b rule: strcmp.induct) (auto simp: less_char_def)

lemma strcmp_eq: "strcmp a b = 0 \<longleftrightarrow> a = b"
  by (induction a b rule: strcmp.induct) auto

lemmas strcmp_laws [simp] = strcmp_less strcmp_eq

fun names :: "node \<Rightarrow> string set" where
  "names Null = {}"
| "names (Node n nb v vb l r) = insert n (names l \<union> names r)"

fun bst :: "node \<Rightarrow> bool" where
  "bst Null \<longleftrightarrow> True"
| "bst (Node n nb v vb l r) \<longleftrightarrow> bst l \<and> bst r \<and> (\<forall>x \<in> names l. x < n) \<and> (\<forall>x \<in> names r. n < x)"

fun tree_map :: "node \<Rightarrow> string \<rightharpoonup> string" where
  "tree_map Null = Map.empty"
| "tree_map (Node n nb v vb l r) = (\<lambda>k. if k = n then Some v else if k < n then tree_map l k else tree_map r k)"

lemma tree_map_names: "bst t \<Longrightarrow> tree_map t k = None \<longleftrightarrow> k \<notin> names t"
  by (induction t) (auto split: if_splits)

lemma names_root [simp]: "t \<noteq> Null \<Longrightarrow> nname t \<in> names t"
  by (cases t) auto

text \<open>One step down the tree, and its reverse.\<close>

definition down :: "string \<Rightarrow> node \<Rightarrow> node" where
  "down name t = (if name < nname t then lchild t else rchild t)"

definition put :: "string \<Rightarrow> node \<Rightarrow> node \<Rightarrow> node" where
  "put name t c = (if name < nname t then Node (nname t) (name_buf t) (nvalue t) (value_buf t) c (rchild t)
     else Node (nname t) (name_buf t) (nvalue t) (value_buf t) (lchild t) c)"

lemma search_down:
  "t \<noteq> Null \<Longrightarrow> search name t want lt = (let c = down name t; leave = (if want then [] else [Unlock (nname t)]) in
     if c = Null then (Null, t, leave)
     else if name = nname c then (c, t, Lock lt (nname c) # leave)
     else (let (res, par, ev) = search name c want lt in (res, par, Lock lt (nname c) # Unlock (nname t) # ev)))"
proof -
  assume "t \<noteq> Null"
  then obtain n nb v vb l r where t: "t = Node n nb v vb l r" by (cases t) auto
  have d: "(if strcmp name n < 0 then l else r) = down name t" unfolding t by (simp add: down_def)
  show ?thesis unfolding t
    by (subst search.simps(2), unfold Let_def d, cases "down name t") (auto simp: t simp del: search.simps)
qed

lemma replace_down:
  "t \<noteq> Null \<Longrightarrow> replace_child name f t = put name t (let c = down name t in if c = Null \<or> name = nname c then f c else replace_child name f c)"
  by (cases t) (auto simp: down_def put_def Let_def)

lemma path_induct [consumes 1, case_names step]:
  assumes "t \<noteq> Null"
    and "\<And>t. t \<noteq> Null \<Longrightarrow> (down name t \<noteq> Null \<Longrightarrow> name \<noteq> nname (down name t) \<Longrightarrow> P (down name t)) \<Longrightarrow> P t"
  shows "P t"
  using assms(1)
proof (induction t)
  case (Node n nb v vb l r)
  show ?case by (rule assms(2)) (use Node in \<open>auto simp: down_def split: if_splits\<close>)
qed simp

lemma bst_down:
  assumes "bst t" "t \<noteq> Null" "name \<noteq> nname t"
  shows "bst (down name t)" "name \<in> names t \<longleftrightarrow> name \<in> names (down name t)" "tree_map t name = tree_map (down name t) name"
    "nname t \<notin> names (down name t)" "names (down name t) \<subseteq> names t"
  using assms by (cases t; auto simp: down_def)+

lemma bst_put:
  assumes t: "bst t" "t \<noteq> Null" "name \<noteq> nname t" and c: "bst c" "names c \<subseteq> insert name (names (down name t))"
    and k: "\<And>k. k \<noteq> name \<Longrightarrow> tree_map c k = tree_map (down name t) k"
  shows "bst (put name t c)" "names (put name t c) \<subseteq> insert name (names t)" "put name t c \<noteq> Null" "nname (put name t c) = nname t"
    "\<And>k. k \<noteq> name \<Longrightarrow> tree_map (put name t c) k = tree_map t k" "tree_map (put name t c) name = tree_map c name"
proof -
  obtain n nb v vb l r where n: "t = Node n nb v vb l r" using t(2) by (cases t) auto
  have lt: "name < n \<or> n < name" using t(3) n by auto
  show "bst (put name t c)" using t(1) c lt unfolding n by (auto simp: put_def down_def)
  show "names (put name t c) \<subseteq> insert name (names t)" using c(2) unfolding n by (auto simp: put_def down_def split: if_splits)
  show "put name t c \<noteq> Null" "nname (put name t c) = nname t" by (simp_all add: put_def)
  show "tree_map (put name t c) k = tree_map t k" if "k \<noteq> name" for k using k [OF that] unfolding n by (auto simp: put_def down_def)
  show "tree_map (put name t c) name = tree_map c name" using lt unfolding n by (auto simp: put_def)
qed

text \<open>What \<^verbatim>\<open>search\<close> returns.\<close>

lemma search_spec:
  assumes "t \<noteq> Null"
  shows "bst t \<Longrightarrow> name \<noteq> nname t \<Longrightarrow> search name t want lt = (res, par, ev) \<Longrightarrow>
    (res = Null \<longleftrightarrow> name \<notin> names t) \<and> (res \<noteq> Null \<longrightarrow> nname res = name \<and> tree_map t name = Some (nvalue res) \<and> bst res \<and> names res \<subseteq> names t)"
  using assms
proof (induction t arbitrary: par ev rule: path_induct [where name = name])
  case (step t)
  let ?c = "down name t"
  note b = bst_down [OF step(3,1,4)]
  show ?case
  proof (cases "?c = Null \<or> name = nname ?c")
    case True
    then show ?thesis
    proof (cases "?c = Null")
      case True
      then have "res = Null" using step(5) by (simp add: search_down [OF step(1)])
      then show ?thesis using b True by simp
    next
      case False
      then have n: "name = nname ?c" using True by blast
      then have "res = ?c" using step(5) False by (auto simp: search_down [OF step(1)] Let_def n [symmetric])
      moreover have "tree_map ?c name = Some (nvalue ?c)" using n False by (cases ?c) auto
      ultimately show ?thesis using b False n names_root [OF False] by auto
    qed
  next
    case False
    obtain res' par' ev' where s: "search name ?c want lt = (res', par', ev')" by (cases "search name ?c want lt")
    have "res = res'" using step(5) False s by (auto simp: search_down [OF step(1)] Let_def)
    then show ?thesis using step(2) [of par' ev'] False b s by auto
  qed
qed

text \<open>Replacing the subtree at which the search ends.\<close>

lemma replace_spec:
  assumes "t \<noteq> Null"
  shows "bst t \<Longrightarrow> name \<noteq> nname t \<Longrightarrow> res = fst (search name t want lt) \<Longrightarrow>
    bst (f res) \<Longrightarrow> names (f res) \<subseteq> insert name (names res) \<Longrightarrow> (\<And>k. k \<noteq> name \<Longrightarrow> tree_map (f res) k = tree_map res k) \<Longrightarrow>
    bst (replace_child name f t) \<and> names (replace_child name f t) \<subseteq> insert name (names t) \<and> replace_child name f t \<noteq> Null
    \<and> nname (replace_child name f t) = nname t
    \<and> (\<forall>k. k \<noteq> name \<longrightarrow> tree_map (replace_child name f t) k = tree_map t k) \<and> tree_map (replace_child name f t) name = tree_map (f res) name"
  using assms
proof (induction t rule: path_induct [where name = name])
  case (step t)
  let ?c = "down name t"
  note b = bst_down [OF step(3,1,4)]
  show ?case
  proof (cases "?c = Null \<or> name = nname ?c")
    case True
    then have "res = ?c" using step(5) by (auto simp: search_down [OF step(1)] Let_def)
    then show ?thesis
      using bst_put [OF step(3,1,4), of "f ?c"] step(6-8) True by (simp add: replace_down [OF step(1)])
  next
    case False
    then have "res = fst (search name ?c want lt)" using step(5) by (simp add: search_down [OF step(1)] Let_def split_beta)
    then have IH: "bst (replace_child name f ?c)" "names (replace_child name f ?c) \<subseteq> insert name (names ?c)"
      "\<forall>k. k \<noteq> name \<longrightarrow> tree_map (replace_child name f ?c) k = tree_map ?c k" "tree_map (replace_child name f ?c) name = tree_map (f res) name"
      using step(2) False b step(6-8) by blast+
    have "replace_child name f t = put name t (replace_child name f ?c)" using False by (simp add: replace_down [OF step(1)])
    then show ?thesis using bst_put [OF step(3,1,4) IH(1,2)] IH(3,4) by simp
  qed
qed

section \<open>The invariant\<close>

text \<open>Strings are short and fit their buffers.\<close>

fun fits :: "node \<Rightarrow> bool" where
  "fits Null \<longleftrightarrow> True"
| "fits (Node n nb v vb l r) \<longleftrightarrow> length n < nb \<and> length n < MAXLEN \<and> length v < vb \<and> length v < MAXLEN \<and> fits l \<and> fits r"

definition db_ok :: "node \<Rightarrow> bool" where
  "db_ok head \<longleftrightarrow> head \<noteq> Null \<and> nname head = [] \<and> lchild head = Null \<and> bst head \<and> fits head"

definition contents :: "node \<Rightarrow> string \<rightharpoonup> string" where
  "contents head = tree_map (rchild head)"

lemma db_ok_head:
  assumes "db_ok head"
  obtains nb v vb r where "head = Node [] nb v vb Null r" "bst r" "fits r" "[] \<notin> names r"
  using assms by (cases head) (auto simp: db_ok_def)

lemma contents_tree: "db_ok head \<Longrightarrow> k \<noteq> [] \<Longrightarrow> contents head k = tree_map head k"
  by (elim db_ok_head) (simp add: contents_def)

lemma contents_Nil: "db_ok head \<Longrightarrow> contents head [] = None"
  by (elim db_ok_head) (simp add: contents_def tree_map_names)

lemma fits_down: "fits t \<Longrightarrow> t \<noteq> Null \<Longrightarrow> fits (down name t)"
  by (cases t) (auto simp: down_def)

lemma fits_put: "fits t \<Longrightarrow> t \<noteq> Null \<Longrightarrow> fits c \<Longrightarrow> fits (put name t c)"
  by (cases t) (auto simp: put_def)

lemma replace_fits:
  assumes "fits (f res)" "t \<noteq> Null"
  shows "res = fst (search name t want lt) \<Longrightarrow> fits t \<Longrightarrow> fits (replace_child name f t)"
  using assms(2)
proof (induction t rule: path_induct [where name = name])
  case (step t)
  show ?case
  proof (cases "down name t = Null \<or> name = nname (down name t)")
    case True
    then have "res = down name t" using step(3) by (auto simp: search_down [OF step(1)] Let_def)
    moreover have "replace_child name f t = put name t (f (down name t))" using True by (auto simp: replace_down [OF step(1)] Let_def)
    ultimately show ?thesis using fits_put [OF step(4,1) assms(1)] by simp
  next
    case False
    then have "res = fst (search name (down name t) want lt)" using step(3) by (simp add: search_down [OF step(1)] Let_def split_beta)
    then have "fits (replace_child name f (down name t))" using step(2) fits_down [OF step(4,1)] False by blast
    moreover have "replace_child name f t = put name t (replace_child name f (down name t))" using False by (auto simp: replace_down [OF step(1)] Let_def)
    ultimately show ?thesis using fits_put [OF step(4,1)] by simp
  qed
qed

lemma lchild_put: "\<not> name < nname t \<Longrightarrow> lchild (put name t c) = lchild t"
  by (simp add: put_def)

text \<open>The head stays in place when the subtree at the end of a search is replaced.\<close>

lemma replace_ok:
  assumes ok: "db_ok head" and n: "name \<noteq> []" and res: "res = fst (search name head want lt)"
    and f: "bst (f res)" "names (f res) \<subseteq> insert name (names res)" "fits (f res)" "\<And>k. k \<noteq> name \<Longrightarrow> tree_map (f res) k = tree_map res k"
  shows "db_ok (replace_child name f head)" "contents (replace_child name f head) = (contents head)(name := tree_map (f res) name)"
proof -
  let ?h = "replace_child name f head"
  have hn: "head \<noteq> Null" "bst head" "name \<noteq> nname head" and h: "nname head = []" "lchild head = Null" "fits head"
    using ok n by (auto simp: db_ok_def)
  note R = replace_spec [where f = f, OF hn(1-3) res f(1,2,4)]
  have "lchild ?h = Null" unfolding replace_down [OF hn(1)] using h lchild_put [of name head] by simp
  then show ok': "db_ok ?h" using R h(1) replace_fits [of f res, OF f(3) hn(1) res h(3)] unfolding db_ok_def by simp
  show "contents ?h = (contents head)(name := tree_map (f res) name)"
  proof
    fix k
    show "contents ?h k = ((contents head)(name := tree_map (f res) name)) k"
      using contents_Nil [OF ok] contents_Nil [OF ok'] contents_tree [OF ok] contents_tree [OF ok'] R n by (cases "k = []") auto
  qed
qed

section \<open>Operations\<close>

lemma search_head:
  assumes ok: "db_ok head" and n: "name \<noteq> []" and s: "search name head want lt = (res, par, ev)"
  shows "res = Null \<longleftrightarrow> contents head name = None" "res \<noteq> Null \<Longrightarrow> nname res = name" "res \<noteq> Null \<Longrightarrow> contents head name = Some (nvalue res)"
    "bst res"
proof -
  have hn: "head \<noteq> Null" "bst head" "name \<noteq> nname head" using ok n by (auto simp: db_ok_def)
  note S = search_spec [OF hn s]
  have c: "contents head name = tree_map head name" by (rule contents_tree [OF ok n])
  show "res = Null \<longleftrightarrow> contents head name = None" using S tree_map_names [OF hn(2)] c by simp
  show "res \<noteq> Null \<Longrightarrow> nname res = name" "res \<noteq> Null \<Longrightarrow> contents head name = Some (nvalue res)" "bst res" using S c by auto
qed

lemma db_query_eq:
  assumes "db_ok head" "name \<noteq> []"
  shows "fst (db_query name len head) = snprintf len (case contents head name of None \<Rightarrow> ''not found'' | Some v \<Rightarrow> v)"
proof -
  obtain res par ev where s: "search name head False l_read = (res, par, ev)" by (cases "search name head False l_read")
  show ?thesis using search_head [OF assms s] s by (cases "res = Null") (auto simp: db_query_def)
qed

lemma db_add_eq:
  assumes ok: "db_ok head" and n: "name \<noteq> []" "length name < MAXLEN" "length value < MAXLEN"
  shows "\<exists>head' ev. db_add True name value head = Some (contents head name = None, head', ev) \<and> db_ok head'
    \<and> contents head' = (if contents head name = None then (contents head)(name \<mapsto> value) else contents head)"
proof -
  obtain res par ev where s: "search name head True l_write = (res, par, ev)" by (cases "search name head True l_write")
  note S = search_head [OF ok n(1) s]
  show ?thesis
  proof (cases "res = Null")
    case True
    let ?new = "Node name (length name + 1) value (length value + 1) Null Null"
    have new: "node_constructor True name value Null Null = Some ?new" using n by (simp add: node_constructor_def snprintf_def)
    have "db_ok (replace_child name (\<lambda>_. ?new) head)" "contents (replace_child name (\<lambda>_. ?new) head) = (contents head)(name := tree_map ?new name)"
      using replace_ok [OF ok n(1), of res True l_write "\<lambda>_. ?new"] s True n by simp_all
    then show ?thesis using True S new s by (auto simp: db_add_def)
  next
    case False
    then show ?thesis using S s ok by (auto simp: db_add_def)
  qed
qed

text \<open>The least node of a subtree, and the subtree without it.\<close>

lemma leftmost_spec:
  assumes "t \<noteq> Null" "bst t" "leftmost owner t = (nxt, ow, ev)"
  shows "nxt \<noteq> Null \<and> nname nxt \<in> names t \<and> (\<forall>x \<in> names t. x \<noteq> nname nxt \<longrightarrow> nname nxt < x)
    \<and> tree_map t (nname nxt) = Some (nvalue nxt) \<and> bst (drop_leftmost t) \<and> names (drop_leftmost t) = names t - {nname nxt}
    \<and> (\<forall>k. tree_map (drop_leftmost t) k = (if k = nname nxt then None else tree_map t k))
    \<and> (fits t \<longrightarrow> fits (drop_leftmost t) \<and> length (nname nxt) < MAXLEN \<and> length (nvalue nxt) < MAXLEN)"
  using assms
proof (induction owner t arbitrary: nxt ow ev rule: leftmost.induct)
  case (2 owner nn nb nv vb l r)
  show ?case
  proof (cases "l = Null")
    case True
    have "tree_map r nn = None" using tree_map_names [of r nn] 2(3) by auto
    moreover have "k < nn \<Longrightarrow> tree_map r k = None" for k using tree_map_names [of r k] 2(3) by auto
    ultimately show ?thesis using True 2(3,4) by auto
  next
    case False
    obtain ow' ev' where l: "leftmost nn l = (nxt, ow', ev')" using 2(4) False by (auto simp: Let_def split: prod.splits)
    note IH = 2(1) [OF False False _ l]
    have nx: "nname nxt \<in> names l" "nname nxt < nn" using IH 2(3) by auto
    have "\<forall>k. tree_map (Node nn nb nv vb (drop_leftmost l) r) k = (if k = nname nxt then None else tree_map (Node nn nb nv vb l r) k)"
      using IH 2(3) nx by auto
    moreover have "nname nxt < x" if "x \<in> names r" for x using that nx(2) 2(3) less_trans by auto
    moreover from this have "nname nxt \<notin> names r" by blast
    ultimately show ?thesis using IH 2(3) nx False by auto
  qed
qed simp

definition two_children :: "node \<Rightarrow> bool" where
  "two_children t \<longleftrightarrow> t \<noteq> Null \<and> lchild t \<noteq> Null \<and> rchild t \<noteq> Null"

text \<open>The copy into the removed node overruns one of its buffers.\<close>

definition overruns :: "node \<Rightarrow> bool" where
  "overruns t \<longleftrightarrow> two_children t \<and>
     (let nxt = fst (leftmost (nname t) (rchild t)) in length (nname nxt) \<ge> name_buf t \<or> length (nvalue nxt) \<ge> value_buf t)"

lemma remove_node_ok:
  assumes t: "bst (Node n nb v vb l r)" "fits (Node n nb v vb l r)"
  shows "r = Null \<Longrightarrow> bst l \<and> names l \<subseteq> names (Node n nb v vb l r) \<and> fits l \<and> tree_map l = (tree_map (Node n nb v vb l r))(n := None)"
    "l = Null \<Longrightarrow> bst r \<and> names r \<subseteq> names (Node n nb v vb l r) \<and> fits r \<and> tree_map r = (tree_map (Node n nb v vb l r))(n := None)"
    "r \<noteq> Null \<Longrightarrow> leftmost n r = (nxt, ow, ev) \<Longrightarrow> length (nname nxt) < nb \<Longrightarrow> length (nvalue nxt) < vb \<Longrightarrow>
      (let m = Node (nname nxt) nb (nvalue nxt) vb l (drop_leftmost r) in
       bst m \<and> names m \<subseteq> names (Node n nb v vb l r) \<and> fits m \<and> tree_map m = (tree_map (Node n nb v vb l r))(n := None))"
proof -
  have L: "k < n" if "tree_map l k = Some y" for k y using that tree_map_names [of l k] t(1) by auto
  have R: "n < k" if "tree_map r k = Some y" for k y using that tree_map_names [of r k] t(1) by auto
  show "bst l \<and> names l \<subseteq> names (Node n nb v vb l r) \<and> fits l \<and> tree_map l = (tree_map (Node n nb v vb l r))(n := None)" if "r = Null"
    using t that L by (auto simp: fun_eq_iff) (metis L not_less_iff_gr_or_eq option.exhaust)+
  show "bst r \<and> names r \<subseteq> names (Node n nb v vb l r) \<and> fits r \<and> tree_map r = (tree_map (Node n nb v vb l r))(n := None)" if "l = Null"
    using t that R by (auto simp: fun_eq_iff) (metis R not_less_iff_gr_or_eq option.exhaust)+
  assume r: "r \<noteq> Null" and lm: "leftmost n r = (nxt, ow, ev)" and b: "length (nname nxt) < nb" "length (nvalue nxt) < vb"
  have "bst r" using t(1) by simp
  note S = leftmost_spec [OF r this lm]
  let ?m = "Node (nname nxt) nb (nvalue nxt) vb l (drop_leftmost r)"
  have nx: "n < nname nxt" using S t(1) by auto
  have "bst ?m" using S t(1) nx by (auto intro: less_trans)
  moreover have "tree_map ?m k = ((tree_map (Node n nb v vb l r))(n := None)) k" for k
  proof -
    consider "k < n" | "k = n" | "n < k" "k < nname nxt" | "k = nname nxt" | "nname nxt < k" using nx by (metis less_linear)
    then show ?thesis
    proof cases
      case 2
      have "tree_map l n = None" using L by (cases "tree_map l n") auto
      then show ?thesis using 2 nx by simp
    next
      case 3
      have "tree_map l k = None" using L 3 by (cases "tree_map l k") (auto dest: less_asym)
      moreover have "k \<notin> names r" using S 3 by (auto dest: less_asym)
      then have "tree_map r k = None" using tree_map_names \<open>bst r\<close> by blast
      ultimately show ?thesis using 3 by auto
    next
      case 1
      then show ?thesis using nx by auto
    next
      case 4
      then show ?thesis using nx S by auto
    next
      case 5
      then show ?thesis using nx S by auto
    qed
  qed
  ultimately show "let m = ?m in bst m \<and> names m \<subseteq> names (Node n nb v vb l r) \<and> fits m \<and> tree_map m = (tree_map (Node n nb v vb l r))(n := None)"
    using S t b by (auto simp: Let_def)
qed

lemma search_fits: "t \<noteq> Null \<Longrightarrow> fits t \<Longrightarrow> fits (fst (search name t want lt))"
proof (induction t rule: path_induct [where name = name])
  case (step t)
  then show ?case using fits_down [OF step(3,1), of name] by (auto simp: search_down [OF step(1)] Let_def split_beta)
qed

lemma db_remove_eq:
  assumes ok: "db_ok head" and n: "name \<noteq> []" and s: "search name head True l_write = (res, par, ev)"
  shows "if overruns res then db_remove name head = None
    else \<exists>head' ev. db_remove name head = Some (contents head name \<noteq> None, head', ev) \<and> db_ok head' \<and> contents head' = (contents head)(name := None)"
proof (cases res)
  case Null
  have "contents head = (contents head)(name := None)" using search_head(1) [OF ok n s] Null by auto
  then show ?thesis using Null search_head(1) [OF ok n s] s ok by (auto simp: db_remove_def overruns_def two_children_def)
next
  case (Node dn nb dv vb l r)
  have "fits head" "head \<noteq> Null" using ok by (auto simp: db_ok_def)
  then have t: "bst (Node dn nb dv vb l r)" "dn = name" "fits (Node dn nb dv vb l r)" "contents head name \<noteq> None"
    using search_head [OF ok n s] search_fits [of head name True l_write] s Node by auto
  note M = remove_node_ok [OF t(1,3)]
  have rep: "db_ok (replace_child name (\<lambda>_. m) head)" "contents (replace_child name (\<lambda>_. m) head) = (contents head)(name := None)"
    if "bst m \<and> names m \<subseteq> names (Node dn nb dv vb l r) \<and> fits m \<and> tree_map m = (tree_map (Node dn nb dv vb l r))(dn := None)" for m
    using replace_ok [OF ok n, of res True l_write "\<lambda>_. m"] s that t(2) Node by auto
  show ?thesis
  proof (cases "l = Null \<or> r = Null")
    case True
    then show ?thesis using M(1,2) rep s Node t(4)
      by (cases "r = Null") (auto simp: db_remove_def overruns_def two_children_def Let_def)
  next
    case False
    obtain nxt ow lev where lm: "leftmost dn r = (nxt, ow, lev)" by (cases "leftmost dn r")
    have "length (nname nxt) < MAXLEN" "length (nvalue nxt) < MAXLEN" using leftmost_spec [OF _ _ lm] False t(1,3) by auto
    then have cut: "snprintf MAXLEN (nname nxt) = nname nxt" "snprintf MAXLEN (nvalue nxt) = nvalue nxt" by (simp_all add: snprintf_def)
    have o: "overruns res \<longleftrightarrow> length (nname nxt) + 1 > nb \<or> length (nvalue nxt) + 1 > vb"
      using False lm Node by (auto simp: overruns_def two_children_def Let_def)
    have "db_remove name head = (if overruns res then None
       else Some (True, replace_child name (\<lambda>_. Node (nname nxt) nb (nvalue nxt) vb l (drop_leftmost r)) head,
         Lock l_write (nname head) # ev @ [Lock l_write (nname r)] @ lev @ [Unlock (nname r), Modify dn, Modify ow, Destroy (nname nxt),
                          Unlock dn, Unlock (nname par)]))"
      unfolding o using s Node False lm cut by (simp add: db_remove_def Let_def)
    moreover have "\<not> overruns res \<Longrightarrow> length (nname nxt) < nb \<and> length (nvalue nxt) < vb" unfolding o by simp
    ultimately show ?thesis using M(3) [OF _ lm] rep False t(4) by (auto simp: Let_def)
  qed
qed

section \<open>Locks\<close>

text \<open>
  The locks a thread holds. It must not lock a node twice, unlock a node it has not locked or destroy a
  node it has locked; in the strict reading it may only modify a node that it has locked for writing.
\<close>

fun lock_step :: "bool \<Rightarrow> event \<Rightarrow> (string \<rightharpoonup> locktype) \<Rightarrow> (string \<rightharpoonup> locktype) option" where
  "lock_step strict (Lock lt n) h = (if h n = None then Some (h(n \<mapsto> lt)) else None)"
| "lock_step strict (Unlock n) h = (if h n = None then None else Some (h(n := None)))"
| "lock_step strict (Modify n) h = (if strict \<and> h n \<noteq> Some l_write then None else Some h)"
| "lock_step strict (Destroy n) h = (if h n = None then Some h else None)"

definition run_locks :: "bool \<Rightarrow> event list \<Rightarrow> (string \<rightharpoonup> locktype) \<Rightarrow> (string \<rightharpoonup> locktype) option" where
  "run_locks strict = foldM (lock_step strict)"

lemma run_locks_simps [simp]: "run_locks strict [] h = Some h"
  "run_locks strict (e # es) h = do { h \<leftarrow> lock_step strict e h; run_locks strict es h }"
  "run_locks strict (es @ fs) h = do { h \<leftarrow> run_locks strict es h; run_locks strict fs h }"
  by (simp_all add: run_locks_def foldM_append)

lemma search_stop:
  assumes "t \<noteq> Null" "down name t = Null \<or> name = nname (down name t)"
  shows "search name t want lt = (down name t, t,
    (if down name t = Null then [] else [Lock lt (nname (down name t))]) @ (if want then [] else [Unlock (nname t)]))"
  using assms(2) by (cases "down name t = Null") (auto simp: search_down [OF assms(1)] Let_def)

text \<open>The locks left by \<^verbatim>\<open>search\<close>.\<close>

definition found_locks :: "bool \<Rightarrow> locktype \<Rightarrow> node \<Rightarrow> node \<Rightarrow> string \<rightharpoonup> locktype" where
  "found_locks want lt par res =
     (let h = (if want then [nname par \<mapsto> lt] else Map.empty) in if res = Null then h else h(nname res \<mapsto> lt))"

lemma search_locks:
  assumes "t \<noteq> Null"
  shows "bst t \<Longrightarrow> name \<noteq> nname t \<Longrightarrow> search name t want lt = (res, par, ev) \<Longrightarrow>
    run_locks strict ev [nname t \<mapsto> lt] = Some (found_locks want lt par res) \<and> par \<noteq> Null \<and> nname par \<notin> names res"
  using assms
proof (induction t arbitrary: par ev rule: path_induct [where name = name])
  case (step t)
  let ?c = "down name t"
  note b = bst_down [OF step(3,1,4)]
  show ?case
  proof (cases "?c = Null \<or> name = nname ?c")
    case True
    then have r: "res = ?c" "par = t" "ev = (if ?c = Null then [] else [Lock lt (nname ?c)]) @ (if want then [] else [Unlock (nname t)])"
      using step(5) unfolding search_stop [OF step(1) True] by blast+
    have ne: "?c \<noteq> Null \<Longrightarrow> nname ?c \<noteq> nname t" using b(4) names_root by metis
    show ?thesis using r ne b(4) step(1) by (auto simp: found_locks_def Let_def fun_upd_twist)
  next
    case False
    obtain ev' where s: "search name ?c want lt = (res, par, ev')" "ev = Lock lt (nname ?c) # Unlock (nname t) # ev'"
      using step(5) False by (auto simp: search_down [OF step(1)] Let_def split: prod.splits)
    have ne: "nname ?c \<noteq> nname t" using b(4) names_root False by metis
    define h where "h = [nname t \<mapsto> lt]"
    have h: "h (nname ?c) = None" "(h(nname ?c \<mapsto> lt)) (nname t) \<noteq> None" "(h(nname ?c \<mapsto> lt))(nname t := None) = [nname ?c \<mapsto> lt]"
      using ne by (auto simp: h_def)
    have e: "run_locks strict ev h = run_locks strict ev' [nname ?c \<mapsto> lt]"
      unfolding s(2) run_locks_simps lock_step.simps using h by (auto simp del: fun_upd_apply)
    have c: "?c \<noteq> Null" "name \<noteq> nname ?c" using False by auto
    show ?thesis unfolding h_def [symmetric] e by (rule step(2) [OF c b(1) c(2) s(1)])
  qed
qed

lemma leftmost_locks:
  "t \<noteq> Null \<Longrightarrow> bst t \<Longrightarrow> (\<And>x. x \<in> names t \<Longrightarrow> x \<noteq> nname t \<Longrightarrow> h x = None) \<Longrightarrow> leftmost owner t = (nxt, ow, ev) \<Longrightarrow>
   run_locks strict ev h = Some h \<and> (ow = (if lchild t = Null then owner else ow)) \<and> (lchild t \<noteq> Null \<longrightarrow> ow \<in> names t)"
proof (induction owner t arbitrary: nxt ow ev rule: leftmost.induct)
  case (2 owner nn nb nv vb l r)
  show ?case
  proof (cases "l = Null")
    case True
    then show ?thesis using 2(5) by auto
  next
    case False
    obtain ev' where l: "leftmost nn l = (nxt, ow, ev')" "ev = Lock l_write (nname l) # Unlock (nname l) # ev'"
      using 2(5) False by (auto simp: Let_def split: prod.splits)
    have h: "h (nname l) = None" using 2(3,4) names_root [OF False] by auto
    then have "h(nname l := None) = h" by auto
    moreover have "run_locks strict ev' h = Some h \<and> (ow = (if lchild l = Null then nn else ow)) \<and> (lchild l \<noteq> Null \<longrightarrow> ow \<in> names l)"
      by (rule 2(1) [OF False False _ _ l(1)]) (use 2(3,4) in auto)
    ultimately show ?thesis using l(2) False h by (auto split: if_splits)
  qed
qed simp

lemma db_query_locks:
  assumes ok: "db_ok head" "name \<noteq> []"
  shows "run_locks True (snd (db_query name len head)) Map.empty = Some Map.empty"
proof -
  obtain res par ev where s: "search name head False l_read = (res, par, ev)" by (cases "search name head False l_read")
  have hn: "head \<noteq> Null" "bst head" "name \<noteq> nname head" using ok by (auto simp: db_ok_def)
  show ?thesis using search_locks [OF hn s, of True] s by (auto simp: db_query_def found_locks_def)
qed

lemma db_add_locks:
  assumes ok: "db_ok head" "name \<noteq> []" and a: "db_add mem_ok name value head = Some (r, head', ev)"
  shows "run_locks True ev Map.empty = Some Map.empty"
proof -
  obtain res par sev where s: "search name head True l_write = (res, par, sev)" by (cases "search name head True l_write")
  have hn: "head \<noteq> Null" "bst head" "name \<noteq> nname head" using ok by (auto simp: db_ok_def)
  have "res \<noteq> Null \<Longrightarrow> nname par \<noteq> nname res" using search_locks [OF hn s] names_root by metis
  then show ?thesis using search_locks [OF hn s, of True] s a
    by (auto simp: db_add_def found_locks_def Let_def bind_eq_Some_conv split: if_splits)
qed

lemma db_remove_locks:
  assumes ok: "db_ok head" "name \<noteq> []" and s: "search name head True l_write = (res, par, sev)"
    and a: "db_remove name head = Some (r, head', ev)"
  shows "run_locks strict ev Map.empty = (if strict \<and> two_children res \<and> lchild (rchild res) \<noteq> Null then None else Some Map.empty)"
proof -
  have hn: "head \<noteq> Null" "bst head" "name \<noteq> nname head" using ok by (auto simp: db_ok_def)
  note L = search_locks [OF hn s, of strict]
  have S: "run_locks strict (Lock l_write (nname head) # sev) Map.empty = Some (found_locks True l_write par res)" using L by simp
  show ?thesis
  proof (cases res)
    case Null
    then have ev: "ev = (Lock l_write (nname head) # sev) @ [Unlock (nname par)]" using s a by (auto simp: db_remove_def)
    have f: "found_locks True l_write par res = [nname par \<mapsto> l_write]" using Null by (simp add: found_locks_def)
    show ?thesis unfolding ev run_locks_simps(3) S f using Null by (simp add: two_children_def)
  next
    case (Node dn nb dv vb l r')
    define h where "h = [nname par \<mapsto> l_write, dn \<mapsto> l_write]"
    have pd: "nname par \<noteq> dn" "nname par \<notin> names r'" using L Node by auto
    have b: "bst r'" "dn \<notin> names r'" using search_spec [OF hn s] Node by auto
    have f: "found_locks True l_write par res = h" using Node by (simp add: found_locks_def h_def)
    have h: "h dn = Some l_write" "h (nname par) = Some l_write" "\<And>x. x \<in> names r' \<Longrightarrow> h x = None"
      "(h(dn := None)) (nname par) = Some l_write" "(h(dn := None))(nname par := None) = Map.empty"
      using pd b(2) by (auto simp: h_def)
    show ?thesis
    proof (cases "l = Null \<or> r' = Null")
      case True
      then have ev: "ev = (Lock l_write (nname head) # sev) @ [Modify (nname par), Unlock dn, Destroy dn, Unlock (nname par)]"
        using s a Node by (auto simp: db_remove_def Let_def split: if_splits)
      have "run_locks strict [Modify (nname par), Unlock dn, Destroy dn, Unlock (nname par)] h = Some Map.empty"
        using h pd(1) by simp
      then show ?thesis unfolding ev run_locks_simps(3) S f using True Node by (auto simp: two_children_def simp del: run_locks_simps)
    next
      case False
      obtain nxt ow lev where lm: "leftmost dn r' = (nxt, ow, lev)" by (cases "leftmost dn r'")
      have rn: "r' \<noteq> Null" "nname r' \<in> names r'" using False by auto
      note M = leftmost_spec [OF rn(1) b(1) lm]
      have ev: "ev = (Lock l_write (nname head) # sev) @ [Lock l_write (nname r')] @ lev @ [Unlock (nname r'), Modify dn, Modify ow,
          Destroy (nname nxt), Unlock dn, Unlock (nname par)]"
        using s a Node False lm by (auto simp: db_remove_def Let_def split: if_splits)
      have lev: "run_locks strict lev (h(nname r' \<mapsto> l_write)) = Some (h(nname r' \<mapsto> l_write)) \<and> (ow = (if lchild r' = Null then dn else ow))
          \<and> (lchild r' \<noteq> Null \<longrightarrow> ow \<in> names r')"
        by (rule leftmost_locks [OF rn(1) b(1) _ lm]) (use h(3) in simp)
      have hr: "(h(nname r' \<mapsto> l_write))(nname r' := None) = h" "h (nname r') = None" "h (nname nxt) = None"
        using h(3) [OF rn(2)] M h(3) by auto
      have "run_locks strict ([Lock l_write (nname r')] @ lev @ [Unlock (nname r')]) h = Some h"
        using lev hr by (simp del: fun_upd_upd)
      moreover have "run_locks strict [Modify dn, Modify ow, Destroy (nname nxt), Unlock dn, Unlock (nname par)] h =
          (if strict \<and> lchild r' \<noteq> Null then None else Some Map.empty)"
        using h lev hr pd(1) by (auto split: if_splits)
      moreover have "ev = (Lock l_write (nname head) # sev) @ ([Lock l_write (nname r')] @ lev @ [Unlock (nname r')])
          @ [Modify dn, Modify ow, Destroy (nname nxt), Unlock dn, Unlock (nname par)]" using ev by simp
      ultimately have "run_locks strict ev Map.empty = (if strict \<and> lchild r' \<noteq> Null then None else Some Map.empty)"
        using S f by (simp only: run_locks_simps(3) bind.bind_lunit)
      then show ?thesis using Node False by (simp add: two_children_def)
    qed
  qed
qed

section \<open>The interface of a dictionary\<close>

text \<open>Requests, their meaning on a map, and their execution with the operations of a dictionary.\<close>

datatype request = Query string | Add string string | Remove string | Ill_formed

fun wf_request :: "request \<Rightarrow> bool" where
  "wf_request (Query n) \<longleftrightarrow> n \<noteq> []"
| "wf_request (Add n v) \<longleftrightarrow> n \<noteq> [] \<and> length n < MAXLEN \<and> length v < MAXLEN"
| "wf_request (Remove n) \<longleftrightarrow> n \<noteq> []"
| "wf_request Ill_formed \<longleftrightarrow> True"

fun spec_request :: "nat \<Rightarrow> request \<Rightarrow> (string \<rightharpoonup> string) \<Rightarrow> string \<times> (string \<rightharpoonup> string)" where
  "spec_request len (Query n) m = (let r = snprintf len (case m n of None \<Rightarrow> ''not found'' | Some v \<Rightarrow> v) in
     (if r = [] then snprintf len ''not found'' else r, m))"
| "spec_request len (Add n v) m = (if m n = None then (snprintf len ''added'', m(n \<mapsto> v)) else (snprintf len ''already in database'', m))"
| "spec_request len (Remove n) m = (snprintf len (if m n = None then ''not in database'' else ''removed''), m(n := None))"
| "spec_request len Ill_formed m = (ill_formed len, m)"

fun exec_request :: "(string \<Rightarrow> nat \<Rightarrow> 's \<Rightarrow> string) \<Rightarrow> (string \<Rightarrow> string \<Rightarrow> 's \<Rightarrow> (bool \<times> 's) option) \<Rightarrow> (string \<Rightarrow> 's \<Rightarrow> (bool \<times> 's) option) \<Rightarrow>
    nat \<Rightarrow> request \<Rightarrow> 's \<Rightarrow> (string \<times> 's) option" where
  "exec_request qu ad re len (Query n) s = (let r = qu n len s in Some (if r = [] then snprintf len ''not found'' else r, s))"
| "exec_request qu ad re len (Add n v) s = map_option (\<lambda>(ok, s). (snprintf len (if ok then ''added'' else ''already in database''), s)) (ad n v s)"
| "exec_request qu ad re len (Remove n) s = map_option (\<lambda>(ok, s). (snprintf len (if ok then ''removed'' else ''not in database''), s)) (re n s)"
| "exec_request qu ad re len Ill_formed s = Some (ill_formed len, s)"

primrec spec_requests :: "nat \<Rightarrow> request list \<Rightarrow> (string \<rightharpoonup> string) \<Rightarrow> (string \<rightharpoonup> string)" where
  "spec_requests len [] m = m"
| "spec_requests len (r # rs) m = spec_requests len rs (snd (spec_request len r m))"

locale dictionary =
  fixes inv :: "'s \<Rightarrow> bool"
    and content :: "'s \<Rightarrow> string \<rightharpoonup> string"
    and query :: "string \<Rightarrow> nat \<Rightarrow> 's \<Rightarrow> string"
    and add :: "string \<Rightarrow> string \<Rightarrow> 's \<Rightarrow> (bool \<times> 's) option"
    and remove :: "string \<Rightarrow> 's \<Rightarrow> (bool \<times> 's) option"
    and safe :: "string \<Rightarrow> 's \<Rightarrow> bool"
  assumes query_law: "inv s \<Longrightarrow> n \<noteq> [] \<Longrightarrow> query n len s = snprintf len (case content s n of None \<Rightarrow> ''not found'' | Some v \<Rightarrow> v)"
    and add_law: "inv s \<Longrightarrow> n \<noteq> [] \<Longrightarrow> length n < MAXLEN \<Longrightarrow> length v < MAXLEN \<Longrightarrow>
      \<exists>s'. add n v s = Some (content s n = None, s') \<and> inv s' \<and> content s' = (if content s n = None then (content s)(n \<mapsto> v) else content s)"
    and remove_law: "inv s \<Longrightarrow> n \<noteq> [] \<Longrightarrow> if safe n s
      then \<exists>s'. remove n s = Some (content s n \<noteq> None, s') \<and> inv s' \<and> content s' = (content s)(n := None) else remove n s = None"
begin

lemma request_refines:
  assumes "inv s" "wf_request r"
  shows "if \<exists>n. r = Remove n \<and> \<not> safe n s then exec_request query add remove len r s = None
    else \<exists>s'. exec_request query add remove len r s = Some (fst (spec_request len r (content s)), s') \<and> inv s'
      \<and> content s' = snd (spec_request len r (content s))"
proof (cases r)
  case (Query n)
  then have q: "query n len s = snprintf len (case content s n of None \<Rightarrow> ''not found'' | Some v \<Rightarrow> v)"
    using assms query_law [of s n] by simp
  show ?thesis unfolding Query exec_request.simps spec_request.simps Let_def q using assms(1) by simp
next
  case (Add n v)
  then obtain t where "add n v s = Some (content s n = None, t)" "inv t"
    "content t = (if content s n = None then (content s)(n \<mapsto> v) else content s)"
    using assms add_law [of s n v] by auto
  then show ?thesis unfolding Add by (cases "content s n") simp_all
next
  case (Remove n)
  show ?thesis
  proof (cases "safe n s")
    case True
    then obtain t where "remove n s = Some (content s n \<noteq> None, t)" "inv t" "content t = (content s)(n := None)"
      using assms Remove remove_law [of s n] by auto
    then show ?thesis unfolding Remove using True by (cases "content s n") simp_all
  next
    case False
    then have "remove n s = None" using assms Remove remove_law [of s n] by simp
    then show ?thesis unfolding Remove using False by simp
  qed
qed (use assms in simp)

lemma requests_refine:
  assumes "inv s" "\<forall>r \<in> set rs. wf_request r"
    and "foldM (\<lambda>r s. map_option snd (exec_request query add remove len r s)) rs s = Some s'"
  shows "inv s' \<and> content s' = spec_requests len rs (content s)"
  using assms
proof (induction rs arbitrary: s)
  case (Cons r rs)
  obtain resp t where t: "exec_request query add remove len r s = Some (resp, t)"
    "foldM (\<lambda>r s. map_option snd (exec_request query add remove len r s)) rs t = Some s'"
    using Cons.prems(3) by (auto simp: bind_eq_Some_conv)
  have "inv t \<and> content t = snd (spec_request len r (content s))"
    using request_refines [of s r len] Cons.prems(1,2) t(1) by (auto split: if_splits)
  then show ?case using Cons.IH [of t] Cons.prems(2) t(2) by auto
qed simp

end

definition db_query_op :: "string \<Rightarrow> nat \<Rightarrow> node \<Rightarrow> string" where
  "db_query_op n len head = fst (db_query n len head)"

definition db_add_op :: "string \<Rightarrow> string \<Rightarrow> node \<Rightarrow> (bool \<times> node) option" where
  "db_add_op n v head = map_option (\<lambda>(ok, head, _). (ok, head)) (db_add True n v head)"

definition db_remove_op :: "string \<Rightarrow> node \<Rightarrow> (bool \<times> node) option" where
  "db_remove_op n head = map_option (\<lambda>(ok, head, _). (ok, head)) (db_remove n head)"

definition removable :: "string \<Rightarrow> node \<Rightarrow> bool" where
  "removable n head \<longleftrightarrow> \<not> overruns (fst (search n head True l_write))"

interpretation db: dictionary db_ok contents db_query_op db_add_op db_remove_op removable
proof
  fix s :: node and n :: string assume ok: "db_ok s" "n \<noteq> []"
  show "db_query_op n len s = snprintf len (case contents s n of None \<Rightarrow> ''not found'' | Some v \<Rightarrow> v)" for len
    using db_query_eq [OF ok] by (simp add: db_query_op_def)
  show "\<exists>s'. db_add_op n v s = Some (contents s n = None, s') \<and> db_ok s' \<and>
      contents s' = (if contents s n = None then (contents s)(n \<mapsto> v) else contents s)" if "length n < MAXLEN" "length v < MAXLEN" for v
    using db_add_eq [OF ok that] by (auto simp: db_add_op_def)
  obtain res par ev where s: "search n s True l_write = (res, par, ev)" by (cases "search n s True l_write")
  show "if removable n s then \<exists>s'. db_remove_op n s = Some (contents s n \<noteq> None, s') \<and> db_ok s' \<and> contents s' = (contents s)(n := None)
      else db_remove_op n s = None"
    using db_remove_eq [OF ok s] s by (auto simp: db_remove_op_def removable_def split: if_splits)
qed

section \<open>Commands\<close>

definition parse_request :: "string \<Rightarrow> request" where
  "parse_request c = (let (name, rest) = scan_word (tl c); (val, _) = scan_word rest in
     if length c \<le> 1 \<or> name = [] then Ill_formed
     else if hd c = CHR ''q'' then Query name
     else if hd c = CHR ''a'' then (if val = [] then Ill_formed else Add name val)
     else if hd c = CHR ''d'' then Remove name
     else Ill_formed)"

definition is_file :: "string \<Rightarrow> bool" where
  "is_file c \<longleftrightarrow> 1 < length c \<and> hd c = CHR ''f''"

lemma parse_request_wf: "wf_request (parse_request c)"
  by (auto simp: parse_request_def scan_word_def Let_def)

lemma interpret_simple:
  assumes "\<not> is_file c"
  shows "interpret_command depth True files c len head = exec_request db_query_op db_add_op db_remove_op len (parse_request c) head"
proof -
  obtain name rest where w: "scan_word (tl c) = (name, rest)" by (cases "scan_word (tl c)")
  obtain val rest' where w': "scan_word rest = (val, rest')" by (cases "scan_word rest")
  show ?thesis using assms w w'
    by (subst interpret_command.simps) (auto simp: parse_request_def is_file_def Let_def db_query_op_def db_add_op_def db_remove_op_def
        split: prod.splits option.splits)
qed

lemma interpret_file:
  assumes c: "is_file c" "scan_word (tl c) = (name, rest)" "name \<noteq> []" "files name = Some txt" and l: "\<forall>line \<in> set (fgets_lines txt). \<not> is_file line"
  shows "interpret_command (Suc depth) True files c len head =
    map_option (Pair (snprintf len ''file processed''))
      (foldM (\<lambda>r head. map_option snd (exec_request db_query_op db_add_op db_remove_op len r head)) (map parse_request (fgets_lines txt)) head)"
proof -
  have "foldM (\<lambda>ibuf head. map_option snd (interpret_command depth True files ibuf len head)) ls h =
      foldM (\<lambda>r head. map_option snd (exec_request db_query_op db_add_op db_remove_op len r head)) (map parse_request ls) h"
    if "\<forall>line \<in> set ls. \<not> is_file line" for ls h
    using that by (induction ls arbitrary: h) (simp_all add: interpret_simple)
  then show ?thesis using c l by (subst interpret_command.simps) (auto simp: is_file_def Let_def)
qed

end
