(* ===== verification/DatabaseTheorems.thy ===== *)
theory DatabaseTheorems
  imports DatabaseCorrect
begin

text \<open>
  The theorems about the database: single commands and command files refine operations on a finite
  map, the locking of the operations is balanced, cleaning up destroys every node once, and a command
  file that names itself never ends.
\<close>

section \<open>Helpers\<close>

lemma fgets_lines_line: "l \<noteq> [] \<Longrightarrow> length l < 255 \<Longrightarrow> CHR 0x0A \<notin> set l \<Longrightarrow> fgets_lines (l @ [CHR 0x0A]) = [l @ [CHR 0x0A]]"
proof -
  assume l: "l \<noteq> []" "length l < 255" "CHR 0x0A \<notin> set l"
  have t: "takeWhile (\<lambda>c. c \<noteq> CHR 0x0A) (l @ [CHR 0x0A]) = l" using l(3) by (induction l) auto
  have "fgets (l @ [CHR 0x0A]) = l @ [CHR 0x0A]" unfolding fgets_def t using l(2) by simp
  then show ?thesis by (simp add: fgets_lines.simps)
qed

lemma scan_word_only:
  assumes "\<forall>c \<in> set w. \<not> isspace c" "w \<noteq> []" "length w \<le> 255" "s = [] \<or> isspace (hd s)"
  shows "scan_word (CHR '' '' # w @ s) = (w, s)"
proof -
  have "isspace CHR '' ''" by (simp add: isspace_def)
  moreover have "dropWhile isspace (w @ s) = w @ s" using assms(1,2) by (cases w) auto
  moreover have "takeWhile (\<lambda>c. \<not> isspace c) (w @ s) = w" using assms(1,4) by (induction w) (auto simp: takeWhile_eq_Nil_iff)
  ultimately show ?thesis using assms(3) by (simp add: scan_word_def Let_def)
qed

lemma exec_request_returns:
  assumes "db_ok head" "wf_request r" "\<forall>n. r \<noteq> Remove n"
  shows "\<exists>resp head'. exec_request db_query_op db_add_op db_remove_op len r head = Some (resp, head') \<and> db_ok head'"
  using db.request_refines [OF assms(1,2), of len] assms(3) by auto

lemma exec_requests_return:
  assumes "db_ok head" "\<forall>r \<in> set rs. wf_request r \<and> (\<forall>n. r \<noteq> Remove n)"
  shows "\<exists>head'. foldM (\<lambda>r head. map_option snd (exec_request db_query_op db_add_op db_remove_op len r head)) rs head = Some head'"
  using assms
proof (induction rs arbitrary: head)
  case (Cons r rs)
  obtain resp t where "exec_request db_query_op db_add_op db_remove_op len r head = Some (resp, t)" "db_ok t"
    using exec_request_returns [of head r len] Cons.prems by auto
  then show ?case using Cons.IH [of t] Cons.prems(2) by auto
qed simp

lemma cleanup_names: "bst t \<Longrightarrow> distinct (db_cleanup_recurs t) \<and> set (db_cleanup_recurs t) = names t"
proof (induction t)
  case (Node n nb v vb l r)
  have "x < n" if "x \<in> names l" for x using Node.prems that by auto
  moreover have "n < x" if "x \<in> names r" for x using Node.prems that by auto
  ultimately have "names l \<inter> names r = {}" "n \<notin> names l" "n \<notin> names r" using less_asym by blast+
  then show ?case using Node by auto
qed simp

definition empty_db :: node where
  "empty_db = Node [] 1 [] 1 Null Null"

lemma empty_db_ok: "db_ok empty_db"
  by (simp add: db_ok_def empty_db_def)

lemma empty_db_contents: "contents empty_db = Map.empty"
  by (simp add: contents_def empty_db_def)

definition example_db :: node where
  "example_db = Node [] 1 [] 1 Null (Node ''b'' 2 ''x'' 2 (Node ''a'' 2 ''y'' 2 Null Null)
     (Node ''d'' 2 ''w'' 2 (Node ''cc'' 3 ''z'' 2 Null Null) Null))"

lemma example_db_ok: "db_ok example_db"
  by (simp add: db_ok_def example_db_def less_char_def)

lemma example_not_removable: "\<not> removable ''b'' example_db"
  by (simp add: removable_def example_db_def overruns_def two_children_def Let_def)

lemma example_removable: "removable ''d'' example_db"
  by (simp add: removable_def example_db_def overruns_def two_children_def Let_def)

section \<open>Theorems\<close>

text \<open>
  C13. A command that does not name a file has the response and the effect of its request on the map
  that the tree represents, and keeps the search tree well-formed: a query changes nothing, an addition
  enters a new name only, a removal forgets exactly its name, an ill-formed command is reported. The one
  exception is a removal of a node with two children whose successor has a longer name or value than the
  node has room for: it overruns a buffer.
\<close>

theorem interpret_command_refines:
  assumes "db_ok head" "\<not> is_file c"
  shows "if \<exists>n. parse_request c = Remove n \<and> \<not> removable n head then interpret_command depth True files c len head = None
    else \<exists>head'. interpret_command depth True files c len head = Some (fst (spec_request len (parse_request c) (contents head)), head')
      \<and> db_ok head' \<and> contents head' = snd (spec_request len (parse_request c) (contents head))"
  unfolding interpret_simple [OF assms(2)] by (rule db.request_refines [OF assms(1) parse_request_wf])

theorem interpret_command_refines_witness:
  "interpret_command 0 True Map.empty ''d b'' 1024 example_db = None \<and>
   (\<exists>head. interpret_command 0 True Map.empty ''d d'' 1024 example_db = Some (''removed'', head) \<and> db_ok head
      \<and> contents head = (contents example_db)(''d'' := None))"
proof
  have p: "parse_request ''d b'' = Remove ''b''" "parse_request ''d d'' = Remove ''d''"
    by (simp_all add: parse_request_def scan_word_def isspace_def)
  have f: "\<not> is_file ''d b''" "\<not> is_file ''d d''" by (simp_all add: is_file_def)
  show "interpret_command 0 True Map.empty ''d b'' 1024 example_db = None"
    using interpret_command_refines [OF example_db_ok f(1), of 0 Map.empty 1024] example_not_removable by (simp add: p)
  have d: "contents example_db ''d'' = Some ''w''" by (simp add: contents_def example_db_def less_char_def)
  show "\<exists>head. interpret_command 0 True Map.empty ''d d'' 1024 example_db = Some (''removed'', head) \<and> db_ok head
      \<and> contents head = (contents example_db)(''d'' := None)"
    using interpret_command_refines [OF example_db_ok f(2), of 0 Map.empty 1024] example_removable by (simp add: p d snprintf_def)
qed

text \<open>
  C14. A command file without nested files performs the requests of its lines in order: when it is
  processed to the end, the response says so and the map is the result of these requests; and it is
  processed to the end whenever it removes nothing.
\<close>

theorem command_file_refines:
  assumes ok: "db_ok head" and c: "is_file c" "scan_word (tl c) = (name, rest)" "name \<noteq> []" "files name = Some txt"
    and l: "\<forall>line \<in> set (fgets_lines txt). \<not> is_file line"
  shows "(\<forall>resp head'. interpret_command (Suc depth) True files c len head = Some (resp, head') \<longrightarrow>
      resp = snprintf len ''file processed'' \<and> db_ok head' \<and> contents head' = spec_requests len (map parse_request (fgets_lines txt)) (contents head))
    \<and> ((\<forall>line \<in> set (fgets_lines txt). \<forall>n. parse_request line \<noteq> Remove n) \<longrightarrow>
      (\<exists>resp head'. interpret_command (Suc depth) True files c len head = Some (resp, head')))"
proof -
  have wf: "\<forall>r \<in> set (map parse_request (fgets_lines txt)). wf_request r" by (simp add: parse_request_wf)
  note I = interpret_file [where files = files and name = name, OF c l, of depth len head]
  have ret: "\<exists>head'. foldM (\<lambda>r head. map_option snd (exec_request db_query_op db_add_op db_remove_op len r head))
      (map parse_request (fgets_lines txt)) head = Some head'"
    if "\<forall>line \<in> set (fgets_lines txt). \<forall>n. parse_request line \<noteq> Remove n"
    by (rule exec_requests_return [OF ok]) (use that in \<open>simp add: parse_request_wf\<close>)
  show ?thesis
  proof (intro conjI allI impI)
    fix resp head' assume "interpret_command (Suc depth) True files c len head = Some (resp, head')"
    then have r: "resp = snprintf len ''file processed''" and
      f: "foldM (\<lambda>r head. map_option snd (exec_request db_query_op db_add_op db_remove_op len r head)) (map parse_request (fgets_lines txt)) head = Some head'"
      unfolding I by auto
    then show "resp = snprintf len ''file processed''" "db_ok head'" "contents head' = spec_requests len (map parse_request (fgets_lines txt)) (contents head)"
      using db.requests_refine [OF ok wf f] by simp_all
  next
    assume "\<forall>line \<in> set (fgets_lines txt). \<forall>n. parse_request line \<noteq> Remove n"
    from ret [OF this] show "\<exists>resp head'. interpret_command (Suc depth) True files c len head = Some (resp, head')"
      unfolding I by auto
  qed
qed

definition example_file :: string where
  "example_file = ''a b x'' @ [CHR 0x0A] @ ''q b'' @ [CHR 0x0A]"

lemma example_file_lines: "fgets_lines example_file = [''a b x'' @ [CHR 0x0A], ''q b'' @ [CHR 0x0A]]"
  by (simp add: fgets_lines.simps fgets_def example_file_def)

theorem command_file_refines_witness:
  "\<exists>head'. interpret_command 1 True [''in'' \<mapsto> example_file] ''f in'' 1024 empty_db = Some (''file processed'', head')
    \<and> db_ok head' \<and> contents head' = [''b'' \<mapsto> ''x'']"
proof -
  have p: "parse_request (''a b x'' @ [CHR 0x0A]) = Add ''b'' ''x''" "parse_request (''q b'' @ [CHR 0x0A]) = Query ''b''"
    by (simp_all add: parse_request_def scan_word_def isspace_def)
  have "\<not> is_file (''a b x'' @ [CHR 0x0A])" "\<not> is_file (''q b'' @ [CHR 0x0A])" "is_file ''f in''" "scan_word (tl ''f in'') = (''in'', [])"
    by (simp_all add: is_file_def scan_word_def isspace_def)
  then show ?thesis
    using command_file_refines [OF empty_db_ok, of "''f in''" "''in''" "[]" "[''in'' \<mapsto> example_file]" example_file 0 1024]
    unfolding example_file_lines by (auto simp: p [simplified] empty_db_contents snprintf_def Let_def)
qed

text \<open>
  C16. On their own the operations lock consistently: no node is locked twice or unlocked without a
  lock, no node is destroyed while the thread holds its lock, and no lock is kept at the end. Queries
  and additions modify only nodes locked for writing. A removal does so too except in one case: when the
  removed node has two children and its successor is not the right child, the successor's parent is
  modified without a lock.
\<close>

theorem db_lock_discipline:
  assumes "db_ok head" "name \<noteq> []"
  shows "run_locks True (snd (db_query name len head)) Map.empty = Some Map.empty
    \<and> (\<forall>v r head' ev. db_add mem_ok name v head = Some (r, head', ev) \<longrightarrow> run_locks True ev Map.empty = Some Map.empty)
    \<and> (\<forall>r head' ev. db_remove name head = Some (r, head', ev) \<longrightarrow> run_locks False ev Map.empty = Some Map.empty
        \<and> run_locks True ev Map.empty = (let d = fst (search name head True l_write) in
            if two_children d \<and> lchild (rchild d) \<noteq> Null then None else Some Map.empty))"
proof -
  obtain res par sev where s: "search name head True l_write = (res, par, sev)" by (cases "search name head True l_write")
  show ?thesis using db_query_locks [OF assms] db_add_locks [OF assms] db_remove_locks [OF assms s] s by (simp add: Let_def)
qed

definition roomy_db :: node where
  "roomy_db = Node [] 1 [] 1 Null (Node ''b'' 9 ''x'' 9 (Node ''a'' 2 ''y'' 2 Null Null)
     (Node ''d'' 2 ''w'' 2 (Node ''cc'' 3 ''z'' 2 Null Null) Null))"

theorem db_lock_discipline_witness:
  "\<exists>r head' ev. db_remove ''b'' roomy_db = Some (r, head', ev) \<and> run_locks False ev Map.empty = Some Map.empty
    \<and> run_locks True ev Map.empty = None"
proof -
  have ok: "db_ok roomy_db" by (simp add: db_ok_def roomy_db_def less_char_def)
  have d: "fst (search ''b'' roomy_db True l_write) = rchild roomy_db" "two_children (rchild roomy_db)" "lchild (rchild (rchild roomy_db)) \<noteq> Null"
    by (simp_all add: roomy_db_def two_children_def)
  obtain r head' ev where "db_remove ''b'' roomy_db = Some (r, head', ev)"
    by (cases "db_remove ''b'' roomy_db") (auto simp: db_remove_def roomy_db_def snprintf_def)
  then show ?thesis using db_lock_discipline [OF ok, of "''b''" 0 True] d by (simp add: Let_def)
qed

text \<open>
  \<^verbatim>\<open>db_cleanup\<close> destroys every node below the head exactly once: the nodes it destroys are distinct
  and are those of the names in the database.
\<close>

theorem db_cleanup_destroys_all:
  assumes "db_ok head"
  shows "distinct (db_cleanup head) \<and> set (db_cleanup head) = dom (contents head)"
proof -
  obtain nb v vb r where h: "head = Node [] nb v vb Null r" "bst r" using db_ok_head [OF assms] by metis
  have "dom (tree_map r) = names r" using tree_map_names [OF h(2)] by (auto simp: dom_def)
  then show ?thesis using cleanup_names [OF h(2)] by (simp add: db_cleanup_def contents_def h(1))
qed

theorem db_cleanup_destroys_all_witness:
  "db_cleanup example_db = [''a'', ''cc'', ''d'', ''b''] \<and> distinct (db_cleanup example_db)
    \<and> set (db_cleanup example_db) = dom (contents example_db)"
  using db_cleanup_destroys_all [OF example_db_ok] by (simp add: db_cleanup_def example_db_def)

text \<open>
  A command file that names itself is opened again and again: no depth of nesting is enough to
  process it.
\<close>

theorem self_naming_file_never_ends:
  assumes "files fn = Some (''f '' @ fn @ [CHR 0x0A])" "fn \<noteq> []" "\<forall>c \<in> set fn. \<not> isspace c" "length fn \<le> 252"
  shows "interpret_command depth mem_ok files (''f '' @ fn) len head = None"
proof -
  have nl: "isspace CHR 0x0A" by (simp add: isspace_def)
  then have "fgets_lines ((''f '' @ fn) @ [CHR 0x0A]) = [(''f '' @ fn) @ [CHR 0x0A]]" by (intro fgets_lines_line) (use assms in auto)
  then have lines: "fgets_lines (''f '' @ fn @ [CHR 0x0A]) = [''f '' @ fn @ [CHR 0x0A]]" by simp
  have word: "scan_word (CHR '' '' # fn @ s) = (fn, s)" if "s = [] \<or> s = [CHR 0x0A]" for s
    using scan_word_only [of fn s] assms(2-4) nl that by auto
  have "interpret_command depth mem_ok files (CHR ''f'' # CHR '' '' # fn @ s) len head = None" if "s = [] \<or> s = [CHR 0x0A]" for s
    using that
  proof (induction depth arbitrary: s)
    case 0
    then show ?case using assms(1,2) word [of s] by (simp add: interpret_command.simps)
  next
    case (Suc depth)
    show ?case using Suc.IH [of "[CHR 0x0A]"] assms(1,2) word [OF Suc.prems] lines
      by (subst interpret_command.simps) simp
  qed
  from this [of "[]"] show ?thesis by simp
qed

theorem self_naming_file_never_ends_witness:
  "interpret_command 1000 True [''x'' \<mapsto> ''f x'' @ [CHR 0x0A]] (''f '' @ ''x'') 1024 empty_db = None"
  by (rule self_naming_file_never_ends) (simp_all add: isspace_def)

lemma spec_response_fits: "length (fst (spec_request len r m)) \<le> len - 1"
  by (cases r) (auto simp: snprintf_def ill_formed_def Let_def)

lemma foldM_keeps:
  assumes "foldM f xs s = Some t" "I s" "\<And>x s t. f x s = Some t \<Longrightarrow> I s \<Longrightarrow> I t"
  shows "I t"
  using assms(1,2) by (induction xs arbitrary: s) (auto simp: bind_eq_Some_conv intro: assms(3))

lemma interpret_is_file:
  assumes "is_file c" "scan_word (tl c) = (name, rest)"
  shows "interpret_command depth mem_ok files c len head =
     (if name = [] then Some (ill_formed len, head)
      else (case files name of
          None \<Rightarrow> Some (snprintf len ''bad file name'', head)
        | Some txt \<Rightarrow> (case depth of
            0 \<Rightarrow> None
          | Suc depth \<Rightarrow> map_option (Pair (snprintf len ''file processed''))
              (foldM (\<lambda>ibuf head. map_option snd (interpret_command depth mem_ok files ibuf len head)) (fgets_lines txt) head))))"
  using assms by (subst interpret_command.simps) (simp add: is_file_def)



end
