(* ===== verification/HeapList.thy ===== *)
theory HeapList
  imports Prelude
begin

text \<open>
  Linked lists in a store. The interface asks for the two operations on the link of an element, its
  value and its update; the lemmas about paths in the store are proved once and serve the job list of
  the shell and the client list of the server.
\<close>

locale linked =
  fixes nxt :: "'e \<Rightarrow> 'a option"
    and set_nxt :: "'a option \<Rightarrow> 'e \<Rightarrow> 'e"
  assumes nxt_set: "nxt (set_nxt p e) = p"
begin

primrec path :: "('a \<rightharpoonup> 'e) \<Rightarrow> 'a option \<Rightarrow> 'a list \<Rightarrow> 'a option \<Rightarrow> bool" where
  "path s p [] q \<longleftrightarrow> p = q"
| "path s p (a # as) q \<longleftrightarrow> p = Some a \<and> (\<exists>e. s a = Some e \<and> path s (nxt e) as q)"

lemma path_append: "path s p (as @ bs) q \<longleftrightarrow> (\<exists>r. path s p as r \<and> path s r bs q)"
  by (induction as arbitrary: p) auto

lemma path_frame: "a \<notin> set as \<Longrightarrow> path (s(a := x)) p as q \<longleftrightarrow> path s p as q"
  by (induction as arbitrary: p) auto

lemma path_dom: "path s p as q \<Longrightarrow> set as \<subseteq> dom s"
  by (induction as arbitrary: p) auto

lemma path_head: "path s p as None \<Longrightarrow> p = (case as of [] \<Rightarrow> None | a # _ \<Rightarrow> Some a)"
  by (cases as) auto

lemma path_unique: "path s p as None \<Longrightarrow> path s p bs None \<Longrightarrow> as = bs"
proof (induction as arbitrary: p bs)
  case (Cons a as)
  then show ?case by (cases bs) auto
qed (auto split: list.splits dest: path_head)

text \<open>A path can be cut at any of its addresses.\<close>

lemma path_split: "path s p (as @ a # bs) q \<longleftrightarrow> (\<exists>e. path s p as (Some a) \<and> s a = Some e \<and> path s (nxt e) bs q)"
  by (auto simp: path_append)

lemma path_snoc: "path s p (as @ [a]) q \<longleftrightarrow> (\<exists>e. path s p as (Some a) \<and> s a = Some e \<and> nxt e = q)"
  by (simp add: path_split)

text \<open>Appending a new element, and unlinking one.\<close>

lemma path_add:
  assumes "path s p (as @ [a]) None" "distinct (as @ [a])" "n \<notin> set (as @ [a])" "s a = Some e" "nxt x = None"
  shows "path (s(n \<mapsto> x, a \<mapsto> set_nxt (Some n) e)) p (as @ [a, n]) None"
proof -
  have "path s p as (Some a)" using assms(1) by (simp add: path_snoc)
  moreover have "path s p as (Some a) \<longleftrightarrow> path (s(n \<mapsto> x, a \<mapsto> set_nxt (Some n) e)) p as (Some a)"
    using assms(2,3) by (simp add: path_frame)
  ultimately show ?thesis using assms(3-5) by (simp add: path_split nxt_set)
qed

lemma path_unlink:
  assumes "path s p (as @ b # a # bs) q" "distinct (as @ b # a # bs)" "s b = Some e" "s a = Some f"
  shows "path ((s(b \<mapsto> set_nxt (nxt f) e))(a := None)) p (as @ b # bs) q"
proof -
  let ?s = "(s(b \<mapsto> set_nxt (nxt f) e))(a := None)"
  have p: "path s p as (Some b)" "path s (nxt f) bs q" using assms by (auto simp: path_split)
  moreover have "path ?s p as (Some b) \<longleftrightarrow> path s p as (Some b)" "path ?s (nxt f) bs q \<longleftrightarrow> path s (nxt f) bs q"
    using assms(2) by (auto simp: path_frame)
  moreover have "?s b = Some (set_nxt (nxt f) e)" using assms(2) by auto
  ultimately show ?thesis by (simp add: path_split nxt_set)
qed

lemma path_unlink_first:
  "path s p (a # bs) q \<Longrightarrow> distinct (a # bs) \<Longrightarrow> s a = Some f \<Longrightarrow> path (s(a := None)) (nxt f) bs q"
  by (auto simp: path_frame)

lemma path_update:
  assumes "path s p as q" "s a = Some e" "nxt e' = nxt e"
  shows "path (s(a \<mapsto> e')) p as q"
  using assms(1)
proof (induction as arbitrary: p)
  case (Cons b as)
  then show ?case using assms(2,3) by (cases "b = a") auto
qed simp

end

end
