(* ===== verification/Jobs.thy ===== *)
theory Jobs
  imports HeapList
begin

text \<open>
  The job list of the shell, \<^verbatim>\<open>src/shell_2/jobs.c\<close>: a singly linked list in a store of elements, with an
  iterator \<^verbatim>\<open>current\<close>. A store maps the addresses of the allocated elements to their contents. A list
  that is the null pointer is \<^const>\<open>None\<close>; an operation that reads through a dangling pointer or does not
  end has the result \<^const>\<open>None\<close>. Then what the operations do to the sequence of jobs.
\<close>

section \<open>Elements and lists\<close>

record job_element =
  jid :: int
  pid :: int
  state :: string
  command :: string
  link :: "nat option"

record job_list =
  head :: "nat option"
  current :: "nat option"
  store :: "nat \<rightharpoonup> job_element"

definition STATE_RUNNING :: string where "STATE_RUNNING = ''Running''"
definition STATE_STOPPED :: string where "STATE_STOPPED = ''Stopped''"

definition init_job_list :: job_list where
  "init_job_list = \<lparr>head = None, current = None, store = Map.empty\<rparr>"

section \<open>Operations\<close>

text \<open>The search loop of the operations: the element before the first one with \<open>p\<close>, and that one.\<close>

partial_function (option) seek ::
  "(job_element \<Rightarrow> bool) \<Rightarrow> (nat \<rightharpoonup> job_element) \<Rightarrow> nat option \<Rightarrow> nat option \<Rightarrow> (nat option \<times> nat option) option" where
  "seek p s prev cur = (if cur = None then Some (prev, None)
     else do { e \<leftarrow> s (the cur); if p e then Some (prev, cur) else seek p s cur (link e) })"

text \<open>The loop to the last element, and the loop that frees every element and kills its process group.\<close>

partial_function (option) last_element :: "(nat \<rightharpoonup> job_element) \<Rightarrow> nat \<Rightarrow> nat option" where
  "last_element s cur = do { e \<leftarrow> s cur; if link e = None then Some cur else last_element s (the (link e)) }"

partial_function (option) cleanup_loop :: "(nat \<rightharpoonup> job_element) \<Rightarrow> nat option \<Rightarrow> (int list \<times> (nat \<rightharpoonup> job_element)) option" where
  "cleanup_loop s cur = (if cur = None then Some ([], s)
     else do { e \<leftarrow> s (the cur); r \<leftarrow> cleanup_loop (s(the cur := None)) (link e); Some (- pid e # fst r, snd r) })"

definition cleanup_job_list :: "job_list option \<Rightarrow> (int list \<times> (nat \<rightharpoonup> job_element)) option" where
  "cleanup_job_list l = (case l of None \<Rightarrow> Some ([], Map.empty) | Some l \<Rightarrow> cleanup_loop (store l) (head l))"

text \<open>\<open>new\<close> is the address that \<^verbatim>\<open>malloc\<close> returns.\<close>

definition add_job :: "nat \<Rightarrow> job_list option \<Rightarrow> int \<Rightarrow> int \<Rightarrow> string option \<Rightarrow> string option \<Rightarrow> (int \<times> job_list option) option" where
  "add_job new l j p st cmd = (case (l, st, cmd) of
       (Some l, Some st, Some cmd) \<Rightarrow>
         (let s = (store l)(new \<mapsto> \<lparr>jid = j, pid = p, state = st, command = cmd, link = None\<rparr>) in
          case head l of
            None \<Rightarrow> Some (0, Some (l\<lparr>head := Some new, current := Some new, store := s\<rparr>))
          | Some h \<Rightarrow> do {
              cur \<leftarrow> last_element s h;
              e \<leftarrow> s cur;
              Some (0, Some (l\<lparr>store := s(cur \<mapsto> e\<lparr>link := Some new\<rparr>)\<rparr>))
            })
     | _ \<Rightarrow> Some (- 1, l))"

definition remove_job :: "(job_element \<Rightarrow> bool) \<Rightarrow> job_list option \<Rightarrow> (int \<times> job_list option) option" where
  "remove_job q l = (case l of
       None \<Rightarrow> Some (- 1, l)
     | Some l \<Rightarrow> do {
         (prev, cur) \<leftarrow> seek q (store l) None (head l);
         case cur of
           None \<Rightarrow> Some (- 1, Some l)
         | Some a \<Rightarrow> do {
             e \<leftarrow> store l a;
             s \<leftarrow> (case prev of None \<Rightarrow> Some (store l)
                  | Some b \<Rightarrow> do { f \<leftarrow> store l b; Some ((store l)(b \<mapsto> f\<lparr>link := link e\<rparr>)) });
             Some (0, Some (l\<lparr>head := (if head l = Some a then link e else head l),
                              current := (if current l = Some a then link e else current l),
                              store := s(a := None)\<rparr>))
           }
       })"

definition remove_job_jid :: "job_list option \<Rightarrow> int \<Rightarrow> (int \<times> job_list option) option" where
  "remove_job_jid l j = remove_job (\<lambda>e. jid e = j) l"

definition remove_job_pid :: "job_list option \<Rightarrow> int \<Rightarrow> (int \<times> job_list option) option" where
  "remove_job_pid l p = remove_job (\<lambda>e. pid e = p) l"

definition update_job :: "(job_element \<Rightarrow> bool) \<Rightarrow> job_list option \<Rightarrow> string \<Rightarrow> (int \<times> job_list option) option" where
  "update_job q l st = (case l of
       None \<Rightarrow> Some (- 1, l)
     | Some l \<Rightarrow> do {
         (_, cur) \<leftarrow> seek q (store l) None (head l);
         case cur of
           None \<Rightarrow> Some (- 1, Some l)
         | Some a \<Rightarrow> do { e \<leftarrow> store l a; Some (0, Some (l\<lparr>store := (store l)(a \<mapsto> e\<lparr>state := st\<rparr>)\<rparr>)) }
       })"

definition update_job_jid :: "job_list option \<Rightarrow> int \<Rightarrow> string \<Rightarrow> (int \<times> job_list option) option" where
  "update_job_jid l j st = update_job (\<lambda>e. jid e = j) l st"

definition update_job_pid :: "job_list option \<Rightarrow> int \<Rightarrow> string \<Rightarrow> (int \<times> job_list option) option" where
  "update_job_pid l p st = update_job (\<lambda>e. pid e = p) l st"

definition get_job :: "(job_element \<Rightarrow> bool) \<Rightarrow> (job_element \<Rightarrow> int) \<Rightarrow> job_list option \<Rightarrow> int option" where
  "get_job q f l = (case l of
       None \<Rightarrow> Some (- 1)
     | Some l \<Rightarrow> do {
         (_, cur) \<leftarrow> seek q (store l) None (head l);
         case cur of None \<Rightarrow> Some (- 1) | Some a \<Rightarrow> map_option f (store l a)
       })"

definition get_job_pid :: "job_list option \<Rightarrow> int \<Rightarrow> int option" where
  "get_job_pid l j = get_job (\<lambda>e. jid e = j) pid l"

definition get_job_jid :: "job_list option \<Rightarrow> int \<Rightarrow> int option" where
  "get_job_jid l p = get_job (\<lambda>e. pid e = p) jid l"

definition get_next_pid :: "job_list option \<Rightarrow> (int \<times> job_list option) option" where
  "get_next_pid l = (case l of
       None \<Rightarrow> Some (- 1, l)
     | Some l \<Rightarrow> (case current l of
         None \<Rightarrow> Some (- 1, Some (l\<lparr>current := head l\<rparr>))
       | Some a \<Rightarrow> do { e \<leftarrow> store l a; Some (pid e, Some (l\<lparr>current := link e\<rparr>)) }))"

text \<open>
  The line of a job goes through a buffer of 1024 bytes; the number of bytes written is what
  \<^verbatim>\<open>snprintf\<close> returns, the length the line would have without the limit.
\<close>

definition job_line :: "job_element \<Rightarrow> string option" where
  "job_line e = (let line = ''['' @ print_d (jid e) @ ''] ('' @ print_d (pid e) @ '') '' @ state e @ '' '' @ command e @ [newline];
       buffer = take 1023 line @ replicate (1024 - length (take 1023 line)) NUL in
     if length line \<le> 1024 then Some (take (length line) buffer) else None)"

partial_function (option) jobs_loop :: "(nat \<rightharpoonup> job_element) \<Rightarrow> nat option \<Rightarrow> string list option" where
  "jobs_loop s cur = (if cur = None then Some []
     else do { e \<leftarrow> s (the cur); line \<leftarrow> job_line e; lines \<leftarrow> jobs_loop s (link e); Some (line # lines) })"

definition jobs :: "job_list option \<Rightarrow> string list option" where
  "jobs l = (case l of None \<Rightarrow> Some [] | Some l \<Rightarrow> jobs_loop (store l) (head l))"

end
