(* ===== verification/JobsCorrect.thy ===== *)
theory JobsCorrect
  imports Jobs
begin

text \<open>
  The job list as a sequence of jobs with an iterator: every operation on the linked list has the effect
  of an operation on the sequence, and neither follows a dangling pointer nor loses an element.
\<close>

section \<open>The sequence of jobs\<close>

interpretation jl: linked link "\<lambda>p e. e\<lparr>link := p\<rparr>"
  by unfold_locales simp

text \<open>The job at an address, without its link.\<close>

definition job_at :: "(nat \<rightharpoonup> job_element) \<Rightarrow> nat \<Rightarrow> job_element" where
  "job_at s a = (the (s a))\<lparr>link := None\<rparr>"

definition head_opt :: "'a list \<Rightarrow> 'a option" where
  "head_opt xs = (case xs of [] \<Rightarrow> None | x # _ \<Rightarrow> Some x)"

lemma head_opt_simps [simp]: "head_opt [] = None" "head_opt (x # xs) = Some x"
  by (simp_all add: head_opt_def)

text \<open>
  A list holds the jobs \<open>xs @ ys\<close>, with the iterator at the first of \<open>ys\<close>; its elements are exactly what
  is allocated.
\<close>

definition job_rel :: "job_list \<Rightarrow> job_element list \<Rightarrow> job_element list \<Rightarrow> bool" where
  "job_rel l xs ys \<longleftrightarrow> (\<exists>as bs. jl.path (store l) (head l) (as @ bs) None \<and> distinct (as @ bs) \<and> dom (store l) = set (as @ bs)
     \<and> current l = head_opt bs \<and> xs = map (job_at (store l)) as \<and> ys = map (job_at (store l)) bs)"

lemma job_relI:
  assumes "jl.path (store l) (head l) (as @ bs) None" "distinct (as @ bs)" "dom (store l) = set (as @ bs)" "current l = head_opt bs"
    "xs = map (job_at (store l)) as" "ys = map (job_at (store l)) bs"
  shows "job_rel l xs ys"
  unfolding job_rel_def by (intro exI [of _ as] exI [of _ bs] conjI) (fact assms)+

lemma job_relE:
  assumes "job_rel l xs ys"
  obtains as bs where "jl.path (store l) (head l) (as @ bs) None" "distinct (as @ bs)" "dom (store l) = set (as @ bs)"
    "current l = head_opt bs" "xs = map (job_at (store l)) as" "ys = map (job_at (store l)) bs"
  using assms unfolding job_rel_def by blast

text \<open>The operations on the pair of sequences.\<close>

fun spec_add :: "job_element \<Rightarrow> job_element list \<times> job_element list \<Rightarrow> job_element list \<times> job_element list" where
  "spec_add x (xs, ys) = (if xs = [] \<and> ys = [] then ([], [x]) else if ys = [] then (xs @ [x], []) else (xs, ys @ [x]))"

fun remove_first :: "('a \<Rightarrow> bool) \<Rightarrow> 'a list \<Rightarrow> 'a list" where
  "remove_first q [] = []"
| "remove_first q (x # xs) = (if q x then xs else x # remove_first q xs)"

fun update_first :: "('a \<Rightarrow> bool) \<Rightarrow> ('a \<Rightarrow> 'a) \<Rightarrow> 'a list \<Rightarrow> 'a list" where
  "update_first q f [] = []"
| "update_first q f (x # xs) = (if q x then f x # xs else x # update_first q f xs)"

fun on_first :: "('a \<Rightarrow> bool) \<Rightarrow> ('a list \<Rightarrow> 'a list) \<Rightarrow> 'a list \<times> 'a list \<Rightarrow> 'a list \<times> 'a list" where
  "on_first q f (xs, ys) = (if \<exists>x \<in> set xs. q x then (f xs, ys) else (xs, f ys))"

section \<open>The loops\<close>

lemma seek_found:
  assumes "jl.path s cur (us @ a # vs) r" "\<forall>u \<in> set us. \<not> q (the (s u))" "q (the (s a))"
  shows "seek q s prev cur = Some (if us = [] then prev else Some (last us), Some a)"
  using assms
proof (induction us arbitrary: cur prev)
  case Nil
  then show ?case by (subst seek.simps) auto
next
  case (Cons u us)
  then show ?case by (subst seek.simps) auto
qed

lemma seek_absent:
  assumes "jl.path s cur as None" "\<forall>u \<in> set as. \<not> q (the (s u))"
  shows "\<exists>b. seek q s prev cur = Some (b, None)"
  using assms
proof (induction as arbitrary: cur prev)
  case Nil
  then show ?case by (subst seek.simps) auto
next
  case (Cons u us)
  then show ?case by (subst seek.simps) auto
qed

lemma last_element_path: "jl.path s (Some h) (as @ [a]) None \<Longrightarrow> last_element s h = Some a"
proof (induction as arbitrary: h)
  case Nil
  then show ?case by (subst last_element.simps) auto
next
  case (Cons b as)
  then obtain e where e: "h = b" "s b = Some e" "jl.path s (link e) (as @ [a]) None" by auto
  then obtain h' where "link e = Some h'" by (cases as) auto
  then show ?case using Cons.IH [of h'] e by (subst last_element.simps) auto
qed

lemma cleanup_loop_path:
  "jl.path s cur as None \<Longrightarrow> distinct as \<Longrightarrow> cleanup_loop s cur = Some (map (\<lambda>a. - pid (the (s a))) as, s |` (- set as))"
proof (induction as arbitrary: s cur)
  case Nil
  then show ?case by (subst cleanup_loop.simps) (auto simp: restrict_map_def)
next
  case (Cons a as)
  then obtain e where e: "cur = Some a" "s a = Some e" "jl.path s (link e) as None" by auto
  have "cleanup_loop (s(a := None)) (link e) = Some (map (\<lambda>b. - pid (the ((s(a := None)) b))) as, (s(a := None)) |` (- set as))"
    by (rule Cons.IH) (use Cons.prems(2) e(3) in \<open>simp_all add: jl.path_frame del: fun_upd_apply\<close>)
  moreover have "map (\<lambda>b. - pid (the ((s(a := None)) b))) as = map (\<lambda>b. - pid (the (s b))) as" using Cons.prems(2) by (auto simp: map_eq_conv)
  moreover have "(s(a := None)) |` (- set as) = s |` (- set (a # as))" by (auto simp: restrict_map_def)
  ultimately show ?case using e(1,2) by (subst cleanup_loop.simps) simp
qed

lemma jobs_loop_path:
  "jl.path s cur as None \<Longrightarrow> (\<forall>a \<in> set as. job_line (the (s a)) \<noteq> None) \<Longrightarrow> jobs_loop s cur = Some (map (\<lambda>a. the (job_line (the (s a)))) as)"
proof (induction as arbitrary: cur)
  case Nil
  then show ?case by (subst jobs_loop.simps) auto
next
  case (Cons a as)
  then show ?case by (subst jobs_loop.simps) auto
qed

section \<open>The operations on the sequence\<close>

lemma find_first:
  "(\<exists>x \<in> set xs. q x) \<Longrightarrow> \<exists>us a vs. xs = us @ a # vs \<and> q a \<and> (\<forall>u \<in> set us. \<not> q u)"
  using split_list_first_prop [of xs q] by blast

lemma job_at_upd [simp]: "b \<noteq> a \<Longrightarrow> job_at (s(a := x)) b = job_at s b" "job_at (s(a \<mapsto> e)) a = e\<lparr>link := None\<rparr>"
  by (simp_all add: job_at_def)

lemma map_job_at: "a \<notin> set as \<Longrightarrow> map (job_at (s(a := x))) as = map (job_at s) as"
  by (auto simp: job_at_def)

lemma map_job_at_link: "s b = Some f \<Longrightarrow> map (job_at (s(b \<mapsto> f\<lparr>link := p\<rparr>))) as = map (job_at s) as"
  by (auto simp: map_eq_conv job_at_def)

lemma add_job_rel:
  assumes rel: "job_rel l xs ys" and new: "store l new = None"
    and x: "x = \<lparr>jid = j, pid = p, state = st, command = cmd, link = None\<rparr>"
  shows "\<exists>l'. add_job new (Some l) j p (Some st) (Some cmd) = Some (0, Some l') \<and> case_prod (job_rel l') (spec_add x (xs, ys))"
proof -
  obtain as bs where r: "jl.path (store l) (head l) (as @ bs) None" "distinct (as @ bs)" "dom (store l) = set (as @ bs)"
     "current l = head_opt bs" "xs = map (job_at (store l)) as" "ys = map (job_at (store l)) bs" by (rule job_relE [OF rel])
  let ?s = "(store l)(new \<mapsto> x)"
  have n: "new \<notin> set as" "new \<notin> set bs" using new r(3) by (auto simp: domIff)
  show ?thesis
  proof (cases "as @ bs" rule: rev_cases)
    case Nil
    then have "head l = None" using r(1) by auto
    moreover have "job_rel (l\<lparr>head := Some new, current := Some new, store := ?s\<rparr>) [] [x]"
      unfolding job_rel_def using Nil r(3) by (intro exI [of _ "[]"] exI [of _ "[new]"]) (auto simp: x)
    ultimately show ?thesis using Nil r(5,6) by (simp add: add_job_def x [symmetric])
  next
    case (snoc cs a)
    then obtain h where h: "head l = Some h" using r(1) by (cases "as @ bs"; cases cs) auto
    have p: "jl.path ?s (Some h) (cs @ [a]) None" using r(1) n h unfolding snoc [symmetric] by (simp add: jl.path_frame)
    obtain e where e: "store l a = Some e" using r(1) unfolding snoc by (auto simp: jl.path_snoc)
    have an: "a \<noteq> new" "new \<notin> set cs" using n arg_cong [OF snoc, of set] by auto
    let ?l = "l\<lparr>store := ?s(a \<mapsto> e\<lparr>link := Some new\<rparr>)\<rparr>"
    have add: "add_job new (Some l) j p (Some st) (Some cmd) = Some (0, Some ?l)"
      using h last_element_path [OF p] e an by (simp add: add_job_def x [symmetric])
    have path: "jl.path (store ?l) (head ?l) (as @ bs @ [new]) None"
    proof -
      have eq: "as @ bs @ [new] = cs @ [a, new]" using arg_cong [OF snoc, of "\<lambda>cs. cs @ [new]"] by simp
      show ?thesis unfolding eq using jl.path_add [of "store l" "head l" cs a new e x] r(1,2) an e x unfolding snoc by simp
    qed
    have dom: "dom (store ?l) = set (as @ bs @ [new])" 
    proof -
      have "a \<in> dom (store l)" using e by auto
      then show ?thesis using r(3) by auto
    qed
    have m': "map (job_at (store ?l)) zs = map (job_at (store l)) zs" if "new \<notin> set zs" for zs
      using that e by (auto simp: job_at_def)
    have m: "map (job_at (store ?l)) as = xs" "map (job_at (store ?l)) bs = ys" "job_at (store ?l) new = x"
      unfolding m' [OF n(1)] m' [OF n(2)] using an(1) r(5,6) x by simp_all
    have ne: "\<not> (xs = [] \<and> ys = [])" using snoc r(5,6) by auto
    have d: "distinct (as @ bs @ [new])" using r(2) n by auto
    have c: "current ?l = current l" "head ?l = head l" by simp_all
    show ?thesis
    proof (cases "bs = []")
      case True
      have "job_rel ?l (xs @ [x]) []"
        by (rule job_relI [of _ "as @ [new]" "[]"]) (use path dom m d True r(4) c in \<open>simp_all del: job_list.simps\<close>)
      then show ?thesis using add ne True r(6) by auto
    next
      case False
      then have "head_opt (bs @ [new]) = head_opt bs" by (cases bs) auto
      then have "job_rel ?l xs (ys @ [x])"
        by (intro job_relI [of _ as "bs @ [new]"]) (use path dom m d r(4) c in \<open>simp_all del: job_list.simps\<close>)
      then show ?thesis using add ne False r(6) by auto
    qed
  qed
qed

text \<open>The first job with a property, found from the head, and the same in the two parts.\<close>

lemma first_job:
  assumes q: "\<And>e p. q (e\<lparr>link := p\<rparr>) = q e" and x: "\<exists>x \<in> set (map (job_at s) as). q x"
  obtains us a vs where "as = us @ a # vs" "q (the (s a))" "\<forall>u \<in> set us. \<not> q (the (s u))"
proof -
  have "\<exists>a \<in> set as. q (the (s a))" using x q by (auto simp: job_at_def)
  then show ?thesis using find_first [of as "\<lambda>a. q (the (s a))"] that by blast
qed

lemma no_job: "(\<And>e p. q (e\<lparr>link := p\<rparr>) = q e) \<Longrightarrow> \<not> (\<exists>x \<in> set (map (job_at s) as). q x) \<Longrightarrow> \<forall>u \<in> set as. \<not> q (the (s u))"
  by (auto simp: job_at_def)

lemma seek_no_job:
  assumes q: "\<And>e p. q (e\<lparr>link := p\<rparr>) = q e" and "jl.path s h as None" "\<not> (\<exists>x \<in> set (map (job_at s) as). q x)"
  obtains b where "seek q s None h = Some (b, None)"
  using seek_absent [of s h as q None] no_job [of q s as] assms by blast

lemma on_first_parts:
  assumes q: "\<And>e p. q (e\<lparr>link := p\<rparr>) = q e" and d: "distinct (as @ bs)" and c: "as @ bs = us @ a # vs"
    and a: "q (the (s a))" "\<forall>u \<in> set us. \<not> q (the (s u))"
  shows "on_first q (remove_first q) (map (job_at s) as, map (job_at s) bs) = (map (job_at s) (remove1 a as), map (job_at s) (remove1 a bs))
    \<and> on_first q (update_first q f) (map (job_at s) as, map (job_at s) bs) =
       (map ((job_at s)(a := f (job_at s a))) as, map ((job_at s)(a := f (job_at s a))) bs)
    \<and> List.find q (map (job_at s) as @ map (job_at s) bs) = Some (job_at s a)"
proof -
  have n: "q (job_at s u) \<longleftrightarrow> q (the (s u))" for u by (simp add: job_at_def q)
  have R: "remove_first q (map (job_at s) (xs @ a # ys)) = map (job_at s) (xs @ ys)"
    "update_first q f (map (job_at s) (xs @ a # ys)) = map ((job_at s)(a := f (job_at s a))) (xs @ a # ys)"
    if "set xs \<subseteq> set us" "a \<notin> set xs" "a \<notin> set ys" for xs ys
    using that a by (induction xs) (auto simp: n)
  have m: "map ((job_at s)(a := y)) zs = map (job_at s) zs" if "a \<notin> set zs" for y zs using that by auto
  have find: "List.find q (map (job_at s) (us @ a # vs)) = Some (job_at s a)" using a by (induction us) (auto simp: n)
  then have find: "List.find q (map (job_at s) as @ map (job_at s) bs) = Some (job_at s a)" using c by (metis map_append)
  consider ws where "as = us @ a # ws" "vs = ws @ bs" | ws where "us = as @ ws" "bs = ws @ a # vs"
    using c by (auto simp: append_eq_append_conv2 append_eq_Cons_conv Cons_eq_append_conv)
  then show ?thesis
  proof cases
    case 1
    then have k: "a \<notin> set us" "a \<notin> set ws" "a \<notin> set bs" using d by auto
    have "\<exists>x \<in> set (map (job_at s) as). q x" using a(1) 1 by (auto simp: n)
    then show ?thesis using R [of us ws] 1 k m [of bs] find by (simp add: remove1_append remove1_idem del: map_append)
  next
    case 2
    then have k: "a \<notin> set as" "a \<notin> set ws" "a \<notin> set vs" using d by auto
    have "\<not> (\<exists>x \<in> set (map (job_at s) as). q x)" using a(2) 2 by (auto simp: n)
    then show ?thesis using R [of ws vs] 2 k m [of as] find by (simp add: remove1_append remove1_idem del: map_append)
  qed
qed

lemma on_first_none:
  assumes "\<not> (\<exists>x \<in> set (xs @ ys). q x)"
  shows "on_first q (remove_first q) (xs, ys) = (xs, ys)" "on_first q (update_first q f) (xs, ys) = (xs, ys)"
proof -
  have "remove_first q ys = ys \<and> update_first q f ys = ys" using assms by (induction ys) auto
  then show "on_first q (remove_first q) (xs, ys) = (xs, ys)" "on_first q (update_first q f) (xs, ys) = (xs, ys)" using assms by auto
qed

lemma find_Some: "List.find q xs = Some x \<Longrightarrow> \<exists>x \<in> set xs. q x"
  by (induction xs) (auto split: if_splits)

text \<open>Removing the element at an address.\<close>

lemma unlink_path:
  assumes p: "jl.path s h (us @ a # vs) None" and d: "distinct (us @ a # vs)" and e: "s a = Some e"
    and b: "us \<noteq> [] \<Longrightarrow> s (last us) = Some f"
    and s': "s' = (if us = [] then s else s(last us \<mapsto> f\<lparr>link := link e\<rparr>))(a := None)"
  shows "jl.path s' (if h = Some a then link e else h) (us @ vs) None" "dom s' = dom s - {a}"
    "\<And>u. u \<noteq> a \<Longrightarrow> job_at s' u = job_at s u"
proof -
  show "jl.path s' (if h = Some a then link e else h) (us @ vs) None"
  proof (cases us rule: rev_cases)
    case Nil
    have "jl.path (s(a := None)) (link e) vs None" by (rule jl.path_unlink_first) (use p d e Nil in simp_all)
    then show ?thesis using p Nil s' by (simp del: fun_upd_apply)
  next
    case (snoc ws w)
    have "jl.path ((s(w \<mapsto> f\<lparr>link := link e\<rparr>))(a := None)) h (ws @ w # vs) None"
      by (rule jl.path_unlink) (use p d e b snoc in simp_all)
    moreover have "h \<noteq> Some a" using p d snoc by (cases ws) auto
    ultimately show ?thesis using snoc s' by (simp del: fun_upd_apply)
  qed
  show "dom s' = dom s - {a}" using s' b by (auto split: if_splits)
  show "job_at s' u = job_at s u" if "u \<noteq> a" for u using that s' b by (auto simp: job_at_def)
qed

lemma remove_job_rel:
  assumes q: "\<And>e p. q (e\<lparr>link := p\<rparr>) = q e" and rel: "job_rel l xs ys"
  shows "\<exists>l'. remove_job q (Some l) = Some (if \<exists>x \<in> set (xs @ ys). q x then 0 else - 1, Some l')
    \<and> case_prod (job_rel l') (on_first q (remove_first q) (xs, ys))"
proof -
  obtain as bs where r: "jl.path (store l) (head l) (as @ bs) None" "distinct (as @ bs)" "dom (store l) = set (as @ bs)"
     "current l = head_opt bs" "xs = map (job_at (store l)) as" "ys = map (job_at (store l)) bs" by (rule job_relE [OF rel])
  have m: "xs @ ys = map (job_at (store l)) (as @ bs)" using r(5,6) by simp
  show ?thesis
  proof (cases "\<exists>x \<in> set (xs @ ys). q x")
    case False
    then obtain b where "seek q (store l) None (head l) = Some (b, None)"
      using seek_no_job [where q = q, OF q r(1)] unfolding m by blast
    then show ?thesis using False rel on_first_none(1) [OF False] by (simp add: remove_job_def)
  next
    case True
    then obtain us a vs where u: "as @ bs = us @ a # vs" "q (the (store l a))" "\<forall>u \<in> set us. \<not> q (the (store l u))"
      unfolding m by (rule first_job [OF q])
    note P = on_first_parts [OF q r(2) u]
    note path = r(1) [unfolded u(1)] and dist = r(2) [unfolded u(1)]
    have "a \<in> dom (store l)" "us \<noteq> [] \<Longrightarrow> last us \<in> dom (store l)" using r(3) u(1) by auto
    then obtain e f where e: "store l a = Some e" and f: "us \<noteq> [] \<Longrightarrow> store l (last us) = Some f" by (metis domD)
    define s' where "s' = (if us = [] then store l else (store l)(last us \<mapsto> f\<lparr>link := link e\<rparr>))(a := None)"
    define l' where "l' = l\<lparr>head := (if head l = Some a then link e else head l),
        current := (if current l = Some a then link e else current l), store := s'\<rparr>"
    note U = unlink_path [OF path dist e f s'_def]
    have rem: "remove_job q (Some l) = Some (0, Some l')"
      using seek_found [OF path u(3,2), of None] e f by (cases "us = []") (auto simp: remove_job_def l'_def s'_def)
    have cs: "remove1 a as @ remove1 a bs = us @ vs"
    proof -
      have "remove1 a (as @ bs) = us @ vs" using dist unfolding u(1) by (simp add: remove1_append)
      moreover have "a \<in> set as \<Longrightarrow> a \<notin> set bs" using r(2) by auto
      ultimately show ?thesis by (cases "a \<in> set as") (auto simp: remove1_append remove1_idem)
    qed
    have same: "map (job_at s') (remove1 a zs) = map (job_at (store l)) (remove1 a zs)" if "distinct zs" for zs
      using U(3) that by (auto simp: map_eq_conv)
    have cur: "current l' = head_opt (remove1 a bs)"
    proof (cases "current l = Some a")
      case True
      then obtain bs' where "bs = a # bs'" using r(4) by (cases bs) auto
      then have "link e = head_opt bs'" using r(1) e by (cases bs') (auto simp: jl.path_split)
      then show ?thesis using True \<open>bs = a # bs'\<close> by (simp add: l'_def)
    next
      case False
      then show ?thesis using r(4) by (cases bs) (auto simp: l'_def)
    qed
    have "job_rel l' (map (job_at (store l)) (remove1 a as)) (map (job_at (store l)) (remove1 a bs))"
    proof (rule job_relI [of _ "remove1 a as" "remove1 a bs"])
      show "jl.path (store l') (head l') (remove1 a as @ remove1 a bs) None" unfolding cs using U(1) by (simp add: l'_def)
      show "distinct (remove1 a as @ remove1 a bs)" unfolding cs using dist by auto
      show "dom (store l') = set (remove1 a as @ remove1 a bs)" unfolding cs using U(2) r(3) dist u(1) by (auto simp: l'_def)
    qed (use cur same [of as] same [of bs] r(2) in \<open>auto simp: l'_def\<close>)
    then show ?thesis using rem P True r(5,6) by simp
  qed
qed

lemma update_job_rel:
  assumes q: "\<And>e p. q (e\<lparr>link := p\<rparr>) = q e" and rel: "job_rel l xs ys"
  shows "\<exists>l'. update_job q (Some l) st = Some (if \<exists>x \<in> set (xs @ ys). q x then 0 else - 1, Some l')
    \<and> case_prod (job_rel l') (on_first q (update_first q (\<lambda>e. e\<lparr>state := st\<rparr>)) (xs, ys))"
proof -
  obtain as bs where r: "jl.path (store l) (head l) (as @ bs) None" "distinct (as @ bs)" "dom (store l) = set (as @ bs)"
     "current l = head_opt bs" "xs = map (job_at (store l)) as" "ys = map (job_at (store l)) bs" by (rule job_relE [OF rel])
  have m: "xs @ ys = map (job_at (store l)) (as @ bs)" using r(5,6) by simp
  show ?thesis
  proof (cases "\<exists>x \<in> set (xs @ ys). q x")
    case False
    then obtain b where "seek q (store l) None (head l) = Some (b, None)"
      using seek_no_job [where q = q, OF q r(1)] unfolding m by blast
    then show ?thesis using False rel on_first_none(2) [OF False] by (simp add: update_job_def)
  next
    case True
    then obtain us a vs where u: "as @ bs = us @ a # vs" "q (the (store l a))" "\<forall>u \<in> set us. \<not> q (the (store l u))"
      unfolding m by (rule first_job [OF q])
    note P = on_first_parts [OF q r(2) u, of "\<lambda>e. e\<lparr>state := st\<rparr>"]
    note path = r(1) [unfolded u(1)]
    have "a \<in> dom (store l)" using r(3) u(1) by auto
    then obtain e where e: "store l a = Some e" by blast
    define s' where "s' = (store l)(a \<mapsto> e\<lparr>state := st\<rparr>)"
    have upd: "update_job q (Some l) st = Some (0, Some (l\<lparr>store := s'\<rparr>))"
      using seek_found [OF path u(3,2), of None] e by (simp add: update_job_def s'_def)
    have same: "job_at s' = (job_at (store l))(a := (job_at (store l) a)\<lparr>state := st\<rparr>)"
      using e by (auto simp: job_at_def s'_def fun_eq_iff)
    have "job_rel (l\<lparr>store := s'\<rparr>) (map (job_at s') as) (map (job_at s') bs)"
    proof (rule job_relI [of _ as bs])
      show "jl.path (store (l\<lparr>store := s'\<rparr>)) (head (l\<lparr>store := s'\<rparr>)) (as @ bs) None"
        using jl.path_update [OF r(1) e, of "e\<lparr>state := st\<rparr>"] by (simp add: s'_def)
      show "dom (store (l\<lparr>store := s'\<rparr>)) = set (as @ bs)" using r(3) e by (auto simp: s'_def)
    qed (use r(2,4) in simp_all)
    then show ?thesis using upd P True r(5,6) same by simp
  qed
qed

lemma get_job_rel:
  assumes q: "\<And>e p. q (e\<lparr>link := p\<rparr>) = q e" and f: "\<And>e p. f (e\<lparr>link := p\<rparr>) = f e" and rel: "job_rel l xs ys"
  shows "get_job q f (Some l) = Some (case List.find q (xs @ ys) of None \<Rightarrow> - 1 | Some x \<Rightarrow> f x)"
proof -
  obtain as bs where r: "jl.path (store l) (head l) (as @ bs) None" "distinct (as @ bs)" "dom (store l) = set (as @ bs)"
     "current l = head_opt bs" "xs = map (job_at (store l)) as" "ys = map (job_at (store l)) bs" by (rule job_relE [OF rel])
  have m: "xs @ ys = map (job_at (store l)) (as @ bs)" using r(5,6) by simp
  show ?thesis
  proof (cases "\<exists>x \<in> set (xs @ ys). q x")
    case False
    then obtain b where "seek q (store l) None (head l) = Some (b, None)"
      using seek_no_job [where q = q, OF q r(1)] unfolding m by blast
    moreover have "List.find q (xs @ ys) = None" using False by (auto simp: find_None_iff)
    ultimately show ?thesis by (simp add: get_job_def)
  next
    case True
    then obtain us a vs where u: "as @ bs = us @ a # vs" "q (the (store l a))" "\<forall>u \<in> set us. \<not> q (the (store l u))"
      unfolding m by (rule first_job [OF q])
    note P = on_first_parts [OF q r(2) u]
    have "a \<in> dom (store l)" using r(3) u(1) by auto
    then obtain e where e: "store l a = Some e" by blast
    then show ?thesis using seek_found [OF r(1) [unfolded u(1)] u(3,2), of None] P r(5,6) by (simp add: get_job_def job_at_def f)
  qed
qed

lemma get_next_pid_rel:
  assumes rel: "job_rel l xs ys"
  shows "\<exists>l'. get_next_pid (Some l) = Some (case ys of [] \<Rightarrow> - 1 | y # _ \<Rightarrow> pid y, Some l')
    \<and> (case ys of [] \<Rightarrow> job_rel l' [] xs | y # ys' \<Rightarrow> job_rel l' (xs @ [y]) ys')"
proof -
  obtain as bs where r: "jl.path (store l) (head l) (as @ bs) None" "distinct (as @ bs)" "dom (store l) = set (as @ bs)"
     "current l = head_opt bs" "xs = map (job_at (store l)) as" "ys = map (job_at (store l)) bs" by (rule job_relE [OF rel])
  show ?thesis
  proof (cases bs)
    case Nil
    have "job_rel (l\<lparr>current := head l\<rparr>) [] xs"
      by (rule job_relI [of _ "[]" as]) (use r Nil in \<open>auto simp: head_opt_def dest: jl.path_head\<close>)
    then show ?thesis using Nil r(4,6) by (simp add: get_next_pid_def)
  next
    case (Cons b bs')
    then obtain e where e: "store l b = Some e" "jl.path (store l) (link e) bs' None" using r(1) by (auto simp: jl.path_split)
    have "job_rel (l\<lparr>current := link e\<rparr>) (xs @ [job_at (store l) b]) (map (job_at (store l)) bs')"
      by (rule job_relI [of _ "as @ [b]" bs']) (use r(1-3,5) Cons e jl.path_head [OF e(2)] in \<open>simp_all add: head_opt_def\<close>)
    then show ?thesis using Cons r(4,6) e by (simp add: get_next_pid_def job_at_def)
  qed
qed

section \<open>Calls\<close>

text \<open>The calls of the interface, on the linked list and on the sequence. An addition carries the address that \<^verbatim>\<open>malloc\<close> returns.\<close>

datatype job_call =
    Add_job nat int int string string
  | Remove_jid int | Remove_pid int
  | Update_jid int string | Update_pid int string
  | Get_pid int | Get_jid int | Next_pid

fun exec_call :: "job_call \<Rightarrow> job_list option \<Rightarrow> (int \<times> job_list option) option" where
  "exec_call (Add_job a j p st cmd) l = add_job a l j p (Some st) (Some cmd)"
| "exec_call (Remove_jid j) l = remove_job_jid l j"
| "exec_call (Remove_pid p) l = remove_job_pid l p"
| "exec_call (Update_jid j st) l = update_job_jid l j st"
| "exec_call (Update_pid p st) l = update_job_pid l p st"
| "exec_call (Get_pid j) l = map_option (\<lambda>r. (r, l)) (get_job_pid l j)"
| "exec_call (Get_jid p) l = map_option (\<lambda>r. (r, l)) (get_job_jid l p)"
| "exec_call Next_pid l = get_next_pid l"

fun found :: "('a \<Rightarrow> bool) \<Rightarrow> 'a list \<times> 'a list \<Rightarrow> int" where
  "found q (xs, ys) = (if \<exists>x \<in> set (xs @ ys). q x then 0 else - 1)"

fun lookup :: "('a \<Rightarrow> bool) \<Rightarrow> ('a \<Rightarrow> int) \<Rightarrow> 'a list \<times> 'a list \<Rightarrow> int" where
  "lookup q f (xs, ys) = (case List.find q (xs @ ys) of None \<Rightarrow> - 1 | Some x \<Rightarrow> f x)"

fun spec_next :: "job_element list \<times> job_element list \<Rightarrow> int \<times> job_element list \<times> job_element list" where
  "spec_next (xs, []) = (- 1, [], xs)"
| "spec_next (xs, y # ys) = (pid y, xs @ [y], ys)"

fun spec_call :: "job_call \<Rightarrow> job_element list \<times> job_element list \<Rightarrow> int \<times> job_element list \<times> job_element list" where
  "spec_call (Add_job a j p st cmd) z = (0, spec_add \<lparr>jid = j, pid = p, state = st, command = cmd, link = None\<rparr> z)"
| "spec_call (Remove_jid j) z = (found (\<lambda>e. jid e = j) z, on_first (\<lambda>e. jid e = j) (remove_first (\<lambda>e. jid e = j)) z)"
| "spec_call (Remove_pid p) z = (found (\<lambda>e. pid e = p) z, on_first (\<lambda>e. pid e = p) (remove_first (\<lambda>e. pid e = p)) z)"
| "spec_call (Update_jid j st) z =
     (found (\<lambda>e. jid e = j) z, on_first (\<lambda>e. jid e = j) (update_first (\<lambda>e. jid e = j) (\<lambda>e. e\<lparr>state := st\<rparr>)) z)"
| "spec_call (Update_pid p st) z =
     (found (\<lambda>e. pid e = p) z, on_first (\<lambda>e. pid e = p) (update_first (\<lambda>e. pid e = p) (\<lambda>e. e\<lparr>state := st\<rparr>)) z)"
| "spec_call (Get_pid j) z = (lookup (\<lambda>e. jid e = j) pid z, z)"
| "spec_call (Get_jid p) z = (lookup (\<lambda>e. pid e = p) jid z, z)"
| "spec_call Next_pid z = spec_next z"

fun new_address :: "job_call \<Rightarrow> job_list \<Rightarrow> bool" where
  "new_address (Add_job a j p st cmd) l \<longleftrightarrow> store l a = None"
| "new_address _ l \<longleftrightarrow> True"

lemma call_refines:
  assumes rel: "job_rel l xs ys" and new: "new_address c l"
  shows "\<exists>l'. exec_call c (Some l) = Some (fst (spec_call c (xs, ys)), Some l') \<and> case_prod (job_rel l') (snd (spec_call c (xs, ys)))"
proof (cases c)
  case (Add_job a j p st cmd)
  then show ?thesis using add_job_rel [OF rel _ refl, of a j p st cmd] new by simp
next
  case (Remove_jid j)
  then show ?thesis using remove_job_rel [OF _ rel, of "\<lambda>e. jid e = j"] by (simp add: remove_job_jid_def)
next
  case (Remove_pid p)
  then show ?thesis using remove_job_rel [OF _ rel, of "\<lambda>e. pid e = p"] by (simp add: remove_job_pid_def)
next
  case (Update_jid j st)
  then show ?thesis using update_job_rel [OF _ rel, of "\<lambda>e. jid e = j" st] by (simp add: update_job_jid_def)
next
  case (Update_pid p st)
  then show ?thesis using update_job_rel [OF _ rel, of "\<lambda>e. pid e = p" st] by (simp add: update_job_pid_def)
next
  case (Get_pid j)
  then show ?thesis using get_job_rel [OF _ _ rel, of "\<lambda>e. jid e = j" pid] rel by (simp add: get_job_pid_def)
next
  case (Get_jid p)
  then show ?thesis using get_job_rel [OF _ _ rel, of "\<lambda>e. pid e = p" jid] rel by (simp add: get_job_jid_def)
next
  case Next_pid
  then show ?thesis using get_next_pid_rel [OF rel] by (cases ys) simp_all
qed

text \<open>Sequences of calls; the addresses are chosen by an allocator \<open>malloc\<close> that never returns an address in use.\<close>

fun with_address :: "nat \<Rightarrow> job_call \<Rightarrow> job_call" where
  "with_address a (Add_job _ j p st cmd) = Add_job a j p st cmd"
| "with_address a c = c"

lemma new_address_with: "store l a = None \<Longrightarrow> new_address (with_address a c) l"
  by (cases c) simp_all

lemma spec_call_with: "spec_call (with_address a c) z = spec_call c z"
  by (cases c) simp_all

primrec exec_calls :: "((nat \<rightharpoonup> job_element) \<Rightarrow> nat) \<Rightarrow> job_call list \<Rightarrow> job_list option \<Rightarrow> (int list \<times> job_list option) option" where
  "exec_calls malloc [] l = Some ([], l)"
| "exec_calls malloc (c # cs) l = do {
     (r, l) \<leftarrow> exec_call (with_address (malloc (store (the l))) c) l;
     (rs, l) \<leftarrow> exec_calls malloc cs l;
     Some (r # rs, l)
   }"

primrec spec_calls :: "job_call list \<Rightarrow> job_element list \<times> job_element list \<Rightarrow> int list \<times> job_element list \<times> job_element list" where
  "spec_calls [] z = ([], z)"
| "spec_calls (c # cs) z = (let (r, z) = spec_call c z; (rs, z) = spec_calls cs z in (r # rs, z))"

lemma calls_refine:
  assumes malloc: "\<And>s. finite (dom s) \<Longrightarrow> s (malloc s) = None" and rel: "job_rel l xs ys"
  shows "\<exists>l'. exec_calls malloc cs (Some l) = Some (fst (spec_calls cs (xs, ys)), Some l') \<and> case_prod (job_rel l') (snd (spec_calls cs (xs, ys)))"
  using rel
proof (induction cs arbitrary: l xs ys)
  case (Cons c cs)
  obtain as bs where "dom (store l) = set (as @ bs)" by (rule job_relE [OF Cons.prems])
  then have "finite (dom (store l))" by simp
  then have "new_address (with_address (malloc (store l)) c) l" by (intro new_address_with malloc)
  from call_refines [OF Cons.prems this, unfolded spec_call_with]
  obtain l' where l': "exec_call (with_address (malloc (store l)) c) (Some l) = Some (fst (spec_call c (xs, ys)), Some l')"
    "case_prod (job_rel l') (snd (spec_call c (xs, ys)))" by (elim exE conjE)
  obtain r xs' ys' where z: "spec_call c (xs, ys) = (r, xs', ys')" by (cases "spec_call c (xs, ys)")
  have "job_rel l' xs' ys'" using l'(2) z by simp
  from Cons.IH [OF this] obtain l'' where l'': "exec_calls malloc cs (Some l') = Some (fst (spec_calls cs (xs', ys')), Some l'')"
    "case_prod (job_rel l'') (snd (spec_calls cs (xs', ys')))" by (elim exE conjE)
  have "exec_calls malloc (c # cs) (Some l) = Some (r # fst (spec_calls cs (xs', ys')), Some l'')" using l'(1) l''(1) z by simp
  moreover have "spec_calls (c # cs) (xs, ys) = (r # fst (spec_calls cs (xs', ys')), snd (spec_calls cs (xs', ys')))"
    using z by (simp add: split_beta)
  ultimately show ?case using l''(2) by simp
qed simp

lemma init_job_list_rel: "job_rel init_job_list [] []"
  by (rule job_relI [of _ "[]" "[]"]) (simp_all add: init_job_list_def)

section \<open>Theorems\<close>

text \<open>
  C19. From an empty list on, every sequence of calls on the linked list ends, follows no dangling
  pointer, returns what the calls on the sequence of jobs return and leaves a list that holds that
  sequence, with the iterator at the same place: additions go to the end, removals and updates change the
  first job with the number, lookups find it, and the iterator runs through the jobs and starts again.
\<close>

theorem job_list_refines_sequence:
  assumes "\<And>s. finite (dom s) \<Longrightarrow> s (malloc s) = None"
  shows "\<exists>l'. exec_calls malloc cs (Some init_job_list) = Some (fst (spec_calls cs ([], [])), Some l')
    \<and> case_prod (job_rel l') (snd (spec_calls cs ([], [])))"
  using calls_refine [OF assms init_job_list_rel] .

definition first_free :: "(nat \<rightharpoonup> 'a) \<Rightarrow> nat" where
  "first_free s = Suc (Max (insert 0 (dom s)))"

lemma first_free_new: "finite (dom s) \<Longrightarrow> s (first_free s) = None"
proof -
  assume f: "finite (dom s)"
  have "first_free s \<notin> dom s"
  proof
    assume "first_free s \<in> dom s"
    then have "first_free s \<le> Max (insert 0 (dom s))" using f by (intro Max_ge) auto
    then show False by (simp add: first_free_def)
  qed
  then show ?thesis by auto
qed

theorem job_list_refines_sequence_witness:
  "\<exists>l'. exec_calls first_free [Add_job 0 1 10 ''Running'' ''a'', Add_job 0 2 20 ''Running'' ''b'', Next_pid, Remove_jid 1, Next_pid, Next_pid, Get_pid 2, Get_pid 1]
      (Some init_job_list) = Some ([0, 0, 10, 0, 20, - 1, 20, - 1], Some l')
    \<and> job_rel l' [] [\<lparr>jid = 2, pid = 20, state = ''Running'', command = ''b'', link = None\<rparr>]"
proof -
  let ?cs = "[Add_job 0 1 10 ''Running'' ''a'', Add_job 0 2 20 ''Running'' ''b'', Next_pid, Remove_jid 1, Next_pid, Next_pid, Get_pid 2, Get_pid 1]"
  have "\<exists>l'. exec_calls first_free ?cs (Some init_job_list) = Some (fst (spec_calls ?cs ([], [])), Some l')
    \<and> case_prod (job_rel l') (snd (spec_calls ?cs ([], [])))"
    by (rule job_list_refines_sequence) (rule first_free_new)
  then show ?thesis by (simp del: exec_calls.simps)
qed

lemma jobs_lines:
  assumes rel: "job_rel l xs ys" and fit: "\<forall>x \<in> set (xs @ ys). job_line x \<noteq> None"
  shows "jobs (Some l) = Some (map (\<lambda>x. the (job_line x)) (xs @ ys))"
proof -
  obtain as bs where r: "jl.path (store l) (head l) (as @ bs) None" "distinct (as @ bs)" "dom (store l) = set (as @ bs)"
     "current l = head_opt bs" "xs = map (job_at (store l)) as" "ys = map (job_at (store l)) bs" by (rule job_relE [OF rel])
  have m: "xs @ ys = map (job_at (store l)) (as @ bs)" using r(5,6) by simp
  have line: "job_line (job_at (store l) a) = job_line (the (store l a))" for a by (simp add: job_line_def job_at_def)
  have "\<forall>a \<in> set (as @ bs). job_line (the (store l a)) \<noteq> None" using fit unfolding m by (simp add: ball_Un line [symmetric])
  from jobs_loop_path [OF r(1) this] show ?thesis unfolding m jobs_def by (simp add: line comp_def)
qed

text \<open>
  The \<^verbatim>\<open>jobs\<close> command writes one complete line per job in order when no line is longer than the
  buffer, and \<^verbatim>\<open>cleanup_job_list\<close> kills the process group of every job once and leaves nothing allocated.
\<close>

theorem jobs_and_cleanup_cover_list:
  assumes "job_rel l xs ys"
  shows "cleanup_job_list (Some l) = Some (map (\<lambda>x. - pid x) (xs @ ys), Map.empty)
    \<and> ((\<forall>x \<in> set (xs @ ys). job_line x \<noteq> None) \<longrightarrow> jobs (Some l) = Some (map (\<lambda>x. the (job_line x)) (xs @ ys)))"
proof -
  obtain as bs where r: "jl.path (store l) (head l) (as @ bs) None" "distinct (as @ bs)" "dom (store l) = set (as @ bs)"
     "current l = head_opt bs" "xs = map (job_at (store l)) as" "ys = map (job_at (store l)) bs" by (rule job_relE [OF assms])
  have m: "xs @ ys = map (job_at (store l)) (as @ bs)" using r(5,6) by simp
  have "store l |` (- set (as @ bs)) = Map.empty" using r(3) by (auto simp: restrict_map_def fun_eq_iff domIff)
  moreover have "map (\<lambda>a. - pid (the (store l a))) (as @ bs) = map (\<lambda>x. - pid x) (xs @ ys)" unfolding m by (simp add: job_at_def)
  ultimately have "cleanup_job_list (Some l) = Some (map (\<lambda>x. - pid x) (xs @ ys), Map.empty)"
    using cleanup_loop_path [OF r(1,2)] by (simp add: cleanup_job_list_def)
  moreover note jobs_lines [OF assms]
  ultimately show ?thesis by blast
qed

definition example_jobs :: job_list where
  "example_jobs = \<lparr>head = Some 1, current = Some 2, store =
     [1 \<mapsto> \<lparr>jid = 1, pid = 10, state = ''Running'', command = ''a'', link = Some 2\<rparr>,
      2 \<mapsto> \<lparr>jid = 2, pid = 20, state = ''Stopped'', command = ''b'', link = None\<rparr>]\<rparr>"

lemma example_jobs_rel: "job_rel example_jobs [\<lparr>jid = 1, pid = 10, state = ''Running'', command = ''a'', link = None\<rparr>]
    [\<lparr>jid = 2, pid = 20, state = ''Stopped'', command = ''b'', link = None\<rparr>]"
  by (rule job_relI [of _ "[1]" "[2]"]) (auto simp: example_jobs_def job_at_def)

theorem jobs_and_cleanup_cover_list_witness:
  "cleanup_job_list (Some example_jobs) = Some ([- 10, - 20], Map.empty)
    \<and> jobs (Some example_jobs) = Some [''[1] (10) Running a'' @ [newline], ''[2] (20) Stopped b'' @ [newline]]"
  using jobs_and_cleanup_cover_list [OF example_jobs_rel] by (simp add: job_line_def print_d_def decimal.simps char_of_def bit_0 Let_def)

end
