(* ===== verification/Shell.thy ===== *)
theory Shell
  imports JobsCorrect
begin

text \<open>
  Job control in the shell, \<^verbatim>\<open>src/shell_2/reap.c\<close>, \<^verbatim>\<open>src/shell_2/executes.c\<close> and the parent's side of
  \<^verbatim>\<open>fork_process\<close> in \<^verbatim>\<open>src/shell_2/sh.c\<close>. What the operating system answers is a parameter; what the
  shell asks of it and writes is a sequence of actions.
\<close>

section \<open>The state of the shell\<close>

datatype wstatus = Stopped_by int | Signaled_by int | Exited_with int | Continued | Other_status

datatype waited = Changed wstatus | Unchanged | Wait_failed

datatype action = Output int string | Perror string | Kill int | Killpg int | Tcsetpgrp int | Ignore_SIGTTOU
  | Chdir string | Unlink_file string | Link_file string string

record system =
  waitpid_poll :: "int \<Rightarrow> waited"
  waitpid_block :: "int \<Rightarrow> waited"
  killpg :: "int \<Rightarrow> int"
  tcsetpgrp :: "int \<Rightarrow> int"
  chdir :: "string \<Rightarrow> int"
  unlink_file :: "string \<Rightarrow> int"
  link_file :: "string \<Rightarrow> string \<Rightarrow> int"
  getcwd :: "string option"
  prompt :: bool

record shell =
  aloj :: "job_list option"
  shellpid :: int
  job_id :: int
  actions :: "action list"

definition act :: "action \<Rightarrow> shell \<Rightarrow> shell" where
  "act a sh = sh\<lparr>actions := actions sh @ [a]\<rparr>"

definition output_msg :: "int \<Rightarrow> string \<Rightarrow> shell \<Rightarrow> shell" where
  "output_msg fd msg sh = act (Output fd (msg @ [newline])) sh"

definition job_tag :: "int \<Rightarrow> int \<Rightarrow> string" where
  "job_tag j p = ''['' @ print_d j @ ''] ('' @ print_d p @ '')''"

text \<open>Updating and removing the job of a process, with the message when there is none.\<close>

definition set_state :: "int \<Rightarrow> int \<Rightarrow> string \<Rightarrow> shell \<Rightarrow> (bool \<times> shell) option" where
  "set_state j p st sh = do {
     (r, l) \<leftarrow> update_job_pid (aloj sh) p st;
     let sh = sh\<lparr>aloj := l\<rparr>;
     Some (if r < 0 then (False, output_msg 2 (job_tag j p @ '' could not be updated'') sh) else (True, sh))
   }"

definition drop_job :: "int \<Rightarrow> int \<Rightarrow> int \<Rightarrow> shell \<Rightarrow> shell option" where
  "drop_job j p shown sh = do {
     (r, l) \<leftarrow> remove_job_pid (aloj sh) p;
     let sh = sh\<lparr>aloj := l\<rparr>;
     Some (if r < 0 then output_msg 2 (job_tag j shown @ '' could not be removed from job list'') sh else sh)
   }"

section \<open>Reaping\<close>

definition reap_help :: "system \<Rightarrow> int \<Rightarrow> shell \<Rightarrow> shell option" where
  "reap_help sys p sh = do {
     j \<leftarrow> get_job_jid (aloj sh) p;
     if j < 0 then Some (output_msg 2 (''reap: could not find jid '' @ print_d j) sh)
     else (case waitpid_poll sys p of
         Changed (Stopped_by sig) \<Rightarrow> do {
           (_, sh) \<leftarrow> set_state j p STATE_STOPPED sh;
           Some (output_msg 1 (job_tag j p @ '' suspended by signal '' @ print_d sig) sh)
         }
       | Changed (Signaled_by sig) \<Rightarrow> drop_job j p p (output_msg 1 (job_tag j p @ '' terminated by signal '' @ print_d sig) sh)
       | Changed (Exited_with code) \<Rightarrow> drop_job j p p (output_msg 1 (job_tag j p @ '' terminated with exit status '' @ print_d code) sh)
       | Changed Continued \<Rightarrow> map_option snd (set_state j p STATE_RUNNING (output_msg 1 (job_tag j p @ '' resumed'') sh))
       | Changed Other_status \<Rightarrow> Some (output_msg 2 (''reap: unkown pid '' @ print_d p) sh)
       | Unchanged \<Rightarrow> Some sh
       | Wait_failed \<Rightarrow> Some (if prompt sys then act (Perror ''error reap'') sh else sh))
   }"

partial_function (option) reap_loop :: "system \<Rightarrow> int \<Rightarrow> shell \<Rightarrow> shell option" where
  "reap_loop sys p sh =
     (if p > 0 then do {
        sh' \<leftarrow> reap_help sys p sh;
        r \<leftarrow> get_next_pid (aloj sh');
        reap_loop sys (fst r) (sh'\<lparr>aloj := snd r\<rparr>)
      } else Some sh)"

definition reap :: "system \<Rightarrow> shell \<Rightarrow> shell option" where
  "reap sys sh = do { r \<leftarrow> get_next_pid (aloj sh); reap_loop sys (fst r) (sh\<lparr>aloj := snd r\<rparr>) }"

definition child_changed :: "waited \<Rightarrow> int \<Rightarrow> int \<Rightarrow> shell \<Rightarrow> shell option" where
  "child_changed w j p sh = (case w of
       Changed (Exited_with code) \<Rightarrow> drop_job j p code sh
     | Changed (Signaled_by sig) \<Rightarrow> drop_job j p p (output_msg 1 (job_tag j p @ '' terminated by signal '' @ print_d sig) sh)
     | Changed (Stopped_by sig) \<Rightarrow> map_option snd (set_state j p STATE_STOPPED (output_msg 1 (job_tag j p @ '' suspended by signal '' @ print_d sig) sh))
     | _ \<Rightarrow> Some sh)"

definition wait_child :: "system \<Rightarrow> int \<Rightarrow> shell \<Rightarrow> shell option" where
  "wait_child sys p sh = do {
     j \<leftarrow> get_job_jid (aloj sh) p;
     sh \<leftarrow> child_changed (waitpid_block sys p) j p sh;
     let sh = act (Tcsetpgrp (shellpid sh)) sh;
     let sh = (if tcsetpgrp sys (shellpid sh) < 0 then act (Perror ''error changing group process'') sh else sh);
     Some (act Ignore_SIGTTOU sh)
   }"

section \<open>Commands\<close>

text \<open>
  The arguments of a command are the words at the indices in \<^verbatim>\<open>argc\<close>. Reading an index behind them has
  no value.
\<close>

definition bg :: "system \<Rightarrow> string list \<Rightarrow> shell \<Rightarrow> shell option" where
  "bg sys args sh =
     (if length args \<noteq> 2 then Some (output_msg 2 ''bg: syntax error'' sh)
      else if take 1 (args ! 1) \<noteq> ''%'' then Some (output_msg 2 ''bg: job input does not begin with %'' sh)
      else do {
        n \<leftarrow> atoi (drop 1 (args ! 1));
        p \<leftarrow> get_job_pid (aloj sh) n;
        if p \<le> 0 then Some (output_msg 2 ''bg: could not find job'' sh)
        else (let sh = act (Killpg p) sh in
          if killpg sys p < 0 then Some (act (Perror ''error resuming'') sh)
          else do { j \<leftarrow> get_job_jid (aloj sh) p; map_option snd (set_state j p STATE_RUNNING sh) })
      })"

definition fg :: "system \<Rightarrow> string list \<Rightarrow> shell \<Rightarrow> shell option" where
  "fg sys args sh = do {
     let sh = (if length args \<noteq> 2 then output_msg 2 ''fg: syntax error'' sh else sh);
     arg \<leftarrow> rd args 1;
     if take 1 arg \<noteq> ''%'' then Some (output_msg 2 ''fg: job input does not begin with %'' sh)
     else do {
       n \<leftarrow> atoi (drop 1 arg);
       p \<leftarrow> get_job_pid (aloj sh) n;
       if p < 0 then Some (output_msg 2 ''fg: could not find job'' sh)
       else (let sh = act (Killpg p) sh in
         if killpg sys p < 0 then Some (act (Perror ''error resuming'') sh)
         else do {
           j \<leftarrow> get_job_jid (aloj sh) p;
           (ok, sh) \<leftarrow> set_state j p STATE_RUNNING sh;
           if \<not> ok then Some sh
           else (let sh = act (Tcsetpgrp p) sh in
             if tcsetpgrp sys p < 0 then Some (act (Perror ''error change group process'') sh)
             else wait_child sys p sh)
         })
     }
   }"

text \<open>
  \<^verbatim>\<open>cd\<close>: for \<^verbatim>\<open>..\<close> the loop clears characters from the end of the current directory up to and including
  the last slash, but never the first character. The buffer of the directory has 1024 bytes.
\<close>

fun strip_loop :: "string \<Rightarrow> nat \<Rightarrow> string" where
  "strip_loop dirname i = (if i = 0 then dirname
     else if drop i dirname = ''/'' then take i dirname
     else strip_loop (take i dirname) (i - 1))"

declare strip_loop.simps [simp del]

definition cd :: "system \<Rightarrow> nat \<Rightarrow> string option \<Rightarrow> shell \<Rightarrow> shell option" where
  "cd sys nargs path sh =
     (if nargs \<le> 1 then Some (output_msg 2 ''cd: syntax error'' sh)
      else do {
        path \<leftarrow> path;
        target \<leftarrow> (if path = ''..'' then map_option (\<lambda>d. strip_loop d (length d - 1)) (getcwd sys)
          else if take 1 path = ''/'' then Some path
          else do { d \<leftarrow> getcwd sys; if length d + 1 + length path < 1024 then Some (d @ ''/'' @ path) else None });
        let sh = act (Chdir target) sh;
        Some (if chdir sys target = - 1 then act (Perror (''cd: No such file or directory'' @ [newline])) sh else sh)
      })"

definition rm :: "system \<Rightarrow> string list \<Rightarrow> shell \<Rightarrow> shell" where
  "rm sys args sh =
     (if length args \<noteq> 2 then output_msg 2 ''rm: syntax error'' sh
      else (let sh = act (Unlink_file (args ! 1)) sh in
        if unlink_file sys (args ! 1) = - 1 then output_msg 2 ''rm: No such file or directory'' sh else sh))"

definition ln_cmd :: "system \<Rightarrow> string list \<Rightarrow> shell \<Rightarrow> shell" where
  "ln_cmd sys args sh =
     (if length args \<noteq> 3 then output_msg 2 ''ln: syntax error'' sh
      else (let sh = act (Link_file (args ! 1) (args ! 2)) sh in
        if link_file sys (args ! 1) (args ! 2) = - 1 then output_msg 2 ''ln: No such file or directory'' sh else sh))"

text \<open>
  \<^verbatim>\<open>fork_process\<close> in the parent: \<open>childpid\<close> is what \<^verbatim>\<open>fork\<close> returns and \<open>new\<close> the address of the new job.
\<close>

definition fork_process :: "system \<Rightarrow> nat \<Rightarrow> int \<Rightarrow> string list \<Rightarrow> bool \<Rightarrow> shell \<Rightarrow> shell option" where
  "fork_process sys new childpid args aflag sh = do {
     n \<leftarrow> c_int (job_id sh + 1);
     cmd \<leftarrow> rd args 0;
     let sh = sh\<lparr>job_id := n\<rparr>;
     (r, l) \<leftarrow> add_job new (aloj sh) n childpid (Some STATE_RUNNING) (Some cmd);
     let sh = sh\<lparr>aloj := l\<rparr>;
     sh \<leftarrow> (if r < 0 then Some (output_msg 2 ''sh: job could not be added to job list'' sh)
           else do {
             jd \<leftarrow> get_job_jid (aloj sh) childpid;
             Some (if aflag then output_msg 0 (job_tag jd childpid) sh else sh)
           });
     if aflag then Some sh else wait_child sys childpid sh
   }"

end
