(* ===== verification/ShellCorrect.thy ===== *)
theory ShellCorrect
  imports Shell
begin

text \<open>
  Job control keeps the shell consistent: reaping visits every job once, and every command of the job
  control has a result that again satisfies the invariant of the shell.
\<close>

section \<open>Reaping\<close>

text \<open>What a round of reaping does to one job, and what it reports.\<close>

definition settle :: "system \<Rightarrow> job_element \<Rightarrow> job_element list" where
  "settle sys x = (case waitpid_poll sys (pid x) of
       Changed (Stopped_by sig) \<Rightarrow> [x\<lparr>state := STATE_STOPPED\<rparr>]
     | Changed (Signaled_by sig) \<Rightarrow> []
     | Changed (Exited_with code) \<Rightarrow> []
     | Changed Continued \<Rightarrow> [x\<lparr>state := STATE_RUNNING\<rparr>]
     | _ \<Rightarrow> [x])"

definition report :: "system \<Rightarrow> job_element \<Rightarrow> action list" where
  "report sys x = (let t = job_tag (jid x) (pid x); msg = (\<lambda>fd s. [Output fd (s @ [newline])]) in
     case waitpid_poll sys (pid x) of
       Changed (Stopped_by sig) \<Rightarrow> msg 1 (t @ '' suspended by signal '' @ print_d sig)
     | Changed (Signaled_by sig) \<Rightarrow> msg 1 (t @ '' terminated by signal '' @ print_d sig)
     | Changed (Exited_with code) \<Rightarrow> msg 1 (t @ '' terminated with exit status '' @ print_d code)
     | Changed Continued \<Rightarrow> msg 1 (t @ '' resumed'')
     | Changed Other_status \<Rightarrow> msg 2 (''reap: unkown pid '' @ print_d (pid x))
     | Unchanged \<Rightarrow> []
     | Wait_failed \<Rightarrow> if prompt sys then [Perror ''error reap''] else [])"

lemma settle_pid: "y \<in> set (settle sys x) \<Longrightarrow> pid y = pid x"
  by (auto simp: settle_def split: waited.splits wstatus.splits)

lemma remove_first_here: "\<forall>u \<in> set us. \<not> q u \<Longrightarrow> q a \<Longrightarrow> remove_first q (us @ a # vs) = us @ vs \<and> update_first q f (us @ a # vs) = us @ f a # vs"
  by (induction us) auto

lemma find_here: "\<forall>u \<in> set us. \<not> q u \<Longrightarrow> q a \<Longrightarrow> List.find q (us @ a # vs) = Some a"
  by (induction us) auto

text \<open>The job of a process in the visited part.\<close>

lemma job_of_pid:
  assumes rel: "job_rel l (us @ [x]) ys" and d: "\<forall>u \<in> set us. pid u \<noteq> pid x"
  shows "get_job_jid (Some l) (pid x) = Some (jid x)"
    "\<exists>l'. remove_job_pid (Some l) (pid x) = Some (0, Some l') \<and> job_rel l' us ys"
    "\<exists>l'. update_job_pid (Some l) (pid x) st = Some (0, Some l') \<and> job_rel l' (us @ [x\<lparr>state := st\<rparr>]) ys"
proof -
  have q: "\<forall>u \<in> set us. \<not> (\<lambda>e. pid e = pid x) u" using d by simp
  have f: "List.find (\<lambda>e. pid e = pid x) (us @ [x] @ ys) = Some x" using find_here [OF q, of x ys] by simp
  show "get_job_jid (Some l) (pid x) = Some (jid x)"
    using get_job_rel [OF _ _ rel, of "\<lambda>e. pid e = pid x" jid] f by (simp add: get_job_jid_def)
  show "\<exists>l'. remove_job_pid (Some l) (pid x) = Some (0, Some l') \<and> job_rel l' us ys"
    using remove_job_rel [OF _ rel, of "\<lambda>e. pid e = pid x"] remove_first_here [OF q, of x "[]"]
    by (simp add: remove_job_pid_def)
  show "\<exists>l'. update_job_pid (Some l) (pid x) st = Some (0, Some l') \<and> job_rel l' (us @ [x\<lparr>state := st\<rparr>]) ys"
    using update_job_rel [OF _ rel, of "\<lambda>e. pid e = pid x" st] remove_first_here [OF q, of x "[]" "\<lambda>e. e\<lparr>state := st\<rparr>"]
    by (simp add: update_job_pid_def)
qed

lemma reap_help_job:
  assumes rel: "job_rel l (us @ [x]) ys" and d: "\<forall>u \<in> set us. pid u \<noteq> pid x" and j: "jid x \<ge> 0" and sh: "aloj sh = Some l"
  shows "\<exists>l'. reap_help sys (pid x) sh = Some (sh\<lparr>aloj := Some l', actions := actions sh @ report sys x\<rparr>) \<and> job_rel l' (us @ settle sys x) ys"
proof -
  note J = job_of_pid [OF rel d]
  obtain l1 where l1: "remove_job_pid (Some l) (pid x) = Some (0, Some l1)" "job_rel l1 us ys" using J(2) by blast
  obtain l2 where l2: "update_job_pid (Some l) (pid x) STATE_STOPPED = Some (0, Some l2)" "job_rel l2 (us @ [x\<lparr>state := STATE_STOPPED\<rparr>]) ys" using J(3) by blast
  obtain l3 where l3: "update_job_pid (Some l) (pid x) STATE_RUNNING = Some (0, Some l3)" "job_rel l3 (us @ [x\<lparr>state := STATE_RUNNING\<rparr>]) ys" using J(3) by blast
  have same: "sh\<lparr>aloj := Some l\<rparr> = sh" using sh by simp
  show ?thesis
    using J(1) l1 l2 l3 j sh rel same
    by (cases sh; cases "waitpid_poll sys (pid x)")
      (auto simp: reap_help_def settle_def report_def drop_job_def set_state_def output_msg_def act_def Let_def split: wstatus.splits)
qed


lemma reap_rel:
  assumes "job_rel l us ys" "distinct (map pid (us @ ys))" "\<forall>y \<in> set ys. pid y > 0 \<and> jid y \<ge> 0" "aloj sh = Some l"
  shows "\<exists>l'. reap sys sh = Some (sh\<lparr>aloj := Some l', actions := actions sh @ concat (map (report sys) ys)\<rparr>)
    \<and> job_rel l' [] (us @ concat (map (settle sys) ys))"
  using assms
proof (induction ys arbitrary: l us sh)
  case Nil
  obtain l' where "get_next_pid (Some l) = Some (- 1, Some l')" "job_rel l' [] us" using get_next_pid_rel [OF Nil.prems(1)] by auto
  then show ?case using Nil.prems(4) by (auto simp: reap_def reap_loop.simps)
next
  case (Cons y ys)
  obtain l1 where l1: "get_next_pid (Some l) = Some (pid y, Some l1)" "job_rel l1 (us @ [y]) ys" using get_next_pid_rel [OF Cons.prems(1)] by auto
  have d: "\<forall>u \<in> set us. pid u \<noteq> pid y" using Cons.prems(2) by (auto simp: image_iff)
  obtain l2 where l2: "reap_help sys (pid y) (sh\<lparr>aloj := Some l1\<rparr>) = Some (sh\<lparr>aloj := Some l2, actions := actions sh @ report sys y\<rparr>)"
    "job_rel l2 (us @ settle sys y) ys" using reap_help_job [OF l1(2) d, of "sh\<lparr>aloj := Some l1\<rparr>" sys] Cons.prems(3) by auto
  define sh2 where "sh2 = sh\<lparr>aloj := Some l2, actions := actions sh @ report sys y\<rparr>"
  have "reap sys sh = reap_loop sys (pid y) (sh\<lparr>aloj := Some l1\<rparr>)" using l1(1) Cons.prems(4) by (simp add: reap_def)
  also have "\<dots> = reap sys sh2" using l2(1) Cons.prems(3) by (subst reap_loop.simps) (simp add: reap_def sh2_def)
  finally have r: "reap sys sh = reap sys sh2" .
  have "distinct (map pid ((us @ settle sys y) @ ys))"
  proof -
    have "map pid (settle sys y) = [] \<or> map pid (settle sys y) = [pid y]" by (auto simp: settle_def split: waited.splits wstatus.splits)
    then show ?thesis using Cons.prems(2) by (auto simp: image_iff)
  qed
  from Cons.IH [OF l2(2) this, of sh2] Cons.prems(3)
  obtain l' where "reap sys sh2 = Some (sh2\<lparr>aloj := Some l', actions := actions sh2 @ concat (map (report sys) ys)\<rparr>)"
    "job_rel l' [] ((us @ settle sys y) @ concat (map (settle sys) ys))" by (auto simp: sh2_def)
  then show ?case unfolding r by (cases sh) (auto simp: sh2_def)
qed

text \<open>\<^verbatim>\<open>cd ..\<close> goes to the parent directory.\<close>

lemma strip_loop_parent:
  assumes "CHR ''/'' \<notin> set name" "name \<noteq> []"
  shows "strip_loop (dir @ ''/'' @ name) (length (dir @ ''/'' @ name) - 1) = (if dir = [] then ''/'' else dir)"
proof -
  have "strip_loop (dir @ ''/'' @ ns) (length dir + length ns) = (if dir = [] then ''/'' else dir)" if "CHR ''/'' \<notin> set ns" for ns
    using that
  proof (induction ns rule: rev_induct)
    case Nil
    then show ?case by (subst strip_loop.simps) simp
  next
    case (snoc c ns)
    have "drop (length dir + length (ns @ [c])) (dir @ ''/'' @ ns @ [c]) = [c]" by simp
    moreover have "c \<noteq> CHR ''/''" using snoc.prems by auto
    moreover have "take (length dir + length (ns @ [c])) (dir @ ''/'' @ ns @ [c]) = dir @ ''/'' @ ns" by simp
    ultimately show ?case using snoc by (subst strip_loop.simps) simp
  qed
  from this [OF assms(1)] show ?thesis by simp
qed


section \<open>The invariant of the shell\<close>

text \<open>
  The shell holds the jobs \<open>xs\<close> with the iterator at the first; processes and numbers are positive and
  distinct, and no number is beyond the counter.
\<close>

definition shell_ok :: "shell \<Rightarrow> job_element list \<Rightarrow> bool" where
  "shell_ok sh xs \<longleftrightarrow> (\<exists>l. aloj sh = Some l \<and> job_rel l [] xs) \<and> distinct (map pid xs) \<and> distinct (map jid xs)
     \<and> (\<forall>x \<in> set xs. pid x > 0 \<and> 0 < jid x \<and> jid x \<le> job_id sh) \<and> 0 \<le> job_id sh"

lemma shell_okE:
  assumes "shell_ok sh xs"
  obtains l where "aloj sh = Some l" "job_rel l [] xs"
  using assms by (auto simp: shell_ok_def)

lemma shell_ok_act [simp]: "shell_ok (act a sh) xs \<longleftrightarrow> shell_ok sh xs" "aloj (act a sh) = aloj sh" "shellpid (act a sh) = shellpid sh"
  "shell_ok (output_msg fd m sh) xs \<longleftrightarrow> shell_ok sh xs" "aloj (output_msg fd m sh) = aloj sh"
  by (simp_all add: shell_ok_def act_def output_msg_def)

lemma remove_first_filter: "distinct (map f xs) \<Longrightarrow> remove_first (\<lambda>x. f x = p) xs = filter (\<lambda>x. f x \<noteq> p) xs"
  by (induction xs) (auto simp: image_iff intro!: filter_True [symmetric])

lemma update_first_map: "distinct (map f xs) \<Longrightarrow> update_first (\<lambda>x. f x = p) g xs = map (\<lambda>x. if f x = p then g x else x) xs"
  by (induction xs) (auto simp: image_iff intro!: map_idI [symmetric])

lemma shell_ok_list:
  "shell_ok sh xs \<Longrightarrow> job_rel l [] ys \<Longrightarrow> map pid ys = map pid xs \<Longrightarrow> map jid ys = map jid xs \<Longrightarrow> shell_ok (sh\<lparr>aloj := Some l\<rparr>) ys"
proof -
  assume a: "shell_ok sh xs" "job_rel l [] ys" "map pid ys = map pid xs" "map jid ys = map jid xs"
  have len: "length ys = length xs" using a(3) by (metis length_map)
  have "pid (ys ! i) = pid (xs ! i) \<and> jid (ys ! i) = jid (xs ! i)" if "i < length xs" for i
    using that a(3,4) len by (metis nth_map)
  then have "\<forall>y \<in> set ys. \<exists>x \<in> set xs. pid y = pid x \<and> jid y = jid x" using len by (metis in_set_conv_nth)
  then show ?thesis using a by (auto simp: shell_ok_def)
qed

lemma shell_ok_filter:
  "shell_ok sh xs \<Longrightarrow> job_rel l [] (filter P xs) \<Longrightarrow> shell_ok (sh\<lparr>aloj := Some l\<rparr>) (filter P xs)"
  by (auto simp: shell_ok_def distinct_map_filter)

lemma set_state_ok:
  assumes ok: "shell_ok sh xs"
  shows "\<exists>sh'. set_state j p st sh = Some (p \<in> pid ` set xs, sh') \<and> shell_ok sh' (map (\<lambda>x. if pid x = p then x\<lparr>state := st\<rparr> else x) xs)"
proof -
  obtain l where l: "aloj sh = Some l" "job_rel l [] xs" by (rule shell_okE [OF ok])
  have d: "distinct (map pid xs)" using ok by (simp add: shell_ok_def)
  obtain l' where l': "update_job_pid (Some l) p st = Some (if p \<in> pid ` set xs then 0 else - 1, Some l')"
    "job_rel l' [] (map (\<lambda>x. if pid x = p then x\<lparr>state := st\<rparr> else x) xs)"
    using update_job_rel [OF _ l(2), of "\<lambda>e. pid e = p" st] by (auto simp: update_job_pid_def update_first_map [OF d] image_iff eq_commute [of p])
  have "shell_ok (sh\<lparr>aloj := Some l'\<rparr>) (map (\<lambda>x. if pid x = p then x\<lparr>state := st\<rparr> else x) xs)"
    by (rule shell_ok_list [OF ok l'(2)]) auto
  then show ?thesis using l(1) l'(1) by (simp add: set_state_def Let_def)
qed

lemma drop_job_ok:
  assumes ok: "shell_ok sh xs"
  shows "\<exists>sh'. drop_job j p shown sh = Some sh' \<and> shell_ok sh' (filter (\<lambda>x. pid x \<noteq> p) xs)"
proof -
  obtain l where l: "aloj sh = Some l" "job_rel l [] xs" by (rule shell_okE [OF ok])
  have d: "distinct (map pid xs)" using ok by (simp add: shell_ok_def)
  obtain r l' where l': "remove_job_pid (Some l) p = Some (r, Some l')" "job_rel l' [] (filter (\<lambda>x. pid x \<noteq> p) xs)"
    using remove_job_rel [OF _ l(2), of "\<lambda>e. pid e = p"] by (auto simp: remove_job_pid_def remove_first_filter [OF d])
  show ?thesis using l(1) l'(1) shell_ok_filter [OF ok l'(2)] by (simp add: drop_job_def Let_def)
qed

lemma get_jid_ok: "shell_ok sh xs \<Longrightarrow> get_job_jid (aloj sh) p = Some (case List.find (\<lambda>x. pid x = p) xs of None \<Rightarrow> - 1 | Some x \<Rightarrow> jid x)"
  by (elim shell_okE) (use get_job_rel [of "\<lambda>e. pid e = p" jid] in \<open>auto simp: get_job_jid_def\<close>)

lemma get_pid_ok: "shell_ok sh xs \<Longrightarrow> get_job_pid (aloj sh) j = Some (case List.find (\<lambda>x. jid x = j) xs of None \<Rightarrow> - 1 | Some x \<Rightarrow> pid x)"
  by (elim shell_okE) (use get_job_rel [of "\<lambda>e. jid e = j" pid] in \<open>auto simp: get_job_pid_def\<close>)

text \<open>What waiting for the process \<open>p\<close> does to the jobs.\<close>

definition waited_jobs :: "waited \<Rightarrow> int \<Rightarrow> job_element list \<Rightarrow> job_element list" where
  "waited_jobs w p xs = (case w of
       Changed (Exited_with _) \<Rightarrow> filter (\<lambda>x. pid x \<noteq> p) xs
     | Changed (Signaled_by _) \<Rightarrow> filter (\<lambda>x. pid x \<noteq> p) xs
     | Changed (Stopped_by _) \<Rightarrow> map (\<lambda>x. if pid x = p then x\<lparr>state := STATE_STOPPED\<rparr> else x) xs
     | _ \<Rightarrow> xs)"

lemma child_changed_ok:
  assumes ok: "shell_ok sh xs"
  shows "\<exists>sh'. child_changed w j p sh = Some sh' \<and> shell_ok sh' (waited_jobs w p xs)"
proof -
  have st: "\<exists>sh'. map_option snd (set_state j p STATE_STOPPED (output_msg 1 m sh)) = Some sh'
      \<and> shell_ok sh' (map (\<lambda>x. if pid x = p then x\<lparr>state := STATE_STOPPED\<rparr> else x) xs)" for m
    using set_state_ok [of "output_msg 1 m sh" xs j p STATE_STOPPED] ok by auto
  have dr: "\<exists>sh'. drop_job j p q (output_msg 1 m sh) = Some sh' \<and> shell_ok sh' (filter (\<lambda>x. pid x \<noteq> p) xs)" for q m
    using drop_job_ok [of "output_msg 1 m sh" xs] ok by simp
  show ?thesis using ok st dr drop_job_ok [OF ok] by (cases w) (simp_all add: child_changed_def waited_jobs_def split: wstatus.split)
qed

lemma wait_child_ok:
  assumes ok: "shell_ok sh xs"
  shows "\<exists>sh'. wait_child sys p sh = Some sh' \<and> shell_ok sh' (waited_jobs (waitpid_block sys p) p xs)"
proof -
  obtain sh' where "child_changed (waitpid_block sys p) (case List.find (\<lambda>x. pid x = p) xs of None \<Rightarrow> - 1 | Some x \<Rightarrow> jid x) p sh = Some sh'"
    "shell_ok sh' (waited_jobs (waitpid_block sys p) p xs)" using child_changed_ok [OF ok] by blast
  then show ?thesis by (simp add: wait_child_def get_jid_ok [OF ok] Let_def)
qed

text \<open>
  The number of the last job changes only when a program is started, and jobs descend from the jobs before: they
  keep their process and command, and their state is the old one or one that the shell sets.
\<close>

lemma act_job_id [simp]: "job_id (act a sh) = job_id sh" "job_id (output_msg fd m sh) = job_id sh"
  by (simp_all add: act_def output_msg_def)

lemma set_state_job_id: "set_state j p st sh = Some (b, sh') \<Longrightarrow> job_id sh' = job_id sh"
  by (auto simp: set_state_def Let_def split: bind_splits if_splits)

lemma drop_job_job_id: "drop_job j p shown sh = Some sh' \<Longrightarrow> job_id sh' = job_id sh"
  by (auto simp: drop_job_def Let_def split: bind_splits if_splits)

lemma wait_child_job_id: "wait_child sys p sh = Some sh' \<Longrightarrow> job_id sh' = job_id sh"
  by (auto simp: wait_child_def child_changed_def Let_def split: bind_splits waited.splits wstatus.splits if_splits
      dest!: set_state_job_id drop_job_job_id)

definition descend :: "job_element list \<Rightarrow> job_element list \<Rightarrow> bool" where
  "descend xs ys \<longleftrightarrow> (\<forall>y \<in> set ys. \<exists>x \<in> set xs. pid y = pid x \<and> command y = command x
     \<and> (state y = state x \<or> state y = STATE_RUNNING \<or> state y = STATE_STOPPED))"

lemma descend_refl [simp]: "descend xs xs"
  by (auto simp: descend_def)

lemma descend_trans: "descend xs ys \<Longrightarrow> descend ys zs \<Longrightarrow> descend xs zs"
  unfolding descend_def by (metis (no_types))

lemma descend_map [simp]: "st = STATE_RUNNING \<or> st = STATE_STOPPED \<Longrightarrow> descend xs (map (\<lambda>x. if pid x = p then x\<lparr>state := st\<rparr> else x) xs)"
  by (auto simp: descend_def)

lemma descend_waited [simp]: "descend xs (waited_jobs w p xs)"
  by (auto simp: waited_jobs_def descend_def split: waited.split wstatus.split)

lemma descend_settle: "descend xs (concat (map (settle sys) xs))"
  by (auto simp: descend_def settle_def split: waited.splits wstatus.splits)

text \<open>A state with jobs that descend from \<open>xs\<close> and with the last number \<open>n\<close>.\<close>

definition settled :: "job_element list \<Rightarrow> int \<Rightarrow> shell \<Rightarrow> bool" where
  "settled xs n sh \<longleftrightarrow> (\<exists>ys. shell_ok sh ys \<and> descend xs ys \<and> job_id sh = n)"

lemma settledI: "shell_ok sh ys \<Longrightarrow> descend xs ys \<Longrightarrow> job_id sh = n \<Longrightarrow> settled xs n sh"
  by (auto simp: settled_def)

lemma settled_act [simp]: "settled xs n (act a sh) \<longleftrightarrow> settled xs n sh" "settled xs n (output_msg fd m sh) \<longleftrightarrow> settled xs n sh"
  by (simp_all add: settled_def)

text \<open>The commands.\<close>

lemma reap_ok:
  assumes ok: "shell_ok sh xs"
  shows "\<exists>sh'. reap sys sh = Some sh' \<and> shell_ok sh' (concat (map (settle sys) xs)) \<and> actions sh' = actions sh @ concat (map (report sys) xs)
    \<and> job_id sh' = job_id sh"
proof -
  obtain l where l: "aloj sh = Some l" "job_rel l [] xs" by (rule shell_okE [OF ok])
  have x: "\<forall>y \<in> set xs. pid y > 0 \<and> jid y \<ge> 0" "distinct (map pid ([] @ xs))" using ok by (auto simp: shell_ok_def)
  obtain l' where l': "reap sys sh = Some (sh\<lparr>aloj := Some l', actions := actions sh @ concat (map (report sys) xs)\<rparr>)"
    "job_rel l' [] (concat (map (settle sys) xs))" using reap_rel [OF l(2) x(2,1) l(1)] by auto
  have k: "settle sys y = [] \<or> (\<exists>z. settle sys y = [z] \<and> pid z = pid y \<and> jid z = jid y)" for y
    by (auto simp: settle_def split: waited.splits wstatus.splits)
  have s: "\<exists>y \<in> set ys. pid z = pid y \<and> jid z = jid y" if "z \<in> set (concat (map (settle sys) ys))" for z ys
  proof -
    obtain y where "y \<in> set ys" "z \<in> set (settle sys y)" using \<open>z \<in> set (concat (map (settle sys) ys))\<close> by auto
    then show ?thesis using k [of y] by auto
  qed
  have d: "distinct (map f (concat (map (settle sys) ys)))" if "distinct (map f ys)" "f = pid \<or> f = jid" for ys f
    using that(1)
  proof (induction ys)
    case (Cons y ys)
    have "f y \<notin> f ` set (concat (map (settle sys) ys))" using s [of _ ys] Cons.prems that(2) by fastforce
    then show ?case using Cons k [of y] that(2) by auto
  qed simp
  have "shell_ok (sh\<lparr>aloj := Some l', actions := actions sh @ concat (map (report sys) xs)\<rparr>) (concat (map (settle sys) xs))"
    using ok l'(2) d [of pid xs] d [of jid xs] s [of _ xs] by (fastforce simp: shell_ok_def)
  then show ?thesis using l'(1) by simp
qed

lemma bg_ok:
  assumes ok: "shell_ok sh xs" and i: "\<forall>s \<in> set args. atoi (drop 1 s) \<noteq> None"
  shows "\<exists>sh'. bg sys args sh = Some sh' \<and> settled xs (job_id sh) sh'"
proof (cases "length args = 2 \<and> take 1 (args ! 1) = ''%''")
  case True
  then obtain n where n: "atoi (drop 1 (args ! 1)) = Some n" using i by (metis Suc_1 lessI nth_mem option.exhaust)
  obtain p where p: "get_job_pid (aloj sh) n = Some p" using get_pid_ok [OF ok] by blast
  obtain j where j: "get_job_jid (aloj sh) p = Some j" using get_jid_ok [OF ok] by blast
  let ?ys = "map (\<lambda>x. if pid x = p then x\<lparr>state := STATE_RUNNING\<rparr> else x) xs"
  obtain f sh' where sh': "set_state j p STATE_RUNNING (act (Killpg p) sh) = Some (f, sh')" "shell_ok sh' ?ys"
    using set_state_ok [of "act (Killpg p) sh" xs j p STATE_RUNNING] ok by auto
  moreover have "bg sys args sh = Some (if p \<le> 0 then output_msg 2 ''bg: could not find job'' sh
      else if killpg sys p < 0 then act (Perror ''error resuming'') (act (Killpg p) sh) else sh')"
    using True n p j sh'(1) by (simp add: bg_def Let_def)
  moreover have "settled xs (job_id sh) sh" by (rule settledI [OF ok]) simp_all
  moreover have "settled xs (job_id sh) sh'" using set_state_job_id [OF sh'(1)] by (intro settledI [OF sh'(2)]) simp_all
  ultimately show ?thesis by simp
next
  case False
  have "settled xs (job_id sh) sh" by (rule settledI [OF ok]) simp_all
  then show ?thesis using False by (auto simp: bg_def)
qed

lemma fg_ok:
  assumes ok: "shell_ok sh xs" and i: "\<forall>s \<in> set args. atoi (drop 1 s) \<noteq> None" and two: "length args \<ge> 2"
  shows "\<exists>sh'. fg sys args sh = Some sh' \<and> settled xs (job_id sh) sh'"
proof -
  define sh0 where "sh0 = (if length args \<noteq> 2 then output_msg 2 ''fg: syntax error'' sh else sh)"
  have ok0: "shell_ok sh0 xs" "job_id sh0 = job_id sh" using ok by (simp_all add: sh0_def)
  have a: "rd args 1 = Some (args ! 1)" "args ! 1 \<in> set args" using two by (simp_all add: rd_def)
  obtain n where n: "atoi (drop 1 (args ! 1)) = Some n" using i a(2) by blast
  obtain p where p: "get_job_pid (aloj sh0) n = Some p" using get_pid_ok [OF ok0(1)] by blast
  define sh1 where "sh1 = act (Killpg p) sh0"
  have ok1: "shell_ok sh1 xs" "job_id sh1 = job_id sh" using ok0 by (simp_all add: sh1_def)
  obtain j where j: "get_job_jid (aloj sh1) p = Some j" using get_jid_ok [OF ok1(1)] by blast
  let ?ys = "map (\<lambda>x. if pid x = p then x\<lparr>state := STATE_RUNNING\<rparr> else x) xs"
  let ?zs = "waited_jobs (waitpid_block sys p) p ?ys"
  obtain f sh2 where sh2: "set_state j p STATE_RUNNING sh1 = Some (f, sh2)" "shell_ok sh2 ?ys" using set_state_ok [OF ok1(1)] by blast
  obtain sh3 where sh3: "wait_child sys p (act (Tcsetpgrp p) sh2) = Some sh3" "shell_ok sh3 ?zs"
    using wait_child_ok [of "act (Tcsetpgrp p) sh2" ?ys sys p] sh2(2) by auto
  have ids: "job_id sh2 = job_id sh" "job_id sh3 = job_id sh"
    using set_state_job_id [OF sh2(1)] wait_child_job_id [OF sh3(1)] ok1(2) by simp_all
  have desc: "descend xs ?ys" "descend xs ?zs" using descend_trans [OF descend_map descend_waited] by simp_all
  have "fg sys args sh = (if take 1 (args ! 1) \<noteq> ''%'' then Some (output_msg 2 ''fg: job input does not begin with %'' sh0)
      else if p < 0 then Some (output_msg 2 ''fg: could not find job'' sh0)
      else if killpg sys p < 0 then Some (act (Perror ''error resuming'') sh1)
      else if \<not> f then Some sh2
      else if tcsetpgrp sys p < 0 then Some (act (Perror ''error change group process'') (act (Tcsetpgrp p) sh2)) else Some sh3)"
    unfolding fg_def sh0_def [symmetric] Let_def using a(1) n p j sh2(1) sh3(1) by (simp add: sh1_def [symmetric])
  moreover have "settled xs (job_id sh) sh0" "settled xs (job_id sh) sh1" by (rule settledI [OF ok0(1)] settledI [OF ok1(1)]; simp add: ok0 ok1)+
  moreover have "settled xs (job_id sh) sh2" "settled xs (job_id sh) sh3"
    by (rule settledI [OF sh2(2)] settledI [OF sh3(2)]; simp add: ids desc)+
  ultimately show ?thesis by simp
qed

lemma fork_process_ok:
  assumes ok: "shell_ok sh xs" and l: "aloj sh = Some l" "store l new = None"
    and p: "p > 0" "p \<notin> pid ` set xs" and j: "job_id sh < INT_MAX" and a: "args = cmd # rest"
  shows "\<exists>sh'. fork_process sys new p args aflag sh = Some sh' \<and>
    (let ys = xs @ [\<lparr>jid = job_id sh + 1, pid = p, state = STATE_RUNNING, command = cmd, link = None\<rparr>] in
     shell_ok sh' (if aflag then ys else waited_jobs (waitpid_block sys p) p ys) \<and> job_id sh' = job_id sh + 1)"
proof -
  let ?x = "\<lparr>jid = job_id sh + 1, pid = p, state = STATE_RUNNING, command = cmd, link = None\<rparr>"
  have rel: "job_rel l [] xs" using ok l(1) by (auto simp: shell_ok_def)
  have n: "c_int (job_id sh + 1) = Some (job_id sh + 1)" using ok j by (intro c_int_id) (auto simp: shell_ok_def)
  obtain l' where l': "add_job new (Some l) (job_id sh + 1) p (Some STATE_RUNNING) (Some cmd) = Some (0, Some l')" "job_rel l' [] (xs @ [?x])"
    using add_job_rel [OF rel l(2) refl, of "job_id sh + 1" p STATE_RUNNING cmd] by (auto split: if_splits)
  define sh1 where "sh1 = sh\<lparr>job_id := job_id sh + 1, aloj := Some l'\<rparr>"
  have ok1: "shell_ok sh1 (xs @ [?x])" using ok l'(2) p j by (fastforce simp: shell_ok_def sh1_def)
  obtain jd where jd: "get_job_jid (aloj sh1) p = Some jd" using get_jid_ok [OF ok1] by blast
  obtain sh2 where sh2: "wait_child sys p sh1 = Some sh2" "shell_ok sh2 (waited_jobs (waitpid_block sys p) p (xs @ [?x]))"
    using wait_child_ok [OF ok1] by blast
  have "fork_process sys new p args aflag sh = (if aflag then Some (output_msg 0 (job_tag jd p) sh1) else Some sh2)"
    using n l(1) l'(1) jd sh2(1) a by (simp add: fork_process_def rd_def Let_def sh1_def)
  moreover have "job_id sh1 = job_id sh + 1" "job_id sh2 = job_id sh + 1" using wait_child_job_id [OF sh2(1)] by (simp_all add: sh1_def)
  ultimately show ?thesis using ok1 sh2(2) by (auto simp: Let_def)
qed

section \<open>Theorems\<close>

text \<open>
  C18. A round of reaping ends and asks for every job exactly once, in order: a job whose process has
  terminated is removed, a stopped or resumed one changes its state, any other stays as it is; each
  change is reported in that order; and the iterator is back at the first job.
\<close>

theorem reap_settles_jobs:
  assumes "shell_ok sh xs"
  shows "\<exists>sh'. reap sys sh = Some sh' \<and> shell_ok sh' (concat (map (settle sys) xs)) \<and> actions sh' = actions sh @ concat (map (report sys) xs)"
  using reap_ok [OF assms] by blast

definition example_shell :: shell where
  "example_shell = \<lparr>aloj = Some \<lparr>head = Some 1, current = Some 1, store =
       [1 \<mapsto> \<lparr>jid = 1, pid = 10, state = ''Running'', command = ''a'', link = Some 2\<rparr>,
        2 \<mapsto> \<lparr>jid = 2, pid = 20, state = ''Running'', command = ''b'', link = None\<rparr>]\<rparr>,
     shellpid = 5, job_id = 2, actions = []\<rparr>"

lemma example_shell_ok: "shell_ok example_shell [\<lparr>jid = 1, pid = 10, state = ''Running'', command = ''a'', link = None\<rparr>,
    \<lparr>jid = 2, pid = 20, state = ''Running'', command = ''b'', link = None\<rparr>]"
proof -
  let ?l = "the (aloj example_shell)"
  have "job_rel ?l [] [\<lparr>jid = 1, pid = 10, state = ''Running'', command = ''a'', link = None\<rparr>, \<lparr>jid = 2, pid = 20, state = ''Running'', command = ''b'', link = None\<rparr>]"
    by (rule job_relI [of _ "[]" "[1, 2]"]) (auto simp: example_shell_def job_at_def)
  then show ?thesis by (simp add: shell_ok_def example_shell_def)
qed

definition example_system :: system where
  "example_system = \<lparr>waitpid_poll = (\<lambda>p. if p = 10 then Changed (Exited_with 0) else Changed (Stopped_by 19)), waitpid_block = (\<lambda>_. Changed (Exited_with 0)),
     killpg = (\<lambda>_. 0), tcsetpgrp = (\<lambda>_. 0), chdir = (\<lambda>_. 0), unlink_file = (\<lambda>_. 0), link_file = (\<lambda>_ _. 0), getcwd = Some ''/home'', prompt = False\<rparr>"

theorem reap_settles_jobs_witness:
  "\<exists>sh'. reap example_system example_shell = Some sh'
    \<and> shell_ok sh' [\<lparr>jid = 2, pid = 20, state = ''Stopped'', command = ''b'', link = None\<rparr>]"
  using reap_settles_jobs [OF example_shell_ok, of example_system] by (auto simp: settle_def example_system_def STATE_STOPPED_def)

end
