(* ===== verification/ShellParse.thy ===== *)
theory ShellParse
  imports Prelude
begin

text \<open>
  The command-line parser of the two shells, \<^verbatim>\<open>src/shell_2/parse.c\<close> and \<^verbatim>\<open>parse\<close> in
  \<^verbatim>\<open>src/shell_1/sh.c\<close>, over the input buffer, and what it does on the words of the line. Reading outside
  the buffer or not ending is \<^const>\<open>None\<close>.

  The two parsers differ in two places only: the second knows a final \<^verbatim>\<open>&\<close>, and its test of the file name
  after \<^verbatim>\<open>>>\<close> is a disjunction. The parameter \<open>amp\<close> is true for the second shell.
\<close>

section \<open>The parser\<close>

text \<open>The first loop: white space becomes the null character; the number of words and the length of the line.\<close>

fun mark :: "bool \<Rightarrow> char list \<Rightarrow> (char list \<times> nat \<times> nat) option" where
  "mark flip [] = None"
| "mark flip (c # cs) = (if c = NUL then Some (c # cs, 0, 0)
     else if isspace c then map_option (\<lambda>(cs, n, i). (NUL # cs, n, Suc i)) (mark False cs)
     else map_option (\<lambda>(cs, n, i). (c # cs, if flip then n else Suc n, Suc i)) (mark True cs))"

function skip_nul :: "char list \<Rightarrow> nat \<Rightarrow> nat \<Rightarrow> nat option" where
  "skip_nul str c len = do { x \<leftarrow> rd str c; if x = NUL \<and> c \<le> len then skip_nul str (Suc c) len else Some c }"
  by auto
termination
  by (relation "measure (\<lambda>(str, c, len). Suc len - c)") auto

function skip_word :: "char list \<Rightarrow> nat \<Rightarrow> nat \<Rightarrow> nat option" where
  "skip_word str c len = (if c \<le> len then do { x \<leftarrow> rd str c; if x \<noteq> NUL then skip_word str (Suc c) len else Some c } else Some c)"
  by auto
termination
  by (relation "measure (\<lambda>(str, c, len). Suc len - c)") auto

declare skip_nul.simps [simp del] skip_word.simps [simp del]

definition find_next :: "char list \<Rightarrow> nat \<Rightarrow> nat \<Rightarrow> nat option" where
  "find_next str c len = do { c \<leftarrow> skip_word str c len; skip_nul str c len }"

definition word_at :: "char list \<Rightarrow> nat \<Rightarrow> string option" where
  "word_at str c = (if terminated (drop c str) then Some (cstr (drop c str)) else None)"

record parsed =
  iname :: string
  oname :: string
  iflag :: int
  oflag :: int
  aflag :: int
  narg :: int
  argc :: "nat list"

text \<open>
  One round of the main loop up to its last statement: the position reached and the new state, or
  \<^const>\<open>None\<close> inside for a syntax error.
\<close>

definition parse_word :: "bool \<Rightarrow> char list \<Rightarrow> nat \<Rightarrow> nat \<Rightarrow> parsed \<Rightarrow> (nat \<times> parsed) option option" where
  "parse_word amp str c len st = do {
     w \<leftarrow> word_at str c;
     (c, st) \<leftarrow> (if amp \<and> w = ''&'' \<and> int (length (argc st)) + 1 = narg st
        then do { c' \<leftarrow> find_next str c len; Some (c', st\<lparr>narg := narg st - 1, aflag := aflag st + 1\<rparr>) }
        else Some (c, st));
     w \<leftarrow> word_at str c;
     if w = ''>>'' then
       (if oflag st \<noteq> 0 then Some None
        else do {
          c \<leftarrow> find_next str c len;
          n \<leftarrow> word_at str c;
          Some (if (if amp then n = ''>>'' \<or> n = ''>'' \<or> n = ''<'' else n = ''>>'' \<and> n = ''>'' \<and> n = ''<'') then None
                else if n = [] then None
                else Some (c, st\<lparr>oflag := 2, narg := narg st - 2, oname := n\<rparr>))
        })
     else if w = ''>'' then
       (if oflag st \<noteq> 0 then Some None
        else do {
          c \<leftarrow> find_next str c len;
          n \<leftarrow> word_at str c;
          Some (if n = ''>>'' \<and> n = ''>'' \<and> n = ''<'' then None
                else if n = [] then None
                else Some (c, st\<lparr>oflag := 1, narg := narg st - 2, oname := n\<rparr>))
        })
     else if w = ''<'' then
       (if iflag st \<noteq> 0 then Some None
        else do {
          c \<leftarrow> find_next str c len;
          n \<leftarrow> word_at str c;
          Some (if n = ''>>'' \<and> n = ''>'' \<and> n = ''<'' then None
                else if n = [] then None
                else Some (c, st\<lparr>iflag := 3, narg := narg st - 2, iname := n\<rparr>))
        })
     else Some (Some (c, st\<lparr>argc := argc st @ [c]\<rparr>))
   }"

partial_function (option) parse_loop :: "bool \<Rightarrow> char list \<Rightarrow> nat \<Rightarrow> nat \<Rightarrow> parsed \<Rightarrow> (int \<times> parsed) option" where
  "parse_loop amp str c len st = do {
     x \<leftarrow> rd str c;
     if x = NUL then Some (1, st)
     else do {
       r \<leftarrow> parse_word amp str c len st;
       if r = None then Some (- 1, st)
       else do { c' \<leftarrow> find_next str (fst (the r)) len; parse_loop amp str c' len (snd (the r)) }
     }
   }"

definition parse_line :: "bool \<Rightarrow> char list \<Rightarrow> (int \<times> char list \<times> parsed) option" where
  "parse_line amp str = do {
     (str, n, i) \<leftarrow> mark False str;
     let st = \<lparr>iname = [], oname = [], iflag = 0, oflag = 0, aflag = 0, narg = int n, argc = []\<rparr>;
     if n = 0 then Some (- 1, str, st)
     else do {
       c \<leftarrow> skip_nul str 0 i;
       r \<leftarrow> parse_loop amp str c i st;
       Some (fst r, str, snd r)
     }
   }"

text \<open>\<^verbatim>\<open>parse\<close> of the second and of the first shell.\<close>

definition parse :: "char list \<Rightarrow> (int \<times> char list \<times> parsed) option" where
  "parse = parse_line True"

definition parse_1 :: "char list \<Rightarrow> (int \<times> char list \<times> parsed) option" where
  "parse_1 = parse_line False"

text \<open>The arguments the shells read off the result: the words at the first \<^verbatim>\<open>narg\<close> indices.\<close>

definition arguments :: "char list \<Rightarrow> parsed \<Rightarrow> string list option" where
  "arguments str st = (if narg st < 0 \<or> length (argc st) < nat (narg st) then None
     else those (map (word_at str) (take (nat (narg st)) (argc st))))"

section \<open>The words of a line\<close>

text \<open>The maximal runs of characters that do not satisfy \<open>sep\<close>.\<close>

fun runs :: "(char \<Rightarrow> bool) \<Rightarrow> string \<Rightarrow> string list" where
  "runs sep [] = []"
| "runs sep (c # cs) = (if sep c then runs sep cs
     else if cs = [] \<or> sep (hd cs) then [c] # runs sep cs
     else (c # hd (runs sep cs)) # tl (runs sep cs))"

lemma runs_hd: "cs \<noteq> [] \<Longrightarrow> \<not> sep (hd cs) \<Longrightarrow> \<exists>w ws. runs sep cs = (hd cs # w) # ws"
  by (induction cs) auto

lemma runs_length: "length (runs sep (c # cs)) = (if sep c then length (runs sep cs)
    else if cs = [] \<or> sep (hd cs) then Suc (length (runs sep cs)) else length (runs sep cs))"
  using runs_hd [of cs sep] by auto

lemma runs_word: "w \<noteq> [] \<Longrightarrow> \<forall>c \<in> set w. \<not> sep c \<Longrightarrow> cs = [] \<or> sep (hd cs) \<Longrightarrow> runs sep (w @ cs) = w # runs sep cs"
proof (induction w)
  case (Cons c w)
  then show ?case by (cases w) auto
qed simp

lemma runs_no_sep: "w \<in> set (runs sep cs) \<Longrightarrow> w \<noteq> [] \<and> (\<forall>c \<in> set w. \<not> sep c)"
proof (induction cs arbitrary: w)
  case (Cons c cs)
  show ?case
  proof (cases "sep c \<or> cs = [] \<or> sep (hd cs)")
    case True
    then show ?thesis using Cons by (auto split: if_splits)
  next
    case False
    then obtain v vs where v: "runs sep cs = v # vs" using runs_hd [of cs sep] by auto
    then show ?thesis using Cons.IH [of v] Cons.IH [of w] Cons.prems False by (auto split: if_splits)
  qed
qed simp

abbreviation nul_words :: "string \<Rightarrow> string list" where
  "nul_words \<equiv> runs (\<lambda>c. c = NUL)"

abbreviation words :: "string \<Rightarrow> string list" where
  "words \<equiv> runs isspace"

definition blank :: "string \<Rightarrow> string" where
  "blank = map (\<lambda>c. if isspace c then NUL else c)"

lemma isspace_NUL [simp]: "\<not> isspace NUL"
  by (simp add: isspace_def)

lemma mark_line:
  "NUL \<notin> set s \<Longrightarrow> mark flip (s @ NUL # t) =
     Some (blank s @ NUL # t, length (words s) - (if flip \<and> s \<noteq> [] \<and> \<not> isspace (hd s) then 1 else 0), length s)"
proof (induction s arbitrary: flip)
  case (Cons c s)
  have "words s \<noteq> []" if "s \<noteq> []" "\<not> isspace (hd s)" using runs_hd [OF that(1), of isspace] that(2) by auto
  then show ?case using Cons by (auto simp: blank_def runs_length simp del: runs.simps(2))
qed (simp add: blank_def)

lemma nul_words_blank: "NUL \<notin> set s \<Longrightarrow> nul_words (blank s @ replicate k NUL) = words s"
proof (induction s)
  case Nil
  show ?case by (induction k) (auto simp: blank_def)
next
  case (Cons c s)
  have "blank s @ replicate k NUL = [] \<or> hd (blank s @ replicate k NUL) = NUL \<longleftrightarrow> s = [] \<or> isspace (hd s)"
    using Cons.prems by (cases s; cases k) (auto simp: blank_def)
  then show ?case using Cons by (auto simp: blank_def)
qed

section \<open>Positions\<close>

text \<open>A line in a buffer: null from its end on, with at least two bytes behind.\<close>

definition line :: "char list \<Rightarrow> nat \<Rightarrow> bool" where
  "line str len \<longleftrightarrow> Suc len < length str \<and> (\<forall>i. len \<le> i \<longrightarrow> i < length str \<longrightarrow> str ! i = NUL)"

text \<open>The position \<open>c\<close> is at the first of the remaining words, or behind the line when there are none.\<close>

definition at :: "char list \<Rightarrow> nat \<Rightarrow> nat \<Rightarrow> string list \<Rightarrow> bool" where
  "at str len c ws \<longleftrightarrow> nul_words (drop c str) = ws \<and> (if ws = [] then c = Suc len else c < len \<and> str ! c \<noteq> NUL)"

lemma rd_nul: "line str len \<Longrightarrow> c \<le> Suc len \<Longrightarrow> rd str c = Some (str ! c)"
  by (simp add: line_def rd_def)

lemma drop_step: "line str len \<Longrightarrow> c \<le> Suc len \<Longrightarrow> drop c str = str ! c # drop (Suc c) str"
  by (simp add: line_def Cons_nth_drop_Suc)

lemma runs_all_sep: "\<forall>c \<in> set s. sep c \<Longrightarrow> runs sep s = []"
  by (induction s) auto

lemma line_end: "line str len \<Longrightarrow> c \<le> Suc len \<Longrightarrow> str ! c \<noteq> NUL \<Longrightarrow> c < len"
  by (metis leI le_less_trans line_def)

lemma skip_nul_at: "line str len \<Longrightarrow> c \<le> Suc len \<Longrightarrow> \<exists>c'. skip_nul str c len = Some c' \<and> at str len c' (nul_words (drop c str))"
proof (induction "Suc len - c" arbitrary: c)
  case 0
  then have c: "c = Suc len" by simp
  have "str ! c = NUL" using 0(2) c by (simp add: line_def)
  have "\<forall>x \<in> set (drop c str). x = NUL" using 0(2) c by (auto simp: line_def in_set_conv_nth)
  then have "nul_words (drop c str) = []" by (rule runs_all_sep)
  then show ?case using 0 c by (subst skip_nul.simps) (simp add: rd_nul at_def)
next
  case (Suc n)
  show ?case
  proof (cases "str ! c = NUL")
    case True
    have "nul_words (drop c str) = nul_words (drop (Suc c) str)" using drop_step [OF Suc.prems] True by simp
    moreover have "skip_nul str c len = skip_nul str (Suc c) len" using True Suc.hyps(2) rd_nul [OF Suc.prems] by (subst skip_nul.simps) auto
    ultimately show ?thesis using Suc.hyps(1) [of "Suc c"] Suc.hyps(2) Suc.prems by simp
  next
    case False
    have "c < len" using line_end [OF Suc.prems False] .
    moreover have "nul_words (drop c str) \<noteq> []" using drop_step [OF Suc.prems] False runs_hd [of "drop c str"] by auto
    ultimately show ?thesis using False rd_nul [OF Suc.prems] by (subst skip_nul.simps) (simp add: at_def)
  qed
qed

lemma at_word:
  assumes l: "line str len" and a: "at str len c (w # ws)"
  obtains t where "drop c str = w @ NUL # t" "NUL \<notin> set w" "w \<noteq> []" "nul_words t = ws" "c + length w \<le> len"
proof -
  have c: "nul_words (drop c str) = w # ws" "c < len" "str ! c \<noteq> NUL" using a by (auto simp: at_def)
  define v where "v = takeWhile (\<lambda>c. c \<noteq> NUL) (drop c str)"
  have len: "c + length v \<le> len"
  proof (rule ccontr)
    assume n: "\<not> c + length v \<le> len"
    then have k: "len - c < length v" using c(2) by simp
    have "NUL \<notin> set v" by (auto simp: v_def dest: set_takeWhileD)
    then have "v ! (len - c) \<noteq> NUL" using nth_mem [OF k] by metis
    then have "drop c str ! (len - c) \<noteq> NUL" using k by (simp add: v_def takeWhile_nth)
    moreover have "str ! len = NUL" "len < length str" using l by (auto simp: line_def)
    ultimately show False using c(2) by simp
  qed
  have nul: "drop c str = v @ NUL # drop (Suc (length v)) (drop c str)"
  proof -
    have s: "length v < length (drop c str)" using len l by (auto simp: line_def)
    then have "drop c str ! length v = NUL" using nth_length_takeWhile [of "\<lambda>c. c \<noteq> NUL" "drop c str"] by (simp add: v_def)
    then show ?thesis using s id_take_nth_drop [of "length v" "drop c str"] by (simp add: v_def takeWhile_eq_take [symmetric])
  qed
  have v: "NUL \<notin> set v" "v \<noteq> []"
  proof -
    show "NUL \<notin> set v" by (auto simp: v_def dest: set_takeWhileD)
    show "v \<noteq> []" using c(2,3) drop_step [OF l, of c] by (simp add: v_def)
  qed
  have "nul_words (drop c str) = v # nul_words (drop (Suc (length v)) (drop c str))"
    by (subst nul) (use v runs_word [of v "\<lambda>c. c = NUL" "NUL # drop (Suc (length v)) (drop c str)"] in auto)
  then have "v = w" "nul_words (drop (Suc (length v)) (drop c str)) = ws" using c(1) by auto
  then show ?thesis using that nul v len by blast
qed

lemma skip_word_over:
  "line str len \<Longrightarrow> drop c str = w @ NUL # t \<Longrightarrow> NUL \<notin> set w \<Longrightarrow> c + length w \<le> len \<Longrightarrow> skip_word str c len = Some (c + length w)"
proof (induction w arbitrary: c)
  case Nil
  then have "str ! c = NUL" using drop_step [of str len c] by simp
  then show ?case using Nil rd_nul [of str len c] by (subst skip_word.simps) simp
next
  case (Cons x w)
  have "str ! c = x" "drop (Suc c) str = w @ NUL # t" using Cons.prems drop_step [of str len c] by auto
  then show ?case using Cons rd_nul [of str len c] by (subst skip_word.simps) auto
qed

lemma find_next_at:
  assumes l: "line str len" and a: "at str len c (w # ws)"
  shows "\<exists>c'. find_next str c len = Some c' \<and> at str len c' ws"
proof -
  obtain t where t: "drop c str = w @ NUL # t" "NUL \<notin> set w" "w \<noteq> []" "nul_words t = ws" "c + length w \<le> len" by (rule at_word [OF l a])
  have "drop (c + length w) str = NUL # t" using t(1) by (metis add.commute append_eq_conv_conj drop_drop)
  then have "nul_words (drop (c + length w) str) = ws" using t(4) by simp
  then show ?thesis using skip_nul_at [OF l, of "c + length w"] skip_word_over [OF l t(1,2,5)] t(5) by (simp add: find_next_def)
qed

lemma find_next_end: "line str len \<Longrightarrow> at str len c [] \<Longrightarrow> find_next str c len = Some c"
  using rd_nul [of str len c] by (simp add: find_next_def at_def skip_word.simps skip_nul.simps)

lemma word_at_at:
  assumes l: "line str len" and a: "at str len c ws"
  shows "word_at str c = Some (case ws of [] \<Rightarrow> [] | w # _ \<Rightarrow> w)" "rd str c = Some (str ! c)" "str ! c = NUL \<longleftrightarrow> ws = []"
proof -
  have c: "c \<le> Suc len" using a by (auto simp: at_def split: if_splits)
  show "rd str c = Some (str ! c)" by (rule rd_nul [OF l c])
  show "str ! c = NUL \<longleftrightarrow> ws = []" using a l by (auto simp: at_def line_def split: if_splits)
  show "word_at str c = Some (case ws of [] \<Rightarrow> [] | w # _ \<Rightarrow> w)"
  proof (cases ws)
    case Nil
    then have "drop c str = NUL # drop (Suc c) str" using \<open>str ! c = NUL \<longleftrightarrow> ws = []\<close> drop_step [OF l c] by simp
    then show ?thesis using Nil by (simp add: word_at_def)
  next
    case (Cons w vs)
    then obtain t where "drop c str = w @ NUL # t" "NUL \<notin> set w" using at_word [OF l] a by metis
    moreover have "terminated (w @ NUL # t)" by (simp add: terminated_def)
    moreover have "cstr (w @ NUL # t) = w" if "NUL \<notin> set w" using that by (induction w) auto
    ultimately show ?thesis using Cons by (simp add: word_at_def)
  qed
qed

section \<open>Lines of words\<close>

text \<open>
  What a line means: its arguments, where its input comes from, where its output goes and whether it is
  appended, and whether it runs in the background.
\<close>

record command_line =
  args :: "string list"
  input_from :: "string option"
  output_to :: "(bool \<times> string) option"
  background :: bool

fun read_words :: "bool \<Rightarrow> string list \<Rightarrow> command_line \<Rightarrow> command_line option" where
  "read_words amp [] cl = Some cl"
| "read_words amp [w] cl = (if amp \<and> w = ''&'' then Some (cl\<lparr>background := True\<rparr>)
     else if w \<in> {''>>'', ''>'', ''<''} then None
     else Some (cl\<lparr>args := args cl @ [w]\<rparr>))"
| "read_words amp (w # n # ws) cl =
     (if w = ''>>'' then
        (if output_to cl \<noteq> None \<or> amp \<and> n \<in> {''>>'', ''>'', ''<''} then None
         else read_words amp ws (cl\<lparr>output_to := Some (True, n)\<rparr>))
      else if w = ''>'' then
        (if output_to cl \<noteq> None then None else read_words amp ws (cl\<lparr>output_to := Some (False, n)\<rparr>))
      else if w = ''<'' then
        (if input_from cl \<noteq> None then None else read_words amp ws (cl\<lparr>input_from := Some n\<rparr>))
      else read_words amp (n # ws) (cl\<lparr>args := args cl @ [w]\<rparr>))"

definition empty_line :: command_line where
  "empty_line = \<lparr>args = [], input_from = None, output_to = None, background = False\<rparr>"

text \<open>The state of the parser that stands for a line read so far.\<close>

definition stands_for :: "char list \<Rightarrow> parsed \<Rightarrow> command_line \<Rightarrow> bool" where
  "stands_for str st cl \<longleftrightarrow> map (word_at str) (argc st) = map Some (args cl)
     \<and> (case input_from cl of None \<Rightarrow> iflag st = 0 | Some n \<Rightarrow> iflag st = 3 \<and> iname st = n)
     \<and> (case output_to cl of None \<Rightarrow> oflag st = 0 | Some (app, n) \<Rightarrow> oflag st = (if app then 2 else 1) \<and> oname st = n)
     \<and> aflag st = (if background cl then 1 else 0)"

text \<open>The final state: as above, with the number of arguments; an index behind them may be left over.\<close>

definition reads_as :: "char list \<Rightarrow> parsed \<Rightarrow> command_line \<Rightarrow> bool" where
  "reads_as str st cl \<longleftrightarrow> narg st = int (length (args cl)) \<and> length (args cl) \<le> length (argc st)
     \<and> stands_for str (st\<lparr>argc := take (length (args cl)) (argc st)\<rparr>) cl"

lemma parse_loop_unfold:
  assumes l: "line str len" and a: "at str len c ws"
  shows "parse_loop amp str c len st = (if ws = [] then Some (1, st)
    else do { r \<leftarrow> parse_word amp str c len st; if r = None then Some (- 1, st)
       else do { c' \<leftarrow> find_next str (fst (the r)) len; parse_loop amp str c' len (snd (the r)) } })"
  using word_at_at(2,3) [OF l a] by (subst parse_loop.simps) simp

lemma stands_for_len: "stands_for str st cl \<Longrightarrow> length (argc st) = length (args cl)"
  unfolding stands_for_def by (metis length_map)

lemma stands_for_upd:
  assumes "stands_for str st cl"
  shows "stands_for str (st\<lparr>oflag := (if app then 2 else 1), narg := k, oname := n\<rparr>) (cl\<lparr>output_to := Some (app, n)\<rparr>)"
    "stands_for str (st\<lparr>iflag := 3, narg := k, iname := n\<rparr>) (cl\<lparr>input_from := Some n\<rparr>)"
    "word_at str c = Some w \<Longrightarrow> stands_for str (st\<lparr>argc := argc st @ [c]\<rparr>) (cl\<lparr>args := args cl @ [w]\<rparr>)"
  using assms by (auto simp: stands_for_def split: option.splits)

lemma stands_for_flags:
  assumes "stands_for str st cl"
  shows "oflag st \<noteq> 0 \<longleftrightarrow> output_to cl \<noteq> None" "iflag st \<noteq> 0 \<longleftrightarrow> input_from cl \<noteq> None"
  using assms by (auto simp: stands_for_def split: option.splits if_splits)

definition outcome :: "char list \<Rightarrow> (int \<times> parsed) option \<Rightarrow> command_line option \<Rightarrow> bool" where
  "outcome str r cl \<longleftrightarrow> (\<exists>ret st. r = Some (ret, st) \<and> (case cl of None \<Rightarrow> ret = - 1 | Some cl \<Rightarrow> ret = 1 \<and> reads_as str st cl))"

lemma parse_loop_reads:
  assumes l: "line str len"
  shows "at str len c ws \<Longrightarrow> stands_for str st cl \<Longrightarrow> \<not> background cl \<Longrightarrow> narg st = int (length (argc st) + length ws) \<Longrightarrow>
    outcome str (parse_loop amp str c len st) (read_words amp ws cl)"
proof (induction amp ws cl arbitrary: c st rule: read_words.induct)
  case (1 amp cl)
  then show ?case using stands_for_len [OF 1(2)] by (simp add: parse_loop_unfold [OF l 1(1)] outcome_def reads_as_def)
next
  case (2 amp w cl)
  note w = word_at_at [OF l 2(1)] and len = stands_for_len [OF 2(2)] and fl = stands_for_flags [OF 2(2)]
  obtain c1 where c1: "find_next str c len = Some c1" "at str len c1 []" using find_next_at [OF l 2(1)] by blast
  note w1 = word_at_at [OF l c1(2)] and e1 = find_next_end [OF l c1(2)] and u1 = parse_loop_unfold [OF l c1(2)]
  consider "amp \<and> w = ''&''" | "\<not> (amp \<and> w = ''&'')" "w \<in> {''>>'', ''>'', ''<''}" | "\<not> (amp \<and> w = ''&'')" "w \<notin> {''>>'', ''>'', ''<''}" by blast
  then show ?case
  proof cases
    case 1
    then have p: "parse_word amp str c len st = Some (Some (c1, st\<lparr>narg := narg st - 1, aflag := aflag st + 1, argc := argc st @ [c1]\<rparr>))"
      using w(1) c1(1) w1(1) 2(4) by (simp add: parse_word_def)
    have "outcome str (parse_loop amp str c len st) (Some (cl\<lparr>background := True\<rparr>))"
      unfolding parse_loop_unfold [OF l 2(1)] p using e1 u1 2(2-4) len by (auto simp: outcome_def reads_as_def stands_for_def split: option.splits)
    then show ?thesis using 1 by simp
  next
    case 2
    have "parse_word amp str c len st = Some None" using 2 w(1) c1(1) w1(1) by (auto simp: parse_word_def)
    then show ?thesis unfolding parse_loop_unfold [OF l "2.prems"(1)] using 2 by (auto simp: outcome_def)
  next
    case 3
    have p: "parse_word amp str c len st = Some (Some (c, st\<lparr>argc := argc st @ [c]\<rparr>))" using 3 w(1) by (auto simp: parse_word_def)
    have "stands_for str (st\<lparr>argc := argc st @ [c]\<rparr>) (cl\<lparr>args := args cl @ [w]\<rparr>)" using stands_for_upd(3) [OF 2(2)] w(1) by simp
    then have "outcome str (parse_loop amp str c len st) (Some (cl\<lparr>args := args cl @ [w]\<rparr>))"
      unfolding parse_loop_unfold [OF l 2(1)] p using c1(1) u1 2(4) len by (simp add: outcome_def reads_as_def)
    then show ?thesis using 3 by auto
  qed
next
  case (3 amp w n ws cl)
  note w = word_at_at [OF l 3(5)] and len = stands_for_len [OF 3(6)] and fl = stands_for_flags [OF 3(6)]
  obtain c1 where c1: "find_next str c len = Some c1" "at str len c1 (n # ws)" using find_next_at [OF l 3(5)] by blast
  obtain c2 where c2: "find_next str c1 len = Some c2" "at str len c2 ws" using find_next_at [OF l c1(2)] by blast
  note w1 = word_at_at [OF l c1(2)]
  have ne: "n \<noteq> []" using at_word [OF l c1(2)] by metis
  have amp: "\<not> (int (length (argc st)) + 1 = narg st)" using 3(8) by simp
  have amp1: "\<not> (amp \<and> w = ''&'' \<and> int (length (argc st)) + 1 = narg st)" using amp by blast
  have word: "word_at str c = Some w" "word_at str c1 = Some n" using w(1) w1(1) by simp_all
  have step: "outcome str (parse_loop amp str c len st) (read_words amp ws cl')"
    if "parse_word amp str c len st = Some (Some (c1, st'))" "outcome str (parse_loop amp str c2 len st') (read_words amp ws cl')" for st' cl'
    unfolding parse_loop_unfold [OF l 3(5)] using that c2(1) by simp
  have stop: "outcome str (parse_loop amp str c len st) None" if "parse_word amp str c len st = Some None"
    unfolding parse_loop_unfold [OF l 3(5)] using that by (simp add: outcome_def)
  consider "w = ''>>''" | "w = ''>''" | "w = ''<''" | "w \<noteq> ''>>''" "w \<noteq> ''>''" "w \<noteq> ''<''" by blast
  then show ?case
  proof cases
    case 1
    show ?thesis
    proof (cases "output_to cl \<noteq> None \<or> amp \<and> n \<in> {''>>'', ''>'', ''<''}")
      case True
      have "parse_word amp str c len st = Some None" using True 1 word c1(1) fl(1) by (auto simp: parse_word_def)
      then show ?thesis using stop True 1 by auto
    next
      case False
      let ?st = "st\<lparr>oflag := 2, narg := narg st - 2, oname := n\<rparr>"
      have "parse_word amp str c len st = Some (Some (c1, ?st))" using False 1 word c1(1) fl(1) ne by (auto simp: parse_word_def)
      moreover have "outcome str (parse_loop amp str c2 len ?st) (read_words amp ws (cl\<lparr>output_to := Some (True, n)\<rparr>))"
        using 3(1) [OF 1 False c2(2), of ?st] stands_for_upd(1) [where app = True, OF 3(6)] 3(7,8) by simp
      ultimately show ?thesis using step False 1 by auto
    qed
  next
    case 2
    show ?thesis
    proof (cases "output_to cl \<noteq> None")
      case True
      have "parse_word amp str c len st = Some None" using True 2 word c1(1) fl(1) by (auto simp: parse_word_def)
      then show ?thesis using stop True 2 by auto
    next
      case False
      let ?st = "st\<lparr>oflag := 1, narg := narg st - 2, oname := n\<rparr>"
      have "parse_word amp str c len st = Some (Some (c1, ?st))" using False 2 word c1(1) fl(1) ne by (auto simp: parse_word_def)
      moreover have "outcome str (parse_loop amp str c2 len ?st) (read_words amp ws (cl\<lparr>output_to := Some (False, n)\<rparr>))"
        using 3(2) [of c2 ?st] 2 False c2(2) stands_for_upd(1) [where app = False, OF 3(6)] 3(7,8) by simp
      ultimately show ?thesis using step False 2 by auto
    qed
  next
    case 3
    show ?thesis
    proof (cases "input_from cl \<noteq> None")
      case True
      have "parse_word amp str c len st = Some None" using True 3 word c1(1) fl(2) by (auto simp: parse_word_def)
      then show ?thesis using stop True 3 by auto
    next
      case False
      let ?st = "st\<lparr>iflag := 3, narg := narg st - 2, iname := n\<rparr>"
      have "parse_word amp str c len st = Some (Some (c1, ?st))" using False 3 word c1(1) fl(2) ne by (auto simp: parse_word_def)
      moreover have "outcome str (parse_loop amp str c2 len ?st) (read_words amp ws (cl\<lparr>input_from := Some n\<rparr>))"
        using "3.IH"(3) [of c2 ?st] 3 False c2(2) stands_for_upd(2) [OF "3.prems"(2)] "3.prems"(3,4) by simp
      ultimately show ?thesis using step False 3 by auto
    qed
  next
    case 4
    let ?st = "st\<lparr>argc := argc st @ [c]\<rparr>"
    have p: "parse_word amp str c len st = Some (Some (c, ?st))" using 4 word amp1 by (auto simp: parse_word_def)
    have "outcome str (parse_loop amp str c1 len ?st) (read_words amp (n # ws) (cl\<lparr>args := args cl @ [w]\<rparr>))"
      using 3(4) [of c1 ?st] 4 c1(2) stands_for_upd(3) [OF 3(6) word(1)] 3(7,8) by simp
    then show ?thesis unfolding parse_loop_unfold [OF l 3(5)] using p c1(1) 4 by simp
  qed
qed

section \<open>Theorems\<close>

lemma line_of: "NUL \<notin> set s \<Longrightarrow> 2 \<le> k \<Longrightarrow> line (blank s @ replicate k NUL) (length s)"
  by (auto simp: line_def blank_def nth_append)

lemma parse_meaning:
  assumes s: "NUL \<notin> set s" and k: "2 \<le> k"
  shows "\<exists>r str st. (if amp then parse else parse_1) (s @ replicate k NUL) = Some (r, str, st) \<and>
    (if words s = [] then r = - 1
     else (case read_words amp (words s) empty_line of None \<Rightarrow> r = - 1 | Some cl \<Rightarrow> r = 1 \<and> reads_as str st cl))"
proof -
  let ?str = "blank s @ replicate k NUL"
  let ?st = "\<lparr>iname = [], oname = [], iflag = 0, oflag = 0, aflag = 0, narg = int (length (words s)), argc = []\<rparr>"
  have kk: "replicate k NUL = NUL # replicate (k - 1) NUL" using k by (cases k) auto
  have m: "mark False (s @ replicate k NUL) = Some (?str, length (words s), length s)" unfolding kk using mark_line [OF s, of False] by simp
  have l: "line ?str (length s)" by (rule line_of [OF s k])
  have p: "(if amp then parse else parse_1) = parse_line amp" by (simp add: parse_def parse_1_def)
  show ?thesis
  proof (cases "words s = []")
    case True
    then show ?thesis unfolding p using m by (simp add: parse_line_def)
  next
    case False
    obtain c where c: "skip_nul ?str 0 (length s) = Some c" "at ?str (length s) c (words s)"
      using skip_nul_at [OF l, of 0] nul_words_blank [OF s] by auto
    have "stands_for ?str ?st empty_line" by (simp add: stands_for_def empty_line_def)
    then have "outcome ?str (parse_loop amp ?str c (length s) ?st) (read_words amp (words s) empty_line)"
      using parse_loop_reads [OF l c(2)] by (simp add: empty_line_def)
    then obtain r st where "parse_loop amp ?str c (length s) ?st = Some (r, st)"
      "case read_words amp (words s) empty_line of None \<Rightarrow> r = - 1 | Some cl \<Rightarrow> r = 1 \<and> reads_as ?str st cl" by (auto simp: outcome_def)
    then show ?thesis unfolding p using m c(1) False by (simp add: parse_line_def)
  qed
qed



lemma parse_loop_stuck:
  assumes w: "word_at str (Suc len) = Some v" "v \<notin> {[], ''>>'', ''>'', ''<'', ''&''}"
  shows "parse_loop amp str (Suc len) len st = None"
proof -
  have r: "\<exists>x. rd str (Suc len) = Some x \<and> x \<noteq> NUL"
  proof -
    have "drop (Suc len) str \<noteq> []" using w(1) by (auto simp: word_at_def split: if_splits)
    then have "drop (Suc len) str = str ! Suc len # drop (Suc (Suc len)) str" "Suc len < length str" by (simp_all add: Cons_nth_drop_Suc)
    then show ?thesis using w by (auto simp: word_at_def rd_def split: if_splits)
  qed
  then have f: "find_next str (Suc len) len = Some (Suc len)" by (auto simp: find_next_def skip_word.simps skip_nul.simps)
  have p: "parse_word amp str (Suc len) len st = Some (Some (Suc len, st\<lparr>argc := argc st @ [Suc len]\<rparr>))" for st
    using w by (simp add: parse_word_def)
  have "a = amp \<longrightarrow> s = str \<longrightarrow> c = Suc len \<longrightarrow> l = len \<longrightarrow> False" if "parse_loop a s c l st = Some y" for a s c l st y
  proof (rule parse_loop.raw_induct [OF _ that], intro impI)
    fix g a s c l st y
    assume IH: "\<And>a s c l st y. g a s c l st = Some y \<Longrightarrow> a = amp \<longrightarrow> s = str \<longrightarrow> c = Suc len \<longrightarrow> l = len \<longrightarrow> False"
      and body: "do { x \<leftarrow> rd s c; if x = NUL then Some (1, st) else do { r \<leftarrow> parse_word a s c l st;
         if r = None then Some (- 1, st) else do { c' \<leftarrow> find_next s (fst (the r)) l; g a s c' l (snd (the r)) } } } = Some y"
      and eq: "a = amp" "s = str" "c = Suc len" "l = len"
    obtain x where "rd str (Suc len) = Some x" "x \<noteq> NUL" using r by blast
    then have "g amp str (Suc len) len (st\<lparr>argc := argc st @ [Suc len]\<rparr>) = Some y" using body f p unfolding eq by simp
    then show False using IH by blast
  qed
  then show ?thesis by (metis option.exhaust)
qed

text \<open>
  A null character inside the input: when the line is a single word and the buffer goes on with
  another word behind the null character, the parser never returns, since \<^verbatim>\<open>find_next\<close> stays at the byte
  behind the end of the line.
\<close>

theorem parse_embedded_null_hangs:
  assumes w: "w \<noteq> []" "\<forall>c \<in> set w. c \<noteq> NUL \<and> \<not> isspace c" "w \<notin> {''>>'', ''>'', ''<'', ''&''}"
    and v: "v \<noteq> []" "NUL \<notin> set v" "v \<notin> {''>>'', ''>'', ''<'', ''&''}"
  shows "parse (w @ NUL # v @ NUL # t) = None \<and> parse_1 (w @ NUL # v @ NUL # t) = None"
proof -
  let ?str = "w @ NUL # v @ NUL # t"
  have cs: "cstr (u @ NUL # x) = u" if "NUL \<notin> set u" for u x using that by (induction u) auto
  have nw: "NUL \<notin> set w" using w(2) by auto
  have ws: "words w = [w]" using runs_word [OF w(1), of isspace "[]"] w(2) by simp
  have bl: "blank w = w" using w(2) by (simp add: blank_def map_idI)
  have m: "mark False ?str = Some (?str, 1, length w)" using mark_line [OF nw, of False "v @ NUL # t"] by (simp add: ws bl)
  have at0: "rd ?str 0 = Some (hd w)" "hd w \<noteq> NUL" using w(1,2) by (cases w; simp add: rd_def)+
  have s0: "skip_nul ?str 0 (length w) = Some 0" using at0 by (subst skip_nul.simps) simp
  have w0: "word_at ?str 0 = Some w" using cs [OF nw] by (simp add: word_at_def terminated_def)
  have wv: "word_at ?str (Suc (length w)) = Some v" using cs [OF v(2)] by (simp add: word_at_def terminated_def)
  have sw: "skip_word ?str c (length w) = Some (length w)" if "c \<le> length w" for c
    using that
  proof (induction "length w - c" arbitrary: c)
    case 0
    then have "rd ?str c = Some NUL" by (simp add: rd_def nth_append)
    then show ?case using 0 by (subst skip_word.simps) simp
  next
    case (Suc n)
    then have c: "c < length w" by simp
    then have "rd ?str c = Some (w ! c)" "w ! c \<noteq> NUL" using w(2) by (simp_all add: rd_def nth_append)
    then show ?case using Suc by (subst skip_word.simps) simp
  qed
  have sn: "skip_nul ?str (length w) (length w) = Some (Suc (length w))"
  proof -
    have "rd ?str (Suc (length w)) = Some (hd v)" using v(1) by (cases v) (simp_all add: rd_def nth_append)
    then have "skip_nul ?str (Suc (length w)) (length w) = Some (Suc (length w))" by (subst skip_nul.simps) simp
    moreover have "rd ?str (length w) = Some NUL" by (simp add: rd_def)
    ultimately show ?thesis by (subst skip_nul.simps) simp
  qed
  have f: "find_next ?str 0 (length w) = Some (Suc (length w))" using sw [of 0] sn by (simp add: find_next_def)
  have loop: "parse_loop amp ?str 0 (length w) st = None" if "narg st = 1" for amp st
  proof -
    have "parse_word amp ?str 0 (length w) st = Some (Some (0, st\<lparr>argc := argc st @ [0]\<rparr>))" using w0 w(3) by (simp add: parse_word_def)
    then show ?thesis using at0 f parse_loop_stuck [OF wv] v(1,3) by (subst parse_loop.simps) simp
  qed
  have "parse_line amp ?str = None" for amp using m s0 loop by (simp add: parse_line_def)
  then show ?thesis by (simp add: parse_def parse_1_def)
qed

theorem parse_embedded_null_hangs_witness:
  "parse (''ls'' @ NUL # ''x'' @ NUL # [NUL]) = None \<and> parse_1 (''ls'' @ NUL # ''x'' @ NUL # [NUL]) = None"
  by (rule parse_embedded_null_hangs) (simp_all add: isspace_def)

end
