(* ===== verification/ShellMain.thy ===== *)
theory ShellMain
  imports ShellCorrect ShellParse
begin

text \<open>
  The loop of the second shell, \<^verbatim>\<open>repl\<close> in \<^verbatim>\<open>src/shell_2/sh.c\<close>: one round reads a line, reaps, parses the
  line and runs the command. The setting of signals and the child's side of a \<^verbatim>\<open>fork\<close> are added in \<open>ShellSession\<close>; the prompt is
  left out.
\<close>

section \<open>One round\<close>

datatype round = Go_on shell | Leave shell

definition acts :: "action list \<Rightarrow> shell \<Rightarrow> shell" where
  "acts as sh = foldl (\<lambda>sh a. act a sh) sh as"

definition run_command :: "system \<Rightarrow> ((nat \<rightharpoonup> job_element) \<Rightarrow> nat) \<Rightarrow> int \<Rightarrow> string list \<Rightarrow> bool \<Rightarrow> shell \<Rightarrow> round option" where
  "run_command sys malloc childpid argv amp sh = do {
     cmd \<leftarrow> rd argv 0;
     if cmd = ''cd'' then map_option Go_on (cd sys (length argv) (rd argv 1) sh)
     else if cmd = ''rm'' then Some (Go_on (rm sys argv sh))
     else if cmd = ''ln'' then Some (Go_on (ln_cmd sys argv sh))
     else if cmd = ''exit'' then Some (if length argv = 1 then Leave sh else Go_on (output_msg 2 ''exit: syntax error'' sh))
     else if cmd = ''fg'' then map_option Go_on (fg sys argv sh)
     else if cmd = ''bg'' then map_option Go_on (bg sys argv sh)
     else if cmd = ''jobs'' then map_option (\<lambda>lines. Go_on (acts (map (Output 1) lines) sh)) (jobs (aloj sh))
     else map_option Go_on (fork_process sys (malloc (store (the (aloj sh)))) childpid argv amp sh)
   }"

definition repl_round :: "system \<Rightarrow> ((nat \<rightharpoonup> job_element) \<Rightarrow> nat) \<Rightarrow> int \<Rightarrow> int \<Rightarrow> char list \<Rightarrow> shell \<Rightarrow> round option" where
  "repl_round sys malloc childpid isize buf sh = do {
     sh \<leftarrow> reap sys sh;
     if isize < 0 then Some (Leave (act (Perror ''input error'') sh))
     else if isize = 0 then do {
       (kills, _) \<leftarrow> cleanup_job_list (aloj sh);
       Some (Leave (acts (map Kill kills) (sh\<lparr>aloj := None\<rparr>)))
     }
     else do {
       (r, str, st) \<leftarrow> parse buf;
       if r = - 1 then Some (Go_on sh)
       else do { argv \<leftarrow> arguments str st; run_command sys malloc childpid argv (aflag st \<noteq> 0) sh }
     }
   }"

section \<open>The invariant\<close>

lemma acts_ok [simp]: "shell_ok (acts as sh) xs \<longleftrightarrow> shell_ok sh xs" "actions (acts as sh) = actions sh @ as" "aloj (acts as sh) = aloj sh"
  "settled xs n (acts as sh) \<longleftrightarrow> settled xs n sh"
  by (induction as arbitrary: sh) (simp_all add: acts_def, simp_all add: act_def)

lemma those_Some: "map f cs = map Some xs \<Longrightarrow> those (map f cs) = Some xs"
  by (simp add: those_map_Some)

lemma arguments_read: "reads_as str st cl \<Longrightarrow> arguments str st = Some (args cl)"
  by (auto simp: reads_as_def arguments_def stands_for_def min_def intro!: those_Some)

text \<open>
  What a command needs: it has a first word; \<^verbatim>\<open>fg\<close> has an argument; the number of \<^verbatim>\<open>fg\<close> and \<^verbatim>\<open>bg\<close> is an
  \<^verbatim>\<open>int\<close>; the path of \<^verbatim>\<open>cd\<close> fits the buffer; the lines of \<^verbatim>\<open>jobs\<close> fit the buffer; a new job has a number.
\<close>

definition command_ok :: "system \<Rightarrow> job_element list \<Rightarrow> string list \<Rightarrow> bool" where
  "command_ok sys xs argv \<longleftrightarrow> argv \<noteq> [] \<and>
     (hd argv = ''cd'' \<longrightarrow> (\<exists>d. getcwd sys = Some d \<and> (\<forall>w \<in> set argv. length d + 1 + length w < 1024))) \<and>
     (hd argv = ''fg'' \<longrightarrow> 2 \<le> length argv) \<and>
     (hd argv \<in> {''fg'', ''bg''} \<longrightarrow> (\<forall>w \<in> set argv. atoi (drop 1 w) \<noteq> None)) \<and>
     (hd argv = ''jobs'' \<longrightarrow> (\<forall>x \<in> set xs. job_line x \<noteq> None))"

lemma settled_refl: "shell_ok sh xs \<Longrightarrow> settled xs (job_id sh) sh"
  unfolding settled_def using descend_refl by blast

lemma descend_append: "descend xs xs' \<Longrightarrow> descend (xs @ ys) (xs' @ ys)"
  by (fastforce simp: descend_def)

lemma settled_more: "settled xs n sh \<Longrightarrow> settled (xs @ ys) n sh"
  unfolding settled_def descend_def by (metis UnI1 set_append)

lemma cd_ok:
  assumes ok: "shell_ok sh xs" and c: "command_ok sys xs argv" "hd argv = ''cd''"
  shows "\<exists>sh'. cd sys (length argv) (rd argv 1) sh = Some sh' \<and> settled xs (job_id sh) sh'"
proof (cases "length argv \<le> 1")
  case False
  then have r: "rd argv 1 = Some (argv ! 1)" "argv ! 1 \<in> set argv" by (simp_all add: rd_def)
  obtain d where d: "getcwd sys = Some d" "\<forall>w \<in> set argv. length d + 1 + length w < 1024" using c unfolding command_ok_def by blast
  have "length d + 1 + length (argv ! 1) < 1024" using d(2) r(2) by blast
  then show ?thesis using False settled_refl [OF ok] r(1) d(1) by (auto simp: cd_def Let_def)
qed (use settled_refl [OF ok] in \<open>simp add: cd_def\<close>)

lemma rm_ln_ok: "shell_ok sh xs \<Longrightarrow> settled xs (job_id sh) (rm sys argv sh)" "shell_ok sh xs \<Longrightarrow> settled xs (job_id sh) (ln_cmd sys argv sh)"
  by (simp_all add: rm_def ln_cmd_def Let_def settled_refl)

text \<open>The job that a line would start.\<close>

definition new_job :: "shell \<Rightarrow> int \<Rightarrow> string list \<Rightarrow> job_element" where
  "new_job sh p argv = \<lparr>jid = job_id sh + 1, pid = p, state = STATE_RUNNING, command = hd argv, link = None\<rparr>"

definition after_command :: "round option \<Rightarrow> job_element list \<Rightarrow> int \<Rightarrow> bool" where
  "after_command r xs n \<longleftrightarrow> (\<exists>sh. (r = Some (Go_on sh) \<or> r = Some (Leave sh)) \<and> (settled xs n sh \<or> settled xs (n + 1) sh))"

lemma after_commandI:
  "settled xs n sh \<Longrightarrow> after_command (Some (Go_on sh)) xs n" "settled xs (n + 1) sh \<Longrightarrow> after_command (Some (Go_on sh)) xs n"
  "settled xs n sh \<Longrightarrow> after_command (Some (Leave sh)) xs n"
  by (auto simp: after_command_def)

lemma run_command_ok:
  assumes ok: "shell_ok sh xs" and c: "command_ok sys xs argv" and m: "\<And>s. finite (dom s) \<Longrightarrow> s (malloc s) = None"
    and p: "p > 0" "p \<notin> pid ` set xs" and j: "job_id sh < INT_MAX"
  shows "after_command (run_command sys malloc p argv amp sh) (xs @ [new_job sh p argv]) (job_id sh)"
proof -
  obtain l where l: "aloj sh = Some l" "job_rel l [] xs" by (rule shell_okE [OF ok])
  obtain cmd rest where a: "argv = cmd # rest" using c by (cases argv) (auto simp: command_ok_def)
  have rd0: "rd argv 0 = Some cmd" using a by (simp add: rd_def)
  obtain as bs where "dom (store l) = set (as @ bs)" by (rule job_relE [OF l(2)])
  then have "store l (malloc (store l)) = None" by (intro m) simp
  note F = fork_process_ok [OF ok l(1) this p j a, of sys amp]
  note same = settled_more [OF settled_refl [OF ok]]
  consider "cmd = ''cd''" | "cmd = ''fg''" | "cmd = ''bg''" | "cmd = ''jobs''" | "cmd = ''rm''" | "cmd = ''ln''" | "cmd = ''exit''"
    | "cmd \<noteq> ''cd''" "cmd \<noteq> ''rm''" "cmd \<noteq> ''ln''" "cmd \<noteq> ''exit''" "cmd \<noteq> ''fg''" "cmd \<noteq> ''bg''" "cmd \<noteq> ''jobs''" by argo
  then show ?thesis
  proof cases
    case 1
    then show ?thesis using cd_ok [OF ok c] rd0 a by (auto simp: run_command_def intro!: after_commandI(1) settled_more)
  next
    case 2
    have "\<forall>w \<in> set argv. atoi (drop 1 w) \<noteq> None" "2 \<le> length argv" using c 2 a by (auto simp: command_ok_def)
    then show ?thesis using fg_ok [OF ok, of argv sys] rd0 2 by (auto simp: run_command_def intro!: after_commandI(1) settled_more)
  next
    case 3
    have "\<forall>w \<in> set argv. atoi (drop 1 w) \<noteq> None" using c 3 a by (auto simp: command_ok_def)
    then show ?thesis using bg_ok [OF ok, of argv sys] rd0 3 by (auto simp: run_command_def intro!: after_commandI(1) settled_more)
  next
    case 4
    have "\<forall>x \<in> set ([] @ xs). job_line x \<noteq> None" using c 4 a by (auto simp: command_ok_def)
    then have "jobs (Some l) = Some (map (\<lambda>x. the (job_line x)) xs)" using jobs_lines [OF l(2)] by simp
    then show ?thesis using rd0 4 l(1) same by (auto simp: run_command_def intro!: after_commandI(1))
  next
    case 5
    then have "run_command sys malloc p argv amp sh = Some (Go_on (rm sys argv sh))" using rd0 by (simp add: run_command_def)
    then show ?thesis using rm_ln_ok(1) [OF ok] by (auto intro!: after_commandI(1) settled_more)
  next
    case 6
    then have "run_command sys malloc p argv amp sh = Some (Go_on (ln_cmd sys argv sh))" using rd0 by (simp add: run_command_def)
    then show ?thesis using rm_ln_ok(2) [OF ok] by (auto intro!: after_commandI(1) settled_more)
  next
    case 7
    then show ?thesis using rd0 same by (auto simp: run_command_def intro!: after_commandI(1,3))
  next
    case 8
    then have r: "run_command sys malloc p argv amp sh = map_option Go_on (fork_process sys (malloc (store l)) p argv amp sh)"
      using rd0 l(1) by (simp add: run_command_def)
    let ?ys = "xs @ [new_job sh p argv]"
    obtain sh' where sh': "fork_process sys (malloc (store l)) p argv amp sh = Some sh'" "job_id sh' = job_id sh + 1"
      "shell_ok sh' (if amp then ?ys else waited_jobs (waitpid_block sys p) p ?ys)"
    proof -
      have e: "new_job sh p argv = \<lparr>jid = job_id sh + 1, pid = p, state = STATE_RUNNING, command = cmd, link = None\<rparr>"
        using a by (simp add: new_job_def)
      show ?thesis using F that unfolding Let_def e by (elim exE conjE)
    qed
    have "settled ?ys (job_id sh + 1) sh'" by (rule settledI [OF sh'(3)]) (simp_all add: sh'(2))
    then show ?thesis using r sh'(1) by (auto intro!: after_commandI(2))
  qed
qed

definition started :: "string \<Rightarrow> shell \<Rightarrow> int \<Rightarrow> job_element list" where
  "started s sh p = (if words s = [] then [] else case read_words True (words s) empty_line of
       Some cl \<Rightarrow> [new_job sh p (args cl)] | None \<Rightarrow> [])"

text \<open>
  One round on a line: from a consistent state the shell reaps, parses the line and runs the command
  without undefined behaviour, whatever the system answers, provided that \<^verbatim>\<open>fork\<close> returns a new process, the job counter is not
  exhausted and the command meets the conditions of \<open>command_ok\<close>.
\<close>

lemma repl_round_ok:
  assumes ok: "shell_ok sh xs" and buf: "NUL \<notin> set s" "2 \<le> k" and m: "\<And>s. finite (dom s) \<Longrightarrow> s (malloc s) = None"
    and p: "p > 0" "p \<notin> pid ` set xs" and j: "job_id sh < INT_MAX" and i: "0 < isize"
    and c: "\<And>cl. read_words True (words s) empty_line = Some cl \<Longrightarrow> words s \<noteq> [] \<Longrightarrow> command_ok sys (concat (map (settle sys) xs)) (args cl)"
  shows "after_command (repl_round sys malloc p isize (s @ replicate k NUL) sh)
    (xs @ started s sh p) (job_id sh)"
proof -
  let ?xs = "concat (map (settle sys) xs)"
  obtain sh1 where sh1: "reap sys sh = Some sh1" "shell_ok sh1 ?xs" "job_id sh1 = job_id sh" using reap_ok [OF ok] by blast
  have desc: "settled ?xs n t \<Longrightarrow> settled xs n t" for n t
    using descend_trans [OF descend_settle] by (auto simp: settled_def)
  have more: "settled (?xs @ ys) n t \<Longrightarrow> settled (xs @ ys) n t" for n t ys
    using descend_trans [OF descend_append [OF descend_settle]] by (auto simp: settled_def)
  have p1: "p \<notin> pid ` set ?xs"
  proof -
    have "pid y = pid x" if "y \<in> set (settle sys x)" for x y using settle_pid [OF that] .
    then show ?thesis using p(2) by fastforce
  qed
  obtain r str st where q: "parse (s @ replicate k NUL) = Some (r, str, st)"
    "if words s = [] then r = - 1 else (case read_words True (words s) empty_line of None \<Rightarrow> r = - 1 | Some cl \<Rightarrow> r = 1 \<and> reads_as str st cl)"
    using parse_meaning [OF buf, of True] by (simp only: if_True) blast
  show ?thesis
  proof (cases "r = - 1")
    case True
    then have "repl_round sys malloc p isize (s @ replicate k NUL) sh = Some (Go_on sh1)" using sh1(1) q(1) i by (simp add: repl_round_def)
    moreover have "settled xs (job_id sh) sh1" using settled_refl [OF sh1(2)] sh1(3) by (intro desc) simp
    ultimately show ?thesis using settled_more by (auto intro!: after_commandI(1))
  next
    case False
    then obtain cl where cl: "read_words True (words s) empty_line = Some cl" "words s \<noteq> []" "reads_as str st cl" "r = 1"
      using q(2) by (auto split: if_splits option.splits)
    have "repl_round sys malloc p isize (s @ replicate k NUL) sh = run_command sys malloc p (args cl) (aflag st \<noteq> 0) sh1"
      using sh1(1) q(1) i cl(4) arguments_read [OF cl(3)] by (simp add: repl_round_def)
    moreover have "after_command (run_command sys malloc p (args cl) (aflag st \<noteq> 0) sh1) (?xs @ [new_job sh1 p (args cl)]) (job_id sh1)"
      by (rule run_command_ok [OF sh1(2) c [OF cl(1,2)] m p(1) p1]) (use j sh1(3) in simp_all)
    ultimately show ?thesis using more sh1(3) cl(1,2) by (auto simp: after_command_def new_job_def started_def)
  qed
qed

end
