(* ===== verification/Shell1.thy ===== *)
theory Shell1
  imports ShellMain
begin

text \<open>
  The first shell, \<^verbatim>\<open>src/shell_1/sh.c\<close>: one round of \<^verbatim>\<open>repl\<close>, its commands, redirection and the processes
  it starts. The shell has a table of file descriptors that \<^verbatim>\<open>open\<close>, \<^verbatim>\<open>dup\<close>, \<^verbatim>\<open>dup2\<close> and \<^verbatim>\<open>close\<close> change as POSIX
  says; which files open, and what the other calls answer, is a parameter. What leaves the shell is a
  sequence of events. The parser is the one of \<open>ShellParse\<close>; the loop of \<^verbatim>\<open>cd ..\<close> is \<^const>\<open>strip_loop\<close>. The
  prompt is not modelled.
\<close>

section \<open>Descriptors\<close>

datatype target = Keyboard | Screen | Opened string int

type_synonym fd_table = "target option list"

datatype execution = Executed | Not_found | Not_executed string

record kernel =
  can_open :: "string \<Rightarrow> int \<Rightarrow> bool"
  forks :: bool
  execv :: "string list \<Rightarrow> execution"
  chdir_result :: "string \<Rightarrow> int"
  unlink_result :: "string \<Rightarrow> int"
  link_result :: "string \<Rightarrow> string \<Rightarrow> int"
  cwd :: "string option"

fun free_fd :: "fd_table \<Rightarrow> nat option" where
  "free_fd [] = None"
| "free_fd (t # ts) = (if t = None then Some 0 else map_option Suc (free_fd ts))"

definition target_of :: "fd_table \<Rightarrow> nat \<Rightarrow> target option" where
  "target_of t fd = (if fd < length t then t ! fd else None)"

definition open_fd :: "kernel \<Rightarrow> string \<Rightarrow> int \<Rightarrow> fd_table \<Rightarrow> int \<times> fd_table" where
  "open_fd k fname flag t = (case free_fd t of
       None \<Rightarrow> (- 1, t)
     | Some n \<Rightarrow> if can_open k fname flag then (int n, t[n := Some (Opened fname flag)]) else (- 1, t))"

definition dup_fd :: "nat \<Rightarrow> fd_table \<Rightarrow> int \<times> fd_table" where
  "dup_fd fd t = (case free_fd t of
       None \<Rightarrow> (- 1, t)
     | Some n \<Rightarrow> if target_of t fd = None then (- 1, t) else (int n, t[n := target_of t fd]))"

definition dup2_fd :: "int \<Rightarrow> int \<Rightarrow> fd_table \<Rightarrow> int \<times> fd_table" where
  "dup2_fd fd fd2 t =
     (if fd < 0 \<or> fd2 < 0 \<or> target_of t (nat fd) = None \<or> length t \<le> nat fd2 then (- 1, t)
      else (fd2, t[nat fd2 := target_of t (nat fd)]))"

definition close_fd :: "int \<Rightarrow> fd_table \<Rightarrow> fd_table" where
  "close_fd fd t = (if fd < 0 then t else t[nat fd := None])"

section \<open>The shell\<close>

datatype sh_event = Wrote "target option" string | Perr string | Chdir_to string | Unlinked string | Linked string string
  | Ran "string list" "target option" "target option"

record shell1 =
  fds :: fd_table
  saved_in :: int
  saved_out :: int
  events :: "sh_event list"

datatype round1 = Continue shell1 | Quit int shell1

abbreviation STDIN_FILENO :: int where "STDIN_FILENO \<equiv> 0"
abbreviation STDOUT_FILENO :: int where "STDOUT_FILENO \<equiv> 1"
abbreviation STDERR_FILENO :: int where "STDERR_FILENO \<equiv> 2"

definition log_event :: "sh_event \<Rightarrow> shell1 \<Rightarrow> shell1" where
  "log_event e sh = sh\<lparr>events := events sh @ [e]\<rparr>"

text \<open>\<^verbatim>\<open>output\<close>.\<close>

definition output_fd :: "int \<Rightarrow> string \<Rightarrow> shell1 \<Rightarrow> shell1" where
  "output_fd fd msg sh = (if target_of (fds sh) (nat fd) = None then log_event (Perr ''error'') sh
     else log_event (Wrote (target_of (fds sh) (nat fd)) msg) sh)"

definition redir :: "kernel \<Rightarrow> string \<Rightarrow> int \<Rightarrow> int \<Rightarrow> shell1 \<Rightarrow> int \<times> shell1" where
  "redir k fname fd flag sh =
     (let (tempfd, sh) = (if flag \<in> {1, 2, 3} then (let (r, t) = open_fd k fname flag (fds sh) in (r, sh\<lparr>fds := t\<rparr>))
                          else (0, log_event (Perr ''error'') sh)) in
      if tempfd < 0 then (fd, log_event (Perr (''open: Couldn't open the file'' @ [newline])) sh)
      else (let (r, t) = dup2_fd tempfd fd (fds sh); sh = sh\<lparr>fds := t\<rparr> in
        if r < 0 then (fd, log_event (Perr (''dup2: Couldn't duplicate new file descriptor'' @ [newline])) sh)
        else (tempfd, sh)))"

text \<open>
  \<^verbatim>\<open>my_cd\<close>: the buffer of the directory has 1024 bytes; a directory that does not fit, like a failing
  \<^verbatim>\<open>getcwd\<close>, has no result.
\<close>

definition my_cd :: "kernel \<Rightarrow> string \<Rightarrow> shell1 \<Rightarrow> shell1 option" where
  "my_cd k path sh = do {
     target \<leftarrow> (if path = ''..'' then map_option (\<lambda>d. strip_loop d (length d - 1)) (cwd k)
       else if take 1 path = ''/'' then Some path
       else do { d \<leftarrow> cwd k; if length d + 1 + length path < 1024 then Some (d @ ''/'' @ path) else None });
     let sh = log_event (Chdir_to target) sh;
     Some (if chdir_result k target = - 1 then log_event (Perr (''cd: No such file or directory'' @ [newline])) sh else sh)
   }"

text \<open>
  \<^verbatim>\<open>fork_process\<close>: the parent waits, so the child's part comes first. The child writes its message into a
  buffer of 128 bytes.
\<close>

definition child_message :: "string list \<Rightarrow> string \<Rightarrow> shell1 \<Rightarrow> shell1 option" where
  "child_message argv msg sh = (if length msg < 128 then Some (output_fd STDERR_FILENO msg sh) else None)"

definition run_child :: "kernel \<Rightarrow> string list \<Rightarrow> shell1 \<Rightarrow> shell1 option" where
  "run_child k argv sh = do {
     cmd \<leftarrow> rd argv 0;
     case execv k argv of
       Executed \<Rightarrow> Some (log_event (Ran argv (target_of (fds sh) 0) (target_of (fds sh) 1)) sh)
     | Not_found \<Rightarrow> child_message argv (''sh: command not found: '' @ cmd @ [newline]) sh
     | Not_executed reason \<Rightarrow> child_message argv (''sh: execution of '' @ cmd @ '' failed: '' @ reason @ [newline]) sh
   }"

definition fork_process_1 :: "kernel \<Rightarrow> string list \<Rightarrow> shell1 \<Rightarrow> round1 option" where
  "fork_process_1 k argv sh =
     (if \<not> forks k then Some (Quit 1 (log_event (Perr ''fork: '') sh)) else map_option Continue (run_child k argv sh))"

text \<open>The commands of the loop, and the redirections around them.\<close>

definition run_command_1 :: "kernel \<Rightarrow> string list \<Rightarrow> shell1 \<Rightarrow> round1 option" where
  "run_command_1 k argv sh = do {
     cmd \<leftarrow> rd argv 0;
     if cmd = ''cd'' then
       (if 1 < length argv then map_option Continue (my_cd k (argv ! 1) sh)
        else Some (Continue (output_fd STDERR_FILENO (''cd: syntax error'' @ [newline]) sh)))
     else if cmd = ''rm'' then Some (Continue
       (if length argv = 2 then
          (let sh = log_event (Unlinked (argv ! 1)) sh in
           if unlink_result k (argv ! 1) = - 1 then output_fd STDERR_FILENO (''rm: No such file or directory'' @ [newline]) sh else sh)
        else output_fd STDERR_FILENO (''rm: syntax error'' @ [newline]) sh))
     else if cmd = ''ln'' then Some (Continue
       (if length argv = 3 then
          (let sh = log_event (Linked (argv ! 1) (argv ! 2)) sh in
           if link_result k (argv ! 1) (argv ! 2) = - 1 then output_fd STDERR_FILENO (''ln: No such file or directory'' @ [newline]) sh else sh)
        else output_fd STDERR_FILENO (''ln: syntax error'' @ [newline]) sh))
     else if cmd = ''exit'' then
       Some (if length argv = 1 then Quit 0 sh else Continue (output_fd STDERR_FILENO (''exit: syntax error'' @ [newline]) sh))
     else fork_process_1 k argv sh
   }"

definition redirect_line :: "kernel \<Rightarrow> parsed \<Rightarrow> shell1 \<Rightarrow> int \<times> int \<times> shell1" where
  "redirect_line k st sh =
     (let (ifd, sh) = (if iflag st \<noteq> 0 then redir k (iname st) STDIN_FILENO (iflag st) sh else (STDIN_FILENO, sh));
          (ofd, sh) = (if oflag st = 1 \<or> oflag st = 2 then redir k (oname st) STDOUT_FILENO (oflag st) sh else (STDOUT_FILENO, sh))
      in (ifd, ofd, sh))"

definition restore :: "int \<Rightarrow> int \<Rightarrow> shell1 \<Rightarrow> shell1" where
  "restore ifd ofd sh =
     (let sh = (if ofd \<noteq> STDOUT_FILENO then sh\<lparr>fds := close_fd ofd (snd (dup2_fd (saved_out sh) STDOUT_FILENO (fds sh)))\<rparr> else sh) in
      if ifd \<noteq> STDIN_FILENO then sh\<lparr>fds := close_fd ifd (snd (dup2_fd (saved_in sh) STDIN_FILENO (fds sh)))\<rparr> else sh)"

text \<open>
  One round: \<open>isize\<close> is what \<^verbatim>\<open>read\<close> returns and \<open>buf\<close> the buffer after it. A line without arguments
  makes the shell read an index that does not exist.
\<close>

definition repl_round_1 :: "kernel \<Rightarrow> int \<Rightarrow> char list \<Rightarrow> shell1 \<Rightarrow> round1 option" where
  "repl_round_1 k isize buf sh =
     (if isize = 0 then Some (Quit 0 sh)
      else do {
        (r, str, st) \<leftarrow> parse_1 buf;
        if r = - 1 then Some (Continue sh)
        else do {
          argv \<leftarrow> arguments str st;
          let (ifd, ofd, sh) = redirect_line k st sh;
          res \<leftarrow> run_command_1 k argv sh;
          case res of Quit c sh \<Rightarrow> Some (Quit c sh) | Continue sh \<Rightarrow> Some (Continue (restore ifd ofd sh))
        }
      })"

definition start_shell :: "fd_table \<Rightarrow> shell1" where
  "start_shell t = (let (i, t) = dup_fd 0 t; (j, t) = dup_fd 1 t in \<lparr>fds = t, saved_in = i, saved_out = j, events = []\<rparr>)"

end
