(* ===== verification/Shell1Correct.thy ===== *)
theory Shell1Correct
  imports Shell1
begin

text \<open>
  The first shell: every round leaves the descriptor table as it was, and a line runs the program
  that it names with the standard input and output that it names.
\<close>

section \<open>Restoring the descriptors\<close>

definition std_ok :: "shell1 \<Rightarrow> bool" where
  "std_ok sh \<longleftrightarrow> (\<exists>i j. saved_in sh = int i \<and> saved_out sh = int j \<and> 2 \<le> i \<and> 2 \<le> j
     \<and> target_of (fds sh) 0 \<noteq> None \<and> target_of (fds sh) i = target_of (fds sh) 0
     \<and> target_of (fds sh) 1 \<noteq> None \<and> target_of (fds sh) j = target_of (fds sh) 1)"

lemma free_fd_Some: "free_fd t = Some n \<Longrightarrow> n < length t \<and> t ! n = None"
  by (induction t arbitrary: n) (auto simp: nth_Cons' split: if_splits)

lemma free_fd_None: "free_fd t = None \<longleftrightarrow> None \<notin> set t"
  by (induction t) auto

lemma target_of_Some: "target_of t n \<noteq> None \<Longrightarrow> n < length t"
  by (auto simp: target_of_def split: if_splits)

lemma target_of_update: "target_of (t[n := x]) m = (if m = n \<and> n < length t then x else target_of t m)"
  by (auto simp: target_of_def)

lemma log_event_fields [simp]: "fds (log_event e sh) = fds sh" "saved_in (log_event e sh) = saved_in sh" "saved_out (log_event e sh) = saved_out sh"
  by (simp_all add: log_event_def)

lemma output_fd_fields [simp]: "fds (output_fd fd m sh) = fds sh" "saved_in (output_fd fd m sh) = saved_in sh" "saved_out (output_fd fd m sh) = saved_out sh"
  by (simp_all add: output_fd_def)

text \<open>A redirection leaves the table alone, or puts the opened file in a free place and at its descriptor.\<close>

lemma redir_table:
  assumes "redir k fname (int fd) flag sh = (r, sh')" "flag \<in> {1, 2, 3}" "target_of (fds sh) fd \<noteq> None"
  shows "saved_in sh' = saved_in sh \<and> saved_out sh' = saved_out sh \<and>
    (r = int fd \<and> fds sh' = fds sh \<or>
     (\<exists>n x. r = int n \<and> target_of (fds sh) n = None \<and> n < length (fds sh) \<and> fds sh' = (fds sh)[n := Some x, fd := Some x]))"
proof (cases "\<exists>n. free_fd (fds sh) = Some n \<and> can_open k fname flag")
  case False
  then have "open_fd k fname flag (fds sh) = (- 1, fds sh)" by (auto simp: open_fd_def split: option.splits)
  then show ?thesis using assms(1,2) by (auto simp: redir_def)
next
  case True
  then obtain n where n: "free_fd (fds sh) = Some n" "can_open k fname flag" by blast
  let ?x = "Opened fname flag"
  have t: "n < length (fds sh)" "fds sh ! n = None" "fd < length (fds sh)" "fd \<noteq> n"
    using free_fd_Some [OF n(1)] target_of_Some [OF assms(3)] assms(3) by (auto simp: target_of_def)
  have "open_fd k fname flag (fds sh) = (int n, (fds sh)[n := Some ?x])" using n by (simp add: open_fd_def)
  moreover have "dup2_fd (int n) (int fd) ((fds sh)[n := Some ?x]) = (int fd, (fds sh)[n := Some ?x, fd := Some ?x])"
    using t by (simp add: dup2_fd_def target_of_def)
  ultimately have "r = int n \<and> sh' = sh\<lparr>fds := (fds sh)[n := Some ?x, fd := Some ?x]\<rparr>" using assms(1,2) by (auto simp: redir_def Let_def)
  moreover have "target_of (fds sh) n = None" using t by (simp add: target_of_def)
  ultimately show ?thesis using t by auto
qed

definition same_table :: "shell1 \<Rightarrow> shell1 \<Rightarrow> bool" where
  "same_table sh sh' \<longleftrightarrow> fds sh' = fds sh \<and> saved_in sh' = saved_in sh \<and> saved_out sh' = saved_out sh"

lemma same_table_events [simp]: "same_table sh sh" "same_table sh (log_event e sh') \<longleftrightarrow> same_table sh sh'"
  "same_table sh (output_fd fd m sh') \<longleftrightarrow> same_table sh sh'"
  by (simp_all add: same_table_def)

lemma my_cd_table: "my_cd k path sh = Some sh' \<Longrightarrow> same_table sh sh'"
  by (auto simp: my_cd_def bind_eq_Some_conv Let_def split: if_splits)

lemma run_child_table: "run_child k argv sh = Some sh' \<Longrightarrow> same_table sh sh'"
  by (cases "execv k argv") (auto simp: run_child_def child_message_def bind_eq_Some_conv split: if_splits)

lemma fork_process_table: "fork_process_1 k argv sh = Some (Continue sh') \<Longrightarrow> same_table sh sh'"
  by (auto simp: fork_process_1_def run_child_table split: if_splits)

lemma run_command_table:
  assumes "run_command_1 k argv sh = Some (Continue sh')"
  shows "same_table sh sh'"
proof -
  obtain cmd where c: "rd argv 0 = Some cmd" using assms by (cases "rd argv 0") (simp_all add: run_command_1_def)
  consider "cmd = ''cd''" | "cmd = ''rm''" | "cmd = ''ln''" | "cmd = ''exit''"
    | "cmd \<noteq> ''cd''" "cmd \<noteq> ''rm''" "cmd \<noteq> ''ln''" "cmd \<noteq> ''exit''" by argo
  then show ?thesis
  proof cases
    case 1
    then show ?thesis using assms c my_cd_table by (auto simp: run_command_1_def split: if_splits)
  next
    case 5
    then have "run_command_1 k argv sh = fork_process_1 k argv sh" using c by (simp only: run_command_1_def bind.simps if_False)
    then show ?thesis using assms fork_process_table by simp
  qed (use assms c in \<open>auto simp: run_command_1_def Let_def split: if_splits\<close>)
qed

lemma undo_redirection:
  assumes "n < length t" "t ! n = None" "target_of t fd \<noteq> None" "target_of t s = target_of t fd" "s \<noteq> fd"
  shows "close_fd (int n) (snd (dup2_fd (int s) (int fd) (t[n := Some y, fd := Some y]))) = t"
proof -
  have b: "fd < length t" "s < length t" "t ! s = t ! fd" "t ! fd \<noteq> None" "fd \<noteq> n" "s \<noteq> n"
    using target_of_Some [of t fd] target_of_Some [of t s] assms by (auto simp: target_of_def)
  have "dup2_fd (int s) (int fd) (t[n := Some y, fd := Some y]) = (int fd, t[n := Some y, fd := t ! fd])"
    using b assms(5) by (simp add: dup2_fd_def target_of_def)
  then show ?thesis using b assms(1,2) by (auto simp: close_fd_def nth_list_update intro!: nth_equalityI)
qed

lemma restore_table:
  assumes ok: "std_ok sh" and r: "redirect_line k st sh = (ifd, ofd, sh1)" and f: "iflag st \<in> {0, 3}" "oflag st \<in> {0, 1, 2}"
    and sh2: "same_table sh1 sh2"
  shows "same_table sh (restore ifd ofd sh2)"
proof -
  obtain i j where s: "saved_in sh = int i" "saved_out sh = int j" "2 \<le> i" "2 \<le> j"
    "target_of (fds sh) 0 \<noteq> None" "target_of (fds sh) i = target_of (fds sh) 0"
    "target_of (fds sh) 1 \<noteq> None" "target_of (fds sh) j = target_of (fds sh) 1"
    using ok by (auto simp: std_ok_def)
  let ?t = "fds sh"
  define a where "a = (if iflag st \<noteq> 0 then redir k (iname st) 0 (iflag st) sh else (0, sh))"
  obtain x sha where a': "a = (x, sha)" by (cases a)
  have sha: "saved_in sha = int i" "saved_out sha = int j" "x = 0 \<and> fds sha = ?t \<or>
     (\<exists>n y. x = int n \<and> target_of ?t n = None \<and> n < length ?t \<and> fds sha = ?t[n := Some y, 0 := Some y])"
    using redir_table [of k "iname st" 0 "iflag st" sh x sha] f(1) a' s by (auto simp: a_def split: if_splits)
  define b where "b = (if oflag st = 1 \<or> oflag st = 2 then redir k (oname st) 1 (oflag st) sha else (1, sha))"
  obtain z shb where b': "b = (z, shb)" by (cases b)
  have e: "ifd = x" "ofd = z" "sh1 = shb" using r a' b' unfolding redirect_line_def a_def [symmetric] by (auto simp: b_def Let_def)
  have t1: "target_of (fds sha) 1 = target_of ?t 1" "target_of (fds sha) j = target_of ?t j"
    using sha(3) s by (auto simp: target_of_update)
  have shb: "saved_in shb = int i" "saved_out shb = int j" "z = 1 \<and> fds shb = fds sha \<or>
     (\<exists>n y. z = int n \<and> target_of (fds sha) n = None \<and> n < length (fds sha) \<and> fds shb = (fds sha)[n := Some y, 1 := Some y])"
    using redir_table [of k "oname st" 1 "oflag st" sha z shb] f(2) b' s(7) t1(1) sha(1,2) by (auto simp: b_def split: if_splits)
  have o: "(if z \<noteq> 1 then close_fd z (snd (dup2_fd (int j) 1 (fds shb))) else fds shb) = fds sha"
    using shb(3)
  proof
    assume "\<exists>n y. z = int n \<and> target_of (fds sha) n = None \<and> n < length (fds sha) \<and> fds shb = (fds sha)[n := Some y, 1 := Some y]"
    then obtain n y where n: "z = int n" "target_of (fds sha) n = None" "n < length (fds sha)" "fds shb = (fds sha)[n := Some y, 1 := Some y]" by blast
    have "n \<noteq> 1" using n(2) t1(1) s(7) by metis
    then show ?thesis using undo_redirection [of n "fds sha" 1 j y] n s(4,7,8) t1 by (simp add: target_of_def)
  qed simp
  have i: "(if x \<noteq> 0 then close_fd x (snd (dup2_fd (int i) 0 (fds sha))) else fds sha) = ?t"
    using sha(3)
  proof
    assume "\<exists>n y. x = int n \<and> target_of ?t n = None \<and> n < length ?t \<and> fds sha = ?t[n := Some y, 0 := Some y]"
    then obtain n y where n: "x = int n" "target_of ?t n = None" "n < length ?t" "fds sha = ?t[n := Some y, 0 := Some y]" by blast
    have "n \<noteq> 0" using n(2) s(5) by metis
    then show ?thesis using undo_redirection [of n ?t 0 i y] n s(3,5,6) by (simp add: target_of_def)
  qed simp
  show ?thesis
  proof (cases "z = 1")
    case True
    then show ?thesis using o i sh2 shb(1,2) s(1,2) unfolding e by (cases "x = 0") (simp_all add: restore_def same_table_def)
  next
    case False
    then show ?thesis using o i sh2 shb(1,2) s(1,2) unfolding e by (cases "x = 0") (simp_all add: restore_def same_table_def)
  qed
qed

lemma same_table_trans: "same_table a b \<Longrightarrow> same_table b c \<Longrightarrow> same_table a c"
  by (simp add: same_table_def)

lemma std_ok_same: "same_table sh sh' \<Longrightarrow> std_ok sh \<Longrightarrow> std_ok sh'"
  by (simp add: same_table_def std_ok_def)

lemma reads_flags: "reads_as str st cl \<Longrightarrow> iflag st = (if input_from cl = None then 0 else 3)
    \<and> oflag st = (case output_to cl of None \<Rightarrow> 0 | Some (app, _) \<Rightarrow> if app then 2 else 1)
    \<and> (\<forall>n. input_from cl = Some n \<longrightarrow> iname st = n) \<and> (\<forall>a n. output_to cl = Some (a, n) \<longrightarrow> oname st = n)"
  by (auto simp: reads_as_def stands_for_def split: option.splits)

section \<open>The effect of a line\<close>

text \<open>What a redirection leaves at the descriptor: the file, or the old target if the file does not open.\<close>

definition redirected :: "kernel \<Rightarrow> fd_table \<Rightarrow> nat \<Rightarrow> (string \<times> int) option \<Rightarrow> target option" where
  "redirected k t fd r = (case r of Some (n, flag) \<Rightarrow> if can_open k n flag then Some (Opened n flag) else target_of t fd | None \<Rightarrow> target_of t fd)"

definition only_perror :: "shell1 \<Rightarrow> shell1 \<Rightarrow> bool" where
  "only_perror sh sh' \<longleftrightarrow> (\<exists>es. events sh' = events sh @ map Perr es)"

lemma only_perror_refl: "only_perror sh sh"
  unfolding only_perror_def by (rule exI [of _ "[]"]) simp

lemma only_perror_trans: "only_perror a b \<Longrightarrow> only_perror b c \<Longrightarrow> only_perror a c"
  unfolding only_perror_def by (metis append.assoc map_append)

lemma only_perror_log: "events sh' = events sh @ [Perr m] \<Longrightarrow> only_perror sh sh'"
  unfolding only_perror_def by (rule exI [of _ "[m]"]) simp

lemma redir_effect:
  assumes "None \<in> set (fds sh)" "target_of (fds sh) fd \<noteq> None" "flag \<in> {1, 2, 3}" "redir k fname (int fd) flag sh = (r, sh1)"
  shows "target_of (fds sh1) fd = redirected k (fds sh) fd (Some (fname, flag)) \<and> only_perror sh sh1
    \<and> (\<forall>m. m \<noteq> fd \<longrightarrow> target_of (fds sh) m \<noteq> None \<longrightarrow> target_of (fds sh1) m = target_of (fds sh) m)
    \<and> (\<forall>p q. p < length (fds sh) \<and> q < length (fds sh) \<and> p \<noteq> q \<and> fds sh ! p = None \<and> fds sh ! q = None \<longrightarrow> None \<in> set (fds sh1))"
proof -
  obtain n where n: "free_fd (fds sh) = Some n" using assms(1) free_fd_None by (cases "free_fd (fds sh)") auto
  let ?x = "Opened fname flag"
  have t: "n < length (fds sh)" "fds sh ! n = None" "fd < length (fds sh)" "fd \<noteq> n"
    using free_fd_Some [OF n(1)] target_of_Some [OF assms(2)] assms(2) by (auto simp: target_of_def)
  show ?thesis
  proof (cases "can_open k fname flag")
    case False
    then have "open_fd k fname flag (fds sh) = (- 1, fds sh)" using n by (simp add: open_fd_def)
    then have "sh1 = log_event (Perr (''open: Couldn't open the file'' @ [newline])) sh" using assms(3,4) by (auto simp: redir_def)
    then have "fds sh1 = fds sh" "only_perror sh sh1" by (simp, intro only_perror_log) (simp add: log_event_def)
    then show ?thesis using False assms(1) by (simp add: redirected_def)
  next
    case True
    have "open_fd k fname flag (fds sh) = (int n, (fds sh)[n := Some ?x])" using n True by (simp add: open_fd_def)
    moreover have "dup2_fd (int n) (int fd) ((fds sh)[n := Some ?x]) = (int fd, (fds sh)[n := Some ?x, fd := Some ?x])"
      using t by (simp add: dup2_fd_def target_of_def)
    ultimately have sh1: "sh1 = sh\<lparr>fds := (fds sh)[n := Some ?x, fd := Some ?x]\<rparr>" using assms(3,4) by (auto simp: redir_def Let_def)
    have "None \<in> set (fds sh1)" if pq: "p < length (fds sh)" "q < length (fds sh)" "p \<noteq> q" "fds sh ! p = None" "fds sh ! q = None" for p q
    proof -
      define m where "m = (if p = n then q else p)"
      have "m < length (fds sh)" "m \<noteq> n" "fds sh ! m = None" using pq by (auto simp: m_def)
      moreover have "m \<noteq> fd" using calculation(3) assms(2) t(3) by (auto simp: target_of_def)
      ultimately have "m < length (fds sh1)" "fds sh1 ! m = None" by (simp_all add: sh1)
      then show ?thesis by (metis nth_mem)
    qed
    moreover have "only_perror sh sh1" using only_perror_refl by (simp add: sh1 only_perror_def)
    moreover have "target_of (fds sh1) m = target_of (fds sh) m" if "m \<noteq> fd" "target_of (fds sh) m \<noteq> None" for m
      using that t(2) by (auto simp: sh1 target_of_update) (simp add: target_of_def split: if_splits)
    ultimately show ?thesis using t True by (auto simp: sh1 redirected_def target_of_update)
  qed
qed

lemma redirect_line_effect:
  assumes st: "reads_as str st cl" and r: "redirect_line k st sh = (ifd, ofd, sh1)"
    and t: "target_of (fds sh) 0 \<noteq> None" "target_of (fds sh) 1 \<noteq> None"
    and free: "p < length (fds sh)" "q < length (fds sh)" "p \<noteq> q" "fds sh ! p = None" "fds sh ! q = None"
  shows "target_of (fds sh1) 0 = redirected k (fds sh) 0 (map_option (\<lambda>n. (n, 3)) (input_from cl))
    \<and> target_of (fds sh1) 1 = redirected k (fds sh) 1 (map_option (\<lambda>(a, n). (n, if a then 2 else 1)) (output_to cl))
    \<and> only_perror sh sh1"
proof -
  have n: "None \<in> set (fds sh)" using free(1,4) by (metis nth_mem)
  note f = reads_flags [OF st]
  define a where "a = (if iflag st \<noteq> 0 then redir k (iname st) 0 (iflag st) sh else (0, sh))"
  obtain x sha where a': "a = (x, sha)" by (cases a)
  have sha: "target_of (fds sha) 0 = redirected k (fds sh) 0 (map_option (\<lambda>n. (n, 3)) (input_from cl)) \<and> only_perror sh sha
    \<and> target_of (fds sha) 1 = target_of (fds sh) 1 \<and> None \<in> set (fds sha)"
  proof (cases "input_from cl")
    case None
    then have "sha = sh" using f a' by (simp add: a_def)
    then show ?thesis using None n by (simp add: redirected_def only_perror_refl)
  next
    case (Some nm)
    then have "redir k nm (int 0) 3 sh = (x, sha)" using f a' by (simp add: a_def)
    from redir_effect [OF n t(1) _ this] show ?thesis using free t(2) Some by auto
  qed
  define b where "b = (if oflag st = 1 \<or> oflag st = 2 then redir k (oname st) 1 (oflag st) sha else (1, sha))"
  obtain z shb where b': "b = (z, shb)" by (cases b)
  have e: "sh1 = shb" using r a' b' unfolding redirect_line_def a_def [symmetric] by (auto simp: b_def Let_def)
  show ?thesis
  proof (cases "output_to cl")
    case None
    then have "shb = sha" using f b' by (simp add: b_def)
    then show ?thesis using sha None e by (simp add: redirected_def)
  next
    case (Some w)
    obtain app nm where w: "w = (app, nm)" by (cases w)
    have fl: "oflag st = (if app then 2 else 1)" "oname st = nm" using f Some w by auto
    have "redir k nm (int 1) (if app then 2 else 1) sha = (z, shb)" using fl b' by (simp add: b_def split: if_splits)
    then have "target_of (fds shb) 1 = redirected k (fds sha) 1 (Some (nm, if app then 2 else 1))" "only_perror sha shb"
      "target_of (fds shb) 0 = target_of (fds sha) 0 \<or> target_of (fds sha) 0 = None"
      using sha redir_effect [of sha 1 "if app then 2 else 1" k nm z shb] t(2) by auto
    moreover have "target_of (fds sha) 0 \<noteq> None" using sha t(1) by (auto simp: redirected_def split: option.splits)
    ultimately show ?thesis using sha Some w e by (auto simp: redirected_def intro: only_perror_trans)
  qed
qed

definition between :: "kernel \<Rightarrow> string list \<Rightarrow> int \<times> int \<times> shell1 \<Rightarrow> round1 option" where
  "between k argv r = (case r of (ifd, ofd, sh) \<Rightarrow> do {
     res \<leftarrow> run_command_1 k argv sh;
     case res of Quit c sh \<Rightarrow> Some (Quit c sh) | Continue sh \<Rightarrow> Some (Continue (restore ifd ofd sh))
   })"

lemma round_parsed:
  assumes "NUL \<notin> set s" "2 \<le> n" "isize \<noteq> 0"
  shows "(words s = [] \<or> read_words False (words s) empty_line = None) \<and> repl_round_1 k isize (s @ replicate n NUL) sh = Some (Continue sh)
    \<or> (\<exists>str st cl. read_words False (words s) empty_line = Some cl \<and> reads_as str st cl
        \<and> repl_round_1 k isize (s @ replicate n NUL) sh = between k (args cl) (redirect_line k st sh))"
proof -
  obtain r str st where p: "parse_1 (s @ replicate n NUL) = Some (r, str, st)"
    "if words s = [] then r = - 1
     else (case read_words False (words s) empty_line of None \<Rightarrow> r = - 1 | Some cl \<Rightarrow> r = 1 \<and> reads_as str st cl)"
    using parse_meaning [OF assms(1,2), of False] by auto
  show ?thesis
  proof (cases "r = - 1")
    case True
    then show ?thesis using p assms(3) by (auto simp: repl_round_1_def split: if_splits option.splits)
  next
    case False
    then obtain cl where cl: "read_words False (words s) empty_line = Some cl" "reads_as str st cl" using p(2) by (auto split: if_splits option.splits)
    then have "repl_round_1 k isize (s @ replicate n NUL) sh = between k (args cl) (redirect_line k st sh)"
      using p(1) False assms(3) by (simp add: repl_round_1_def arguments_read between_def Let_def)
    then show ?thesis using cl by blast
  qed
qed

section \<open>Theorems\<close>

text \<open>
  After every round on a line, whatever it redirects, runs or fails to open, the descriptor table is
  what it was before: standard input and output are back, and nothing stays open.
\<close>

theorem round_restores_descriptors:
  assumes "std_ok sh" "NUL \<notin> set s" "2 \<le> n" "isize \<noteq> 0" "repl_round_1 k isize (s @ replicate n NUL) sh = Some (Continue sh')"
  shows "fds sh' = fds sh \<and> std_ok sh'"
proof -
  have "same_table sh sh'"
    using round_parsed [OF assms(2-4), of k sh]
  proof
    assume "\<exists>str st cl. read_words False (words s) empty_line = Some cl \<and> reads_as str st cl
        \<and> repl_round_1 k isize (s @ replicate n NUL) sh = between k (args cl) (redirect_line k st sh)"
    then obtain str st cl where c: "reads_as str st cl" "between k (args cl) (redirect_line k st sh) = Some (Continue sh')"
      using assms(5) by auto
    obtain ifd ofd sh1 where l: "redirect_line k st sh = (ifd, ofd, sh1)" by (cases "redirect_line k st sh")
    obtain res where "run_command_1 k (args cl) sh1 = Some res" "(case res of Quit c sh \<Rightarrow> Some (Quit c sh)
        | Continue sh \<Rightarrow> Some (Continue (restore ifd ofd sh))) = Some (Continue sh')"
      using c(2) by (auto simp: l between_def bind_eq_Some_conv)
    then obtain sh2 where "run_command_1 k (args cl) sh1 = Some (Continue sh2)" "sh' = restore ifd ofd sh2" by (cases res) auto
    note r = c(1) l this
    then show ?thesis using restore_table [OF assms(1) r(2) _ _ run_command_table [OF r(3)]] reads_flags [OF r(1)]
      by (auto split: option.splits if_splits)
  qed (use assms(5) in simp)
  then show ?thesis using std_ok_same [OF _ assms(1)] by (simp add: same_table_def)
qed

text \<open>
  C24. A line whose first word is not a built-in command runs the program on exactly the words that are not
  redirections, with standard input and output at the files that the line names; a file that
  does not open is reported and the program runs without that redirection.
\<close>

theorem line_runs_program:
  assumes "std_ok sh" "NUL \<notin> set s" "2 \<le> n" "isize \<noteq> 0"
    and "words s \<noteq> []" "read_words False (words s) empty_line = Some cl" "args cl \<noteq> []" "hd (args cl) \<notin> {''cd'', ''rm'', ''ln'', ''exit''}"
    and "forks k" "execv k (args cl) = Executed" "p < length (fds sh)" "q < length (fds sh)" "p \<noteq> q" "fds sh ! p = None" "fds sh ! q = None"
  shows "\<exists>sh' es. repl_round_1 k isize (s @ replicate n NUL) sh = Some (Continue sh') \<and> fds sh' = fds sh
    \<and> events sh' = events sh @ map Perr es @ [Ran (args cl)
        (redirected k (fds sh) 0 (map_option (\<lambda>f. (f, 3)) (input_from cl)))
        (redirected k (fds sh) 1 (map_option (\<lambda>(a, f). (f, if a then 2 else 1)) (output_to cl)))]"
proof -
  obtain str st where r: "reads_as str st cl"
    "repl_round_1 k isize (s @ replicate n NUL) sh = between k (args cl) (redirect_line k st sh)"
    using round_parsed [OF assms(2-4), of k sh] assms(5,6) by auto
  obtain ifd ofd sh1 where l: "redirect_line k st sh = (ifd, ofd, sh1)" by (cases "redirect_line k st sh")
  have t: "target_of (fds sh) 0 \<noteq> None" "target_of (fds sh) 1 \<noteq> None" using assms(1) by (auto simp: std_ok_def)
  note e = redirect_line_effect [OF r(1) l t assms(11-15)]
  obtain cmd rest where a: "args cl = cmd # rest" using assms(7) by (cases "args cl") auto
  let ?sh2 = "log_event (Ran (args cl) (target_of (fds sh1) 0) (target_of (fds sh1) 1)) sh1"
  have "run_command_1 k (args cl) sh1 = Some (Continue ?sh2)"
    using assms(8-10) a by (simp add: run_command_1_def rd_def fork_process_1_def run_child_def)
  then have run: "repl_round_1 k isize (s @ replicate n NUL) sh = Some (Continue (restore ifd ofd ?sh2))" using r(2) l by (simp add: between_def)
  have "same_table sh (restore ifd ofd ?sh2)"
    using restore_table [OF assms(1) l, of ?sh2] reads_flags [OF r(1)] by (auto split: option.splits if_splits)
  moreover have "events (restore ifd ofd ?sh2) = events ?sh2" by (simp add: restore_def Let_def)
  moreover obtain es where "events sh1 = events sh @ map Perr es" using e by (auto simp: only_perror_def)
  ultimately have "fds (restore ifd ofd ?sh2) = fds sh"
    "events (restore ifd ofd ?sh2) = events sh @ map Perr es @ [Ran (args cl) (target_of (fds sh1) 0) (target_of (fds sh1) 1)]"
    by (simp_all add: same_table_def log_event_def)
  then show ?thesis using run e by auto
qed

definition kernel_example :: kernel where
  "kernel_example = \<lparr>can_open = (\<lambda>f _. f = ''out''), forks = True, execv = (\<lambda>_. Executed), chdir_result = (\<lambda>_. 0),
     unlink_result = (\<lambda>_. 0), link_result = (\<lambda>_ _. 0), cwd = Some ''/''\<rparr>"

definition shell_1_example :: shell1 where
  "shell_1_example = start_shell ([Some Keyboard, Some Screen, Some Screen] @ replicate 4 None)"

lemma shell_1_example_eq: "shell_1_example = \<lparr>fds = [Some Keyboard, Some Screen, Some Screen, Some Keyboard, Some Screen, None, None],
    saved_in = 3, saved_out = 4, events = []\<rparr>"
  by (simp add: shell_1_example_def start_shell_def dup_fd_def target_of_def numeral_eq_Suc)

lemma example_std_ok: "std_ok shell_1_example"
  unfolding std_ok_def shell_1_example_eq by (rule exI [of _ 3], rule exI [of _ 4]) (simp add: target_of_def)

theorem line_runs_program_witness:
  "\<exists>sh' es. repl_round_1 kernel_example 20 (''ls -l < in > out'' @ replicate 8 NUL) shell_1_example = Some (Continue sh')
    \<and> fds sh' = fds shell_1_example \<and> events sh' = map Perr es @ [Ran [''ls'', ''-l''] (Some Keyboard) (Some (Opened ''out'' 1))]"
  using line_runs_program [OF example_std_ok, of "''ls -l < in > out''" 8 20
      "\<lparr>args = [''ls'', ''-l''], input_from = Some ''in'', output_to = Some (False, ''out''), background = False\<rparr>" kernel_example 5 6]
  by (simp add: isspace_def empty_line_def kernel_example_def shell_1_example_eq redirected_def target_of_def)

theorem round_restores_descriptors_witness:
  "\<exists>sh'. repl_round_1 kernel_example 20 (''ls > out'' @ replicate 8 NUL) shell_1_example = Some (Continue sh')
    \<and> fds sh' = fds shell_1_example \<and> std_ok sh'"
proof -
  obtain str st where r: "repl_round_1 kernel_example 20 (''ls > out'' @ replicate 8 NUL) shell_1_example
      = between kernel_example [''ls''] (redirect_line kernel_example st shell_1_example)"
    using round_parsed [of "''ls > out''" 8 20 kernel_example shell_1_example] by (auto simp: isspace_def empty_line_def)
  then obtain sh' where s: "repl_round_1 kernel_example 20 (''ls > out'' @ replicate 8 NUL) shell_1_example = Some (Continue sh')"
    by (cases "redirect_line kernel_example st shell_1_example")
      (auto simp: between_def run_command_1_def rd_def fork_process_1_def run_child_def kernel_example_def)
  then show ?thesis using round_restores_descriptors [OF example_std_ok _ _ _ s] by auto
qed

end
