(* ===== verification/ShellChild.thy ===== *)
theory ShellChild
  imports Shell1Correct
begin

text \<open>
  The child's side of \<^verbatim>\<open>fork_process\<close> in the second shell, \<^verbatim>\<open>src/shell_2/sh.c\<close>, with \<^verbatim>\<open>multisignal\<close> and \<^verbatim>\<open>redir\<close>
  of \<^verbatim>\<open>src/shell_2/help.c\<close>. Descriptors, events and the calls of the system are those of \<open>Shell1\<close>. In addition a process has a process group, a terminal has a foreground group, and
  each of the signals the shell handles has a disposition.
\<close>

section \<open>Signals\<close>

datatype signal = SIGINT | SIGTSTP | SIGQUIT | SIGTTOU

datatype disposition = SIG_DFL | SIG_IGN

text \<open>
  The answers of the system: which signals can be set, and the results of \<^verbatim>\<open>setpgid\<close> and \<^verbatim>\<open>tcsetpgrp\<close>.
\<close>

record job_kernel =
  can_signal :: "signal \<Rightarrow> bool"
  setpgid_result :: int
  tcsetpgrp_result :: int

record process =
  io :: shell1
  handlers :: "signal \<Rightarrow> disposition"
  group :: int
  foreground :: int

definition complain :: "string \<Rightarrow> process \<Rightarrow> process" where
  "complain m p = p\<lparr>io := log_event (Perr m) (io p)\<rparr>"

definition set_signal :: "job_kernel \<Rightarrow> disposition \<Rightarrow> signal \<Rightarrow> process \<Rightarrow> process" where
  "set_signal jk d s p = (if can_signal jk s then p\<lparr>handlers := (handlers p)(s := d)\<rparr> else complain ''signal error'' p)"

definition multisignal :: "job_kernel \<Rightarrow> int \<Rightarrow> process \<Rightarrow> process" where
  "multisignal jk i p =
     (let p = (if i = 1 then set_signal jk SIG_DFL SIGTTOU (set_signal jk SIG_DFL SIGQUIT
                 (set_signal jk SIG_DFL SIGTSTP (set_signal jk SIG_DFL SIGINT p))) else p)
      in if i = 2 then set_signal jk SIG_IGN SIGTTOU (set_signal jk SIG_IGN SIGQUIT
                 (set_signal jk SIG_IGN SIGTSTP (set_signal jk SIG_IGN SIGINT p))) else p)"

section \<open>Redirection\<close>

definition redir_2 :: "kernel \<Rightarrow> string \<Rightarrow> int \<Rightarrow> int \<Rightarrow> shell1 \<Rightarrow> int \<times> shell1" where
  "redir_2 k fname fd flag sh =
     (let (tempfd, sh) =
        (if flag = 1 \<or> flag = 2 \<or> flag = 3 then (let (r, t) = open_fd k fname flag (fds sh) in (r, sh\<lparr>fds := t\<rparr>))
         else (0, log_event (Perr ''error'') sh)) in
      if tempfd < 0 then (fd, log_event (Perr (''open: Couldn't open the file'' @ [newline])) sh)
      else (let (r, t) = dup2_fd tempfd fd (fds sh); sh = sh\<lparr>fds := t\<rparr> in
        if r < 0 then (fd, log_event (Perr (''dup2: Couldn't duplicate new file descriptor'' @ [newline])) sh)
        else (tempfd, sh)))"

text \<open>The two shells redirect in the same way.\<close>

lemma redir_2_eq: "redir_2 = redir"
  by (intro ext) (simp add: redir_2_def redir_def)

section \<open>The child\<close>

text \<open>A child runs the program, or ends with a status.\<close>

datatype child = Runs process | Exits int process

definition join_group :: "job_kernel \<Rightarrow> int \<Rightarrow> bool \<Rightarrow> process \<Rightarrow> process" where
  "join_group jk childpid amp p =
     (let p = (if setpgid_result jk < 0 then complain ''process group ID error'' p else p\<lparr>group := childpid\<rparr>) in
      if amp then p
      else if tcsetpgrp_result jk < 0 then complain ''process group changing error'' p
      else p\<lparr>foreground := childpid\<rparr>)"

text \<open>The message of a failed \<^verbatim>\<open>execv\<close>; the buffer has 1024 bytes.\<close>

definition exec_failed :: "string \<Rightarrow> process \<Rightarrow> child option" where
  "exec_failed msg p =
     (if 1024 \<le> length msg then None
      else if target_of (fds (io p)) 2 = None then Some (Exits 1 (complain ''error'' p))
      else Some (Exits 0 (p\<lparr>io := log_event (Wrote (target_of (fds (io p)) 2) msg) (io p)\<rparr>)))"

definition child_process :: "kernel \<Rightarrow> job_kernel \<Rightarrow> int \<Rightarrow> string list \<Rightarrow> parsed \<Rightarrow> process \<Rightarrow> child option" where
  "child_process k jk childpid argv st p = do {
     cmd \<leftarrow> rd argv 0;
     let (ifd, sh) = (if iflag st \<noteq> 0 then redir_2 k (iname st) STDIN_FILENO (iflag st) (io p) else (STDIN_FILENO, io p));
     let (ofd, sh) = (if oflag st = 1 \<or> oflag st = 2 then redir_2 k (oname st) STDOUT_FILENO (oflag st) sh else (STDOUT_FILENO, sh));
     let p = multisignal jk 1 (join_group jk childpid (aflag st \<noteq> 0) (p\<lparr>io := sh\<rparr>));
     case execv k argv of
       Executed \<Rightarrow> Some (Runs (p\<lparr>io := log_event (Ran argv (target_of (fds (io p)) 0) (target_of (fds (io p)) 1)) (io p)\<rparr>))
     | Not_found \<Rightarrow> exec_failed (''sh: command not found: '' @ cmd @ [newline]) p
     | Not_executed reason \<Rightarrow> exec_failed (''sh: execution of '' @ cmd @ '' failed: '' @ reason @ [newline]) p
   }"

section \<open>What the child runs\<close>

lemma complain_fields [simp]:
  "fds (io (complain m p)) = fds (io p)" "handlers (complain m p) = handlers p" "group (complain m p) = group p"
  "foreground (complain m p) = foreground p"
  by (simp_all add: complain_def)

lemma set_signal_fields [simp]:
  "can_signal jk s \<Longrightarrow> handlers (set_signal jk d s p) = (handlers p)(s := d)"
  "can_signal jk s \<Longrightarrow> io (set_signal jk d s p) = io p"
  "group (set_signal jk d s p) = group p" "foreground (set_signal jk d s p) = foreground p"
  by (simp_all add: set_signal_def)

lemma multisignal_all:
  assumes "\<And>s. can_signal jk s"
  shows "handlers (multisignal jk 1 p) s = SIG_DFL" "handlers (multisignal jk 2 p) s = SIG_IGN"
    "io (multisignal jk i p) = io p" "group (multisignal jk i p) = group p" "foreground (multisignal jk i p) = foreground p"
  using assms by (cases s; simp add: multisignal_def Let_def)+

lemma join_group_fields:
  assumes "0 \<le> setpgid_result jk" "0 \<le> tcsetpgrp_result jk"
  shows "io (join_group jk c a p) = io p" "group (join_group jk c a p) = c"
    "foreground (join_group jk c a p) = (if a then foreground p else c)"
  using assms by (simp_all add: join_group_def Let_def)

lemma child_process_redirects:
  "child_process k jk c argv st p = do {
     cmd \<leftarrow> rd argv 0;
     let (ifd, ofd, sh) = redirect_line k st (io p);
     let p = multisignal jk 1 (join_group jk c (aflag st \<noteq> 0) (p\<lparr>io := sh\<rparr>));
     case execv k argv of
       Executed \<Rightarrow> Some (Runs (p\<lparr>io := log_event (Ran argv (target_of (fds (io p)) 0) (target_of (fds (io p)) 1)) (io p)\<rparr>))
     | Not_found \<Rightarrow> exec_failed (''sh: command not found: '' @ cmd @ [newline]) p
     | Not_executed reason \<Rightarrow> exec_failed (''sh: execution of '' @ cmd @ '' failed: '' @ reason @ [newline]) p
   }"
  by (simp add: child_process_def redirect_line_def redir_2_eq split: prod.split)

text \<open>
  When the calls of the system succeed, the program runs on the arguments of the line, with standard input
  and output at the files it names or where they were, in a process group of its own, which has the
  terminal exactly when the line does not end in an ampersand, and with the signals that
  the shell ignores at their defaults.
\<close>

theorem child_runs_job:
  assumes line: "NUL \<notin> set s" "2 \<le> l" "words s \<noteq> []" "read_words True (words s) empty_line = Some cl" "args cl \<noteq> []"
    and e: "execv k (args cl) = Executed"
    and jk: "\<And>s. can_signal jk s" "0 \<le> setpgid_result jk" "0 \<le> tcsetpgrp_result jk"
    and t: "target_of (fds (io p)) 0 \<noteq> None" "target_of (fds (io p)) 1 \<noteq> None"
    and free: "m < length (fds (io p))" "n < length (fds (io p))" "m \<noteq> n" "fds (io p) ! m = None" "fds (io p) ! n = None"
  shows "\<exists>str st p' es. parse (s @ replicate l NUL) = Some (1, str, st) \<and> arguments str st = Some (args cl)
    \<and> child_process k jk c (args cl) st p = Some (Runs p')
    \<and> events (io p') = events (io p) @ map Perr es @ [Ran (args cl)
        (redirected k (fds (io p)) 0 (map_option (\<lambda>f. (f, 3)) (input_from cl)))
        (redirected k (fds (io p)) 1 (map_option (\<lambda>(a, f). (f, if a then 2 else 1)) (output_to cl)))]
    \<and> group p' = c \<and> foreground p' = (if background cl then foreground p else c) \<and> (\<forall>s. handlers p' s = SIG_DFL)"
proof -
  obtain str st where st: "parse (s @ replicate l NUL) = Some (1, str, st)" "reads_as str st cl"
    using parse_meaning [OF line(1,2), of True] line(3,4) by auto
  then have b: "aflag st \<noteq> 0 \<longleftrightarrow> background cl" by (simp add: reads_as_def stands_for_def)
  obtain ifd ofd sh where r: "redirect_line k st (io p) = (ifd, ofd, sh)" by (cases "redirect_line k st (io p)")
  note f = redirect_line_effect [OF st(2) r t free]
  then obtain es where es: "events sh = events (io p) @ map Perr es" by (auto simp: only_perror_def)
  obtain cmd rest where a: "args cl = cmd # rest" using line(5) by (cases "args cl") auto
  let ?p = "multisignal jk 1 (join_group jk c (background cl) (p\<lparr>io := sh\<rparr>))"
  let ?q = "?p\<lparr>io := log_event (Ran (args cl) (target_of (fds (io ?p)) 0) (target_of (fds (io ?p)) 1)) (io ?p)\<rparr>"
  have "child_process k jk c (args cl) st p = Some (Runs ?q)" using a e r b by (simp add: child_process_redirects rd_def Let_def)
  moreover have "events (io ?q) = events (io p) @ map Perr es @ [Ran (args cl)
        (redirected k (fds (io p)) 0 (map_option (\<lambda>f. (f, 3)) (input_from cl)))
        (redirected k (fds (io p)) 1 (map_option (\<lambda>(a, f). (f, if a then 2 else 1)) (output_to cl)))]"
    using f es jk by (simp add: multisignal_all join_group_fields log_event_def)
  moreover have "group ?q = c" "foreground ?q = (if background cl then foreground p else c)" "\<forall>s. handlers ?q s = SIG_DFL"
    using jk by (simp_all add: multisignal_all join_group_fields)
  ultimately show ?thesis using st(1) arguments_read [OF st(2)] by blast
qed

text \<open>
  When the program does not exist the child writes a message and ends with status 0, as a program that
  succeeds does.
\<close>

lemma missing_program_succeeds:
  assumes "execv k (cmd # rest) = Not_found" "length cmd < 999" "target_of (fds (io p)) 2 \<noteq> None" "iflag st = 0" "oflag st = 0"
    "\<And>s. can_signal jk s" "0 \<le> setpgid_result jk" "0 \<le> tcsetpgrp_result jk"
  shows "\<exists>p'. child_process k jk c (cmd # rest) st p = Some (Exits 0 p')
    \<and> events (io p') = events (io p) @ [Wrote (target_of (fds (io p)) 2) (''sh: command not found: '' @ cmd @ [newline])]"
  using assms by (auto simp: child_process_def rd_def exec_failed_def multisignal_all join_group_fields log_event_def)

end
