(* ===== verification/ShellSession.thy ===== *)
theory ShellSession
  imports ShellChild
begin

text \<open>
  A session of the second shell: \<^verbatim>\<open>main\<close> and the loop of \<^verbatim>\<open>repl\<close> in \<^verbatim>\<open>src/shell_2/sh.c\<close>, with both sides of every \<^verbatim>\<open>fork\<close>. A round
  ignores the signals, reads a line and runs it; when the line starts a program, the child is a copy of the shell's
  process. Every round has its own answers of the system.
\<close>

section \<open>The loop\<close>

record input =
  answers :: system
  calls :: kernel
  job_calls :: job_kernel
  forked :: int
  isize :: int
  buffer :: "char list"

record session =
  parent :: process
  shell_state :: shell
  children :: "child list"

text \<open>What runs in the child, if the line starts a program.\<close>

definition start_child :: "input \<Rightarrow> process \<Rightarrow> child option option" where
  "start_child i p =
     (if isize i \<le> 0 then Some None
      else do {
        (r, str, st) \<leftarrow> parse (buffer i);
        if r = - 1 then Some None
        else do {
          argv \<leftarrow> arguments str st;
          cmd \<leftarrow> rd argv 0;
          if cmd \<in> {''cd'', ''rm'', ''ln'', ''exit'', ''fg'', ''bg'', ''jobs''} then Some None
          else map_option Some (child_process (calls i) (job_calls i) (forked i) argv st p)
        }
      })"

text \<open>One round; the flag says whether the loop goes on.\<close>

definition session_round :: "((nat \<rightharpoonup> job_element) \<Rightarrow> nat) \<Rightarrow> input \<Rightarrow> session \<Rightarrow> (bool \<times> session) option" where
  "session_round malloc i s = do {
     let p = multisignal (job_calls i) 2 (parent s);
     r \<leftarrow> repl_round (answers i) malloc (forked i) (isize i) (buffer i) (shell_state s);
     c \<leftarrow> start_child i p;
     let cs = (case c of None \<Rightarrow> children s | Some c \<Rightarrow> children s @ [c]);
     Some (case r of
         Go_on sh \<Rightarrow> (True, \<lparr>parent = p, shell_state = sh, children = cs\<rparr>)
       | Leave sh \<Rightarrow> (False, \<lparr>parent = p, shell_state = sh, children = cs\<rparr>))
   }"

primrec repl :: "((nat \<rightharpoonup> job_element) \<Rightarrow> nat) \<Rightarrow> input list \<Rightarrow> session \<Rightarrow> (bool \<times> session) option" where
  "repl malloc [] s = Some (True, s)"
| "repl malloc (i # is) s = do {
     (go, s) \<leftarrow> session_round malloc i s;
     if go then repl malloc is s else Some (False, s)
   }"

definition initial_session :: "process \<Rightarrow> int \<Rightarrow> session" where
  "initial_session p self = \<lparr>parent = p,
     shell_state = \<lparr>aloj = Some init_job_list, shellpid = self, job_id = 0, actions = []\<rparr>, children = []\<rparr>"

section \<open>Lines fit their buffers\<close>

lemma runs_member_length: "w \<in> set (runs sep s) \<Longrightarrow> length w \<le> length s"
proof (induction s arbitrary: w)
  case (Cons c cs)
  show ?case
  proof (cases "sep c \<or> cs = [] \<or> sep (hd cs)")
    case True
    then have "w = [c] \<or> w \<in> set (runs sep cs)" using Cons.prems by (auto split: if_splits)
    then show ?thesis using Cons.IH [of w] by auto
  next
    case False
    then obtain v vs where v: "runs sep cs = v # vs" using runs_hd [of cs sep] by auto
    then have "w = c # v \<or> w \<in> set vs" using Cons.prems False by auto
    then show ?thesis using Cons.IH [of v] Cons.IH [of w] v by auto
  qed
qed simp

lemma read_words_args: "read_words amp ws cl = Some cl' \<Longrightarrow> set (args cl') \<subseteq> set (args cl) \<union> set ws"
  by (induction amp ws cl rule: read_words.induct) (auto split: if_splits)

lemma decimal_length: "n < 10 ^ Suc k \<Longrightarrow> length (decimal n) \<le> Suc k"
proof (induction k arbitrary: n)
  case 0
  then show ?case by (simp add: decimal.simps)
next
  case (Suc k)
  then have "length (decimal (n div 10)) \<le> Suc k" by (intro Suc.IH) auto
  then show ?case by (subst decimal.simps) simp
qed

lemma print_d_length: "0 \<le> i \<Longrightarrow> i \<le> INT_MAX \<Longrightarrow> length (print_d i) \<le> 10"
  using decimal_length [of "nat i" 9] by (simp add: print_d_def)

text \<open>Jobs whose line the command \<^verbatim>\<open>jobs\<close> can write, with processes out of \<open>U\<close>.\<close>

definition tame :: "int set \<Rightarrow> job_element \<Rightarrow> bool" where
  "tame U x \<longleftrightarrow> pid x \<in> U \<and> pid x \<le> INT_MAX \<and> length (command x) \<le> 900 \<and> (state x = STATE_RUNNING \<or> state x = STATE_STOPPED)"

lemma tame_line: "tame U x \<Longrightarrow> 0 < pid x \<Longrightarrow> 0 < jid x \<Longrightarrow> jid x \<le> INT_MAX \<Longrightarrow> job_line x \<noteq> None"
  using print_d_length [of "jid x"] print_d_length [of "pid x"]
  by (auto simp: tame_def job_line_def Let_def STATE_RUNNING_def STATE_STOPPED_def)

lemma tame_descend: "descend xs ys \<Longrightarrow> \<forall>x \<in> set xs. tame U x \<Longrightarrow> \<forall>y \<in> set ys. tame U y"
  by (fastforce simp: descend_def tame_def)

lemma tame_mono: "tame U x \<Longrightarrow> tame (insert p U) x"
  by (simp add: tame_def)

section \<open>What the inputs must be\<close>

definition exec_ok :: "kernel \<Rightarrow> string list \<Rightarrow> bool" where
  "exec_ok k argv \<longleftrightarrow> (case execv k argv of Not_executed reason \<Rightarrow> length reason \<le> 90 | _ \<Rightarrow> True)"

text \<open>
  The calls that set signals and process groups succeed. A line is shorter than 900 characters and fills the
  rest of the cleared buffer with null characters, and its command meets \<^const>\<open>command_ok\<close>.
\<close>

definition line_ok :: "input \<Rightarrow> string \<Rightarrow> bool" where
  "line_ok i s \<longleftrightarrow> buffer i = s @ replicate (1024 - length s) NUL \<and> NUL \<notin> set s \<and> length s \<le> 900 \<and> 0 < forked i \<and> forked i \<le> INT_MAX
     \<and> (words s = [] \<or> (case read_words True (words s) empty_line of None \<Rightarrow> True
          | Some cl \<Rightarrow> command_ok (answers i) [] (args cl) \<and> exec_ok (calls i) (args cl)))"

definition input_ok :: "input \<Rightarrow> bool" where
  "input_ok i \<longleftrightarrow> (\<forall>s. can_signal (job_calls i) s) \<and> 0 \<le> setpgid_result (job_calls i) \<and> 0 \<le> tcsetpgrp_result (job_calls i)
     \<and> (isize i \<le> 0 \<or> (\<exists>s. line_ok i s))"

text \<open>An allocator for job elements returns an address that is not in use.\<close>

definition fresh_addresses :: "((nat \<rightharpoonup> job_element) \<Rightarrow> nat) \<Rightarrow> bool" where
  "fresh_addresses malloc \<longleftrightarrow> (\<forall>s. finite (dom s) \<longrightarrow> s (malloc s) = None)"

section \<open>The invariant of a session\<close>

definition jobs_ok :: "int set \<Rightarrow> nat \<Rightarrow> shell \<Rightarrow> bool" where
  "jobs_ok U n sh \<longleftrightarrow> (\<exists>xs. shell_ok sh xs \<and> (\<forall>x \<in> set xs. tame U x)) \<and> job_id sh \<le> int n"

text \<open>A child has a process group of its own and the default signals.\<close>

primrec process_of :: "child \<Rightarrow> process" where
  "process_of (Runs p) = p"
| "process_of (Exits status p) = p"

definition child_ok :: "int set \<Rightarrow> child \<Rightarrow> bool" where
  "child_ok U c \<longleftrightarrow> group (process_of c) \<in> U \<and> (\<forall>s. handlers (process_of c) s = SIG_DFL)"

lemma line_command:
  assumes "line_ok i s" "words s \<noteq> []" "read_words True (words s) empty_line = Some cl"
  shows "command_ok (answers i) [] (args cl)" "exec_ok (calls i) (args cl)" "args cl \<noteq> []" "length (hd (args cl)) \<le> 900"
proof -
  show c: "command_ok (answers i) [] (args cl)" "exec_ok (calls i) (args cl)" using assms by (simp_all add: line_ok_def)
  then show n: "args cl \<noteq> []" by (auto simp: command_ok_def)
  have "hd (args cl) \<in> set (words s)" using read_words_args [OF assms(3)] hd_in_set [OF n] by (auto simp: empty_line_def)
  then show "length (hd (args cl)) \<le> 900" using runs_member_length assms(1) by (fastforce simp: line_ok_def)
qed

lemma command_ok_jobs: "command_ok sys [] argv \<Longrightarrow> \<forall>x \<in> set xs. job_line x \<noteq> None \<Longrightarrow> command_ok sys xs argv"
  by (simp add: command_ok_def)

lemma started_tame: "line_ok i s \<Longrightarrow> \<forall>x \<in> set (started s sh (forked i)). tame (insert (forked i) U) x"
  using line_command(4) [of i s] by (auto simp: started_def new_job_def tame_def line_ok_def split: option.splits)

lemma jobs_okI: "settled xs k sh \<Longrightarrow> \<forall>x \<in> set xs. tame U x \<Longrightarrow> k \<le> int n \<Longrightarrow> jobs_ok U n sh"
  using tame_descend by (fastforce simp: settled_def jobs_ok_def)

lemma settled_lines:
  assumes "shell_ok sh xs" "\<forall>x \<in> set xs. tame U x" "job_id sh \<le> INT_MAX"
  shows "\<forall>x \<in> set (concat (map (settle sys) xs)). job_line x \<noteq> None"
proof
  obtain sh1 where sh1: "shell_ok sh1 (concat (map (settle sys) xs))" "job_id sh1 = job_id sh" using reap_ok [OF assms(1)] by blast
  fix x assume x: "x \<in> set (concat (map (settle sys) xs))"
  have "tame U x" using tame_descend [OF descend_settle assms(2)] x by blast
  moreover have "0 < pid x \<and> 0 < jid x \<and> jid x \<le> job_id sh1" using sh1(1) x unfolding shell_ok_def by blast
  ultimately show "job_line x \<noteq> None" using sh1(2) assms(3) tame_line by auto
qed

lemma round_keeps_jobs:
  assumes ok: "jobs_ok U n sh" and l: "line_ok i s" "0 < isize i" "forked i \<notin> U" and n: "int n < INT_MAX"
    and m: "fresh_addresses malloc"
  shows "\<exists>sh'. (repl_round (answers i) malloc (forked i) (isize i) (buffer i) sh = Some (Go_on sh')
      \<or> repl_round (answers i) malloc (forked i) (isize i) (buffer i) sh = Some (Leave sh')) \<and> jobs_ok (insert (forked i) U) (Suc n) sh'"
proof -
  obtain xs where xs: "shell_ok sh xs" "\<forall>x \<in> set xs. tame U x" and j: "job_id sh \<le> int n" using ok by (auto simp: jobs_ok_def)
  have s: "NUL \<notin> set s" "2 \<le> 1024 - length s" "buffer i = s @ replicate (1024 - length s) NUL" "0 < forked i"
    using l(1) by (auto simp: line_ok_def)
  have p: "forked i \<notin> pid ` set xs" using xs(2) l(3) by (auto simp: tame_def)
  have m': "t (malloc t) = None" if "finite (dom t)" for t using m that by (simp add: fresh_addresses_def)
  have "\<forall>x \<in> set (concat (map (settle (answers i)) xs)). job_line x \<noteq> None" using settled_lines [OF xs] j n by simp
  then have "after_command (repl_round (answers i) malloc (forked i) (isize i) (buffer i) sh) (xs @ started s sh (forked i)) (job_id sh)"
    unfolding s(3) using j n line_command(1) [OF l(1)] command_ok_jobs
    by (intro repl_round_ok [OF xs(1) s(1,2) m' s(4) p _ l(2)]) simp_all
  then obtain sh' k where r: "repl_round (answers i) malloc (forked i) (isize i) (buffer i) sh \<in> {Some (Go_on sh'), Some (Leave sh')}"
    "settled (xs @ started s sh (forked i)) k sh'" "k \<le> job_id sh + 1" by (auto simp: after_command_def)
  have "\<forall>x \<in> set (xs @ started s sh (forked i)). tame (insert (forked i) U) x"
    using xs(2) started_tame [OF l(1)] by (auto intro: tame_mono)
  then have "jobs_ok (insert (forked i) U) (Suc n) sh'" using r(3) j by (intro jobs_okI [OF r(2)]) simp_all
  then show ?thesis using r(1) by blast
qed

lemma end_of_input_leaves:
  assumes "jobs_ok U n sh" "isize i \<le> 0"
  shows "\<exists>sh'. repl_round (answers i) malloc (forked i) (isize i) (buffer i) sh = Some (Leave sh')"
proof -
  obtain xs where "shell_ok sh xs" using assms(1) by (auto simp: jobs_ok_def)
  then obtain sh1 ys where sh1: "reap (answers i) sh = Some sh1" "shell_ok sh1 ys" using reap_ok by blast
  obtain l where l: "aloj sh1 = Some l" "job_rel l [] ys" by (rule shell_okE [OF sh1(2)])
  have "\<exists>kills. cleanup_job_list (aloj sh1) = Some (kills, Map.empty)" using jobs_and_cleanup_cover_list [OF l(2)] l(1) by simp
  then show ?thesis using assms(2) sh1(1) by (auto simp: repl_round_def)
qed

section \<open>The child of a round\<close>

lemma exec_failed_ok: "length msg < 1024 \<Longrightarrow> \<exists>c. exec_failed msg p = Some c \<and> handlers (process_of c) = handlers p \<and> group (process_of c) = group p"
  by (auto simp: exec_failed_def)

lemma child_process_ok:
  assumes "input_ok i" "exec_ok (calls i) (cmd # rest)" "length cmd \<le> 900"
  shows "\<exists>c. child_process (calls i) (job_calls i) (forked i) (cmd # rest) st p = Some c \<and> group (process_of c) = forked i
    \<and> (\<forall>s. handlers (process_of c) s = SIG_DFL)"
proof -
  obtain ifd ofd sh where r: "redirect_line (calls i) st (io p) = (ifd, ofd, sh)" by (cases "redirect_line (calls i) st (io p)")
  let ?p = "multisignal (job_calls i) 1 (join_group (job_calls i) (forked i) (aflag st \<noteq> 0) (p\<lparr>io := sh\<rparr>))"
  have p: "group ?p = forked i" "handlers ?p s = SIG_DFL" for s
    using assms(1) by (simp_all add: input_ok_def multisignal_all join_group_fields)
  have fail: "\<exists>c. exec_failed msg ?p = Some c \<and> group (process_of c) = forked i \<and> (\<forall>s. handlers (process_of c) s = SIG_DFL)"
    if "length msg < 1024" for msg using exec_failed_ok [OF that, of ?p] p by auto
  show ?thesis
    using r p fail [of "''sh: command not found: '' @ cmd @ [newline]"] fail [of "''sh: execution of '' @ cmd @ '' failed: '' @ reason @ [newline]" for reason]
      assms(2,3) by (cases "execv (calls i) (cmd # rest)") (simp_all add: child_process_redirects rd_def exec_ok_def Let_def)
qed

lemma start_child_ok:
  assumes "input_ok i" "isize i \<le> 0 \<or> line_ok i s"
  shows "\<exists>c. start_child i p = Some c \<and> (\<forall>d. c = Some d \<longrightarrow> child_ok {forked i} d)"
proof (cases "isize i \<le> 0")
  case False
  then have s: "line_ok i s" "NUL \<notin> set s" "2 \<le> 1024 - length s" "buffer i = s @ replicate (1024 - length s) NUL"
    using assms(2) by (auto simp: line_ok_def)
  obtain r str st where q: "parse (buffer i) = Some (r, str, st)"
    "if words s = [] then r = - 1 else (case read_words True (words s) empty_line of None \<Rightarrow> r = - 1 | Some cl \<Rightarrow> r = 1 \<and> reads_as str st cl)"
    using parse_meaning [OF s(2,3), of True] unfolding s(4) by (simp only: if_True) blast
  show ?thesis
  proof (cases "r = - 1")
    case True
    then show ?thesis using False q(1) by (simp add: start_child_def)
  next
    case r: False
    then obtain cl where cl: "read_words True (words s) empty_line = Some cl" "words s \<noteq> []" "reads_as str st cl"
      using q(2) by (auto split: if_splits option.splits)
    obtain cmd rest where a: "args cl = cmd # rest" using line_command(3) [OF s(1) cl(2,1)] by (cases "args cl") auto
    obtain c where "child_process (calls i) (job_calls i) (forked i) (args cl) st p = Some c" "child_ok {forked i} c"
      using child_process_ok [OF assms(1), of cmd rest st p] line_command(2,4) [OF s(1) cl(2,1)] a by (auto simp: child_ok_def)
    then show ?thesis using False q(1) r arguments_read [OF cl(3)] a by (simp add: start_child_def rd_def)
  qed
qed (simp add: start_child_def)

section \<open>Sessions\<close>

text \<open>The shell's own process stays as it was, and every child so far is in order.\<close>

definition kept :: "int set \<Rightarrow> process \<Rightarrow> session \<Rightarrow> bool" where
  "kept U p s \<longleftrightarrow> io (parent s) = io p \<and> group (parent s) = group p \<and> (\<forall>c \<in> set (children s). child_ok U c)"

definition ignoring :: "session \<Rightarrow> bool" where
  "ignoring s \<longleftrightarrow> (\<forall>sig. handlers (parent s) sig = SIG_IGN)"

lemma child_ok_mono: "child_ok U c \<Longrightarrow> U \<subseteq> V \<Longrightarrow> child_ok V c"
  by (auto simp: child_ok_def)

lemma session_round_ok:
  assumes s: "kept U p s" "jobs_ok U n (shell_state s)" and i: "input_ok i" "forked i \<notin> U" and n: "int n < INT_MAX"
    and m: "fresh_addresses malloc"
  shows "\<exists>go s'. session_round malloc i s = Some (go, s') \<and> kept (insert (forked i) U) p s' \<and> ignoring s'
    \<and> (go \<longrightarrow> jobs_ok (insert (forked i) U) (Suc n) (shell_state s'))"
proof -
  let ?p = "multisignal (job_calls i) 2 (parent s)"
  have sig: "\<And>sig. can_signal (job_calls i) sig" using i(1) by (simp add: input_ok_def)
  obtain l where l: "isize i \<le> 0 \<or> line_ok i l" using i(1) by (auto simp: input_ok_def)
  obtain c where c: "start_child i ?p = Some c" "\<forall>d. c = Some d \<longrightarrow> child_ok {forked i} d" using start_child_ok [OF i(1) l] by blast
  define cs where "cs = (case c of None \<Rightarrow> children s | Some d \<Rightarrow> children s @ [d])"
  have cs: "\<forall>d \<in> set cs. child_ok (insert (forked i) U) d"
    using c(2) s(1) child_ok_mono [of U _ "insert (forked i) U"] child_ok_mono [of "{forked i}" _ "insert (forked i) U"]
    by (auto simp: cs_def kept_def split: option.split)
  have k: "kept (insert (forked i) U) p \<lparr>parent = ?p, shell_state = sh, children = cs\<rparr>" "ignoring \<lparr>parent = ?p, shell_state = sh, children = cs\<rparr>" for sh
    using s(1) cs multisignal_all [OF sig] by (simp_all add: kept_def ignoring_def)
  obtain sh where "repl_round (answers i) malloc (forked i) (isize i) (buffer i) (shell_state s) = Some (Leave sh)
      \<or> repl_round (answers i) malloc (forked i) (isize i) (buffer i) (shell_state s) = Some (Go_on sh)
        \<and> jobs_ok (insert (forked i) U) (Suc n) sh"
    using end_of_input_leaves [OF s(2)] round_keeps_jobs [OF s(2) _ _ i(2) n m, of l] l by (metis not_le)
  then show ?thesis using c(1) k by (auto simp: session_round_def cs_def [symmetric])
qed

lemma repl_ok:
  assumes "kept U p s" "jobs_ok U n (shell_state s)" "\<forall>i \<in> set is. input_ok i" "distinct (map forked is)" "U \<inter> forked ` set is = {}"
    and "n + length is \<le> 2147483647" and m: "fresh_addresses malloc" and "is = [] \<longrightarrow> P \<or> ignoring s"
  shows "\<exists>go s'. repl malloc is s = Some (go, s') \<and> kept (U \<union> forked ` set is) p s' \<and> (P \<and> is = [] \<or> ignoring s')
    \<and> (go \<longrightarrow> jobs_ok (U \<union> forked ` set is) (n + length is) (shell_state s'))"
  using assms(1-6,8)
proof (induction "is" arbitrary: s U n P)
  case (Cons i "is")
  obtain go s1 where s1: "session_round malloc i s = Some (go, s1)" "kept (insert (forked i) U) p s1" "ignoring s1"
    "go \<longrightarrow> jobs_ok (insert (forked i) U) (Suc n) (shell_state s1)"
    using session_round_ok [OF Cons.prems(1,2) _ _ _ m, of i] Cons.prems(3-6) by auto
  have U: "U \<union> forked ` set (i # is) = insert (forked i) U \<union> forked ` set is" by simp
  show ?case
  proof (cases go)
    case True
    then have "\<exists>go s'. repl malloc is s1 = Some (go, s') \<and> kept (insert (forked i) U \<union> forked ` set is) p s' \<and> (False \<and> is = [] \<or> ignoring s')
        \<and> (go \<longrightarrow> jobs_ok (insert (forked i) U \<union> forked ` set is) (Suc n + length is) (shell_state s'))"
      using s1 Cons.prems by (intro Cons.IH) auto
    then show ?thesis using s1(1) True unfolding U by simp
  next
    case False
    have "kept (insert (forked i) U \<union> forked ` set is) p s1" using s1(2) by (auto simp: kept_def child_ok_def)
    then show ?thesis using s1(1,3) False unfolding U by (intro exI [of _ False] exI [of _ s1]) simp
  qed
qed auto


definition example_input :: "int \<Rightarrow> string \<Rightarrow> input" where
  "example_input child l = \<lparr>answers = example_system, calls = kernel_example,
     job_calls = \<lparr>can_signal = (\<lambda>_. True), setpgid_result = 0, tcsetpgrp_result = 0\<rparr>, forked = child, isize = int (length l),
     buffer = l @ replicate (1024 - length l) NUL\<rparr>"

definition example_process :: process where
  "example_process = \<lparr>io = shell_1_example, handlers = (\<lambda>_. SIG_DFL), group = 1, foreground = 1\<rparr>"


end
