(* ===== verification/Shell1Session.thy ===== *)
theory Shell1Session
  imports Shell1Correct
begin

text \<open>
  A session of the first shell: \<^verbatim>\<open>main\<close> and the loop of \<^verbatim>\<open>repl\<close> in \<^verbatim>\<open>src/shell_1/sh.c\<close>, over the lines
  that are read and the answers of the system in each round.
\<close>

section \<open>The loop\<close>

record input_1 =
  answers_1 :: kernel
  isize_1 :: int
  buffer_1 :: "char list"

primrec repl_1 :: "input_1 list \<Rightarrow> shell1 \<Rightarrow> round1 option" where
  "repl_1 [] sh = Some (Continue sh)"
| "repl_1 (i # is) sh = (case repl_round_1 (answers_1 i) (isize_1 i) (buffer_1 i) sh of
       None \<Rightarrow> None
     | Some (Quit code sh) \<Rightarrow> Some (Quit code sh)
     | Some (Continue sh) \<Rightarrow> repl_1 is sh)"

text \<open>\<^verbatim>\<open>main\<close>, from the table of descriptors that the shell inherits.\<close>

definition main_1 :: "fd_table \<Rightarrow> input_1 list \<Rightarrow> round1 option" where
  "main_1 t is = repl_1 is (start_shell t)"

section \<open>What the inputs must be\<close>

text \<open>
  Messages fit their buffer, and so does the directory in which \<^verbatim>\<open>cd\<close> starts. A line has something to run besides its
  redirections.
\<close>

definition command_ok_1 :: "kernel \<Rightarrow> string list \<Rightarrow> bool" where
  "command_ok_1 k argv \<longleftrightarrow> argv \<noteq> [] \<and>
     (if hd argv = ''cd'' then (case cwd k of None \<Rightarrow> False | Some d \<Rightarrow> \<forall>w \<in> set argv. length d + 1 + length w < 1024)
      else hd argv \<in> {''rm'', ''ln'', ''exit''} \<or> (case execv k argv of
          Executed \<Rightarrow> True
        | Not_found \<Rightarrow> length (hd argv) < 104
        | Not_executed reason \<Rightarrow> length (hd argv) + length reason < 101))"

definition line_ok_1 :: "input_1 \<Rightarrow> string \<Rightarrow> bool" where
  "line_ok_1 i s \<longleftrightarrow> NUL \<notin> set s \<and> length s \<le> 1022 \<and> buffer_1 i = s @ replicate (1024 - length s) NUL \<and>
     (words s = [] \<or> (case read_words False (words s) empty_line of None \<Rightarrow> True | Some cl \<Rightarrow> command_ok_1 (answers_1 i) (args cl)))"

definition input_ok_1 :: "input_1 \<Rightarrow> bool" where
  "input_ok_1 i \<longleftrightarrow> isize_1 i = 0 \<or> (\<exists>s. line_ok_1 i s)"

section \<open>A round\<close>

lemma run_command_1_ok:
  assumes "command_ok_1 k argv"
  shows "\<exists>r. run_command_1 k argv sh = Some r \<and> (case r of Quit c sh' \<Rightarrow> c = (if forks k then 0 else 1) \<or> c = 0 | Continue sh' \<Rightarrow> True)"
proof -
  obtain cmd rest where a: "argv = cmd # rest" using assms by (cases argv) (auto simp: command_ok_1_def)
  show ?thesis
  proof (cases "cmd = ''cd''")
    case True
    obtain d where "cwd k = Some d" "\<forall>w \<in> set argv. length d + 1 + length w < 1024"
      using assms True a by (auto simp: command_ok_1_def split: option.splits)
    then have "1 < length argv \<Longrightarrow> \<exists>sh'. my_cd k (argv ! 1) sh = Some sh'" by (simp add: my_cd_def Let_def)
    then show ?thesis using True a by (auto simp: run_command_1_def rd_def)
  next
    case False
    show ?thesis
    proof (cases "cmd \<in> {''rm'', ''ln'', ''exit''}")
      case True
      then show ?thesis using a by (auto simp: run_command_1_def rd_def Let_def)
    next
      case other: False
      obtain sh' where "run_child k argv sh = Some sh'"
        using assms False other a by (cases "execv k argv") (simp_all add: command_ok_1_def run_child_def rd_def child_message_def)
      then have "run_command_1 k argv sh = Some (if forks k then Continue sh' else Quit 1 (log_event (Perr ''fork: '') sh))"
        using False other a by (simp add: run_command_1_def rd_def fork_process_1_def)
      then show ?thesis by simp
    qed
  qed
qed

lemma between_ok:
  assumes "std_ok sh" "reads_as str st cl" "command_ok_1 k (args cl)"
  shows "\<exists>r. between k (args cl) (redirect_line k st sh) = Some r
    \<and> (case r of Quit c sh' \<Rightarrow> c = 0 \<or> \<not> forks k \<and> c = 1 | Continue sh' \<Rightarrow> same_table sh sh')"
proof -
  obtain ifd ofd sh1 where l: "redirect_line k st sh = (ifd, ofd, sh1)" by (cases "redirect_line k st sh")
  obtain r where r: "run_command_1 k (args cl) sh1 = Some r" "case r of Quit c sh' \<Rightarrow> c = (if forks k then 0 else 1) \<or> c = 0 | Continue sh' \<Rightarrow> True"
    using run_command_1_ok [OF assms(3)] by blast
  show ?thesis
  proof (cases r)
    case (Continue sh2)
    have "same_table sh (restore ifd ofd sh2)"
      using restore_table [OF assms(1) l _ _ run_command_table] r(1) Continue reads_flags [OF assms(2)] by (auto split: option.splits if_splits)
    then show ?thesis using r Continue l by (simp add: between_def)
  qed (use r l in \<open>auto simp: between_def split: if_splits\<close>)
qed

lemma round_ok_1:
  assumes "std_ok sh" "input_ok_1 i"
  shows "\<exists>r. repl_round_1 (answers_1 i) (isize_1 i) (buffer_1 i) sh = Some r
    \<and> (case r of Quit c sh' \<Rightarrow> c = 0 \<or> \<not> forks (answers_1 i) \<and> c = 1 | Continue sh' \<Rightarrow> same_table sh sh')"
proof (cases "isize_1 i = 0")
  case False
  then obtain s where s: "NUL \<notin> set s" "2 \<le> 1024 - length s" "buffer_1 i = s @ replicate (1024 - length s) NUL" "line_ok_1 i s"
    using assms(2) by (auto simp: input_ok_1_def line_ok_1_def)
  show ?thesis
    using round_parsed [OF s(1,2) False, of "answers_1 i" sh]
  proof
    assume "\<exists>str st cl. read_words False (words s) empty_line = Some cl \<and> reads_as str st cl
      \<and> repl_round_1 (answers_1 i) (isize_1 i) (s @ replicate (1024 - length s) NUL) sh = between (answers_1 i) (args cl) (redirect_line (answers_1 i) st sh)"
    then obtain str st cl where c: "read_words False (words s) empty_line = Some cl" "reads_as str st cl"
      "repl_round_1 (answers_1 i) (isize_1 i) (buffer_1 i) sh = between (answers_1 i) (args cl) (redirect_line (answers_1 i) st sh)"
      unfolding s(3) by blast
    show ?thesis
    proof (cases "words s = []")
      case True
      have "repl_round_1 (answers_1 i) (isize_1 i) (buffer_1 i) sh = Some (Continue sh)"
        using parse_meaning [OF s(1,2), of False] True False unfolding s(3) repl_round_1_def by auto
      then show ?thesis by simp
    next
      case False
      then have "command_ok_1 (answers_1 i) (args cl)" using s(4) c(1) by (simp add: line_ok_1_def)
      then show ?thesis using between_ok [OF assms(1) c(2)] c(3) by simp
    qed
  qed (simp add: s(3))
qed (simp add: repl_round_1_def)

section \<open>Sessions\<close>

lemma repl_1_ok:
  assumes "std_ok sh" "\<forall>i \<in> set is. input_ok_1 i"
  shows "\<exists>r. repl_1 is sh = Some r
    \<and> (case r of Quit c sh' \<Rightarrow> c = 0 \<or> (\<exists>i \<in> set is. \<not> forks (answers_1 i)) \<and> c = 1 | Continue sh' \<Rightarrow> same_table sh sh')"
  using assms
proof (induction "is" arbitrary: sh)
  case (Cons i "is")
  then have i: "input_ok_1 i" by simp
  obtain r where r: "repl_round_1 (answers_1 i) (isize_1 i) (buffer_1 i) sh = Some r"
    "case r of Quit c sh' \<Rightarrow> c = 0 \<or> \<not> forks (answers_1 i) \<and> c = 1 | Continue sh' \<Rightarrow> same_table sh sh'"
    using round_ok_1 [OF Cons.prems(1) i] by blast
  show ?case
  proof (cases r)
    case (Continue sh1)
    then have "same_table sh sh1" using r(2) by simp
    moreover obtain r' where "repl_1 is sh1 = Some r'"
      "case r' of Quit c sh' \<Rightarrow> c = 0 \<or> (\<exists>i \<in> set is. \<not> forks (answers_1 i)) \<and> c = 1 | Continue sh' \<Rightarrow> same_table sh1 sh'"
      using Cons.IH [OF std_ok_same [OF calculation Cons.prems(1)]] Cons.prems(2) by auto
    ultimately show ?thesis using r(1) Continue same_table_trans by (auto split: round1.splits)
  qed (use r in auto)
qed simp

lemma start_shell_ok:
  assumes "2 \<le> n"
  shows "std_ok (start_shell ([Some a, Some b, Some c] @ replicate n None))"
    "fds (start_shell ([Some a, Some b, Some c] @ replicate n None)) = [Some a, Some b, Some c, Some a, Some b] @ replicate (n - 2) None"
proof -
  obtain m where n: "n = Suc (Suc m)" using assms by (metis add_2_eq_Suc le_Suc_ex)
  have e: "start_shell ([Some a, Some b, Some c] @ replicate n None)
      = \<lparr>fds = [Some a, Some b, Some c, Some a, Some b] @ replicate m None, saved_in = 3, saved_out = 4, events = []\<rparr>"
    by (simp add: n start_shell_def dup_fd_def target_of_def numeral_eq_Suc)
  show "std_ok (start_shell ([Some a, Some b, Some c] @ replicate n None))"
    unfolding std_ok_def e by (rule exI [of _ 3], rule exI [of _ 4]) (simp add: target_of_def)
  show "fds (start_shell ([Some a, Some b, Some c] @ replicate n None)) = [Some a, Some b, Some c, Some a, Some b] @ replicate (n - 2) None"
    unfolding e by (simp add: n)
qed


definition example_input_1 :: "string \<Rightarrow> input_1" where
  "example_input_1 l = \<lparr>answers_1 = kernel_example, isize_1 = int (length l), buffer_1 = l @ replicate (1024 - length l) NUL\<rparr>"


end
