(* ===== verification/Server.thy ===== *)
theory Server
  imports DatabaseTheorems HeapList
begin

text \<open>
  The server, \<^verbatim>\<open>src/database/server.c\<close> and \<^verbatim>\<open>comm_serve\<close> in \<^verbatim>\<open>src/database/comm.c\<close>: client threads, the
  list of clients, stopping and releasing them, and the end of the server. Threads interleave; an event is
  what one thread does between two points at which another may run: a critical section under a mutex, or
  a call that may block. A command is executed in one event (the locking inside is the subject of
  \<open>DatabaseTheorems\<close>). The allocator is a parameter of the event that allocates, and does not fail.
\<close>

section \<open>State\<close>

text \<open>Where a client thread is: one value for each point between events in \<^verbatim>\<open>run_client\<close>.\<close>

datatype point = Started | Counted | Serving | Waiting | Executing | Cleaning | Destructing

record client =
  cprev :: "nat option"
  cnext :: "nat option"
  incoming :: string
  outgoing :: string
  response :: string
  received :: string
  point :: point

datatype main_point = Reading | Ending | Ended_list | Ended_count | Cleaned

text \<open>
  \<open>clients\<close> holds the allocated \<^verbatim>\<open>client_t\<close> structures by address, \<open>cancelled\<close> the clients whose thread has
  been cancelled, \<open>sig_deleting\<close> says that the signal thread is between the two halves of \<^verbatim>\<open>delete_all\<close>,
  and \<open>fault\<close> that a thread has followed a dangling pointer.
\<close>

record server =
  thread_list_head :: "nat option"
  clients :: "nat \<rightharpoonup> client"
  num_client_threads :: int
  stopped :: bool
  cancelled :: "nat set"
  sig_deleting :: bool
  main_at :: main_point
  db :: node
  fault :: bool

section \<open>Operations\<close>

definition client_control_stop :: "server \<Rightarrow> server" where
  "client_control_stop s = s\<lparr>stopped := True\<rparr>"

definition client_control_release :: "server \<Rightarrow> server" where
  "client_control_release s = s\<lparr>stopped := False\<rparr>"

text \<open>\<^verbatim>\<open>client_control_wait\<close> returns when the clients are not stopped.\<close>

definition client_control_wait :: "server \<Rightarrow> bool" where
  "client_control_wait s \<longleftrightarrow> \<not> stopped s"

definition client_constructor :: "nat \<Rightarrow> string \<Rightarrow> server \<Rightarrow> server" where
  "client_constructor new inp s = s\<lparr>clients := (clients s)(new \<mapsto>
     \<lparr>cprev = None, cnext = None, incoming = inp, outgoing = [], response = [], received = [], point = Started\<rparr>)\<rparr>"

definition goto :: "nat \<Rightarrow> point \<Rightarrow> server \<Rightarrow> server" where
  "goto c p s = s\<lparr>clients := (clients s)(c := map_option (point_update (\<lambda>_. p)) (clients s c))\<rparr>"

text \<open>The parts of \<^verbatim>\<open>run_client\<close>: the count, and the insertion at the head of the list.\<close>

definition count_client :: "server \<Rightarrow> server" where
  "count_client s = s\<lparr>num_client_threads := num_client_threads s + 1\<rparr>"

definition insert_client :: "nat \<Rightarrow> server \<Rightarrow> server option" where
  "insert_client c s = do {
     new \<leftarrow> clients s c;
     case thread_list_head s of
       None \<Rightarrow> Some (s\<lparr>thread_list_head := Some c, clients := (clients s)(c \<mapsto> new\<lparr>cnext := None\<rparr>)\<rparr>)
     | Some h \<Rightarrow> do {
         let cs = (clients s)(c \<mapsto> new\<lparr>cnext := Some h, cprev := None\<rparr>);
         e \<leftarrow> cs h;
         Some (s\<lparr>thread_list_head := Some c, clients := cs(h \<mapsto> e\<lparr>cprev := Some c\<rparr>)\<rparr>)
       }
   }"

text \<open>
  \<^verbatim>\<open>comm_serve\<close>: sends the response, if there is one, and reads the next line; the command is the string
  up to the first null character of the line. \<open>can_write\<close> says whether the stream accepts the response.
\<close>

definition comm_send :: "bool \<Rightarrow> client \<Rightarrow> client option" where
  "comm_send can_write e =
     (if response e = [] then Some e
      else if \<not> can_write then None
      else Some (e\<lparr>outgoing := outgoing e @ response e @ [newline]\<rparr>))"

definition comm_read :: "client \<Rightarrow> client option" where
  "comm_read e =
     (if incoming e = [] then None
      else Some (e\<lparr>received := cstr (fgets (incoming e)), incoming := drop (length (fgets (incoming e))) (incoming e)\<rparr>))"

definition comm_serve :: "bool \<Rightarrow> client \<Rightarrow> int \<times> client" where
  "comm_serve can_write e = (case comm_send can_write e of
       None \<Rightarrow> (- 1, e)
     | Some e \<Rightarrow> (case comm_read e of None \<Rightarrow> (- 1, e) | Some e \<Rightarrow> (0, e)))"

abbreviation EOF_char :: char where "EOF_char \<equiv> CHR 0xFF"

text \<open>One round of the loop up to \<^verbatim>\<open>client_control_wait\<close>, and the execution of the command.\<close>

definition serve_client :: "nat \<Rightarrow> bool \<Rightarrow> server \<Rightarrow> server option" where
  "serve_client c can_write s = do {
     e \<leftarrow> clients s c;
     let (r, e) = comm_serve can_write e;
     Some (s\<lparr>clients := (clients s)(c \<mapsto>
       e\<lparr>point := (if r = - 1 \<or> take 1 (received e) = [EOF_char] then Cleaning else Waiting)\<rparr>)\<rparr>)
   }"

definition execute_client :: "nat \<Rightarrow> (string \<Rightarrow> string option) \<Rightarrow> nat \<Rightarrow> server \<Rightarrow> server option" where
  "execute_client depth files c s = do {
     e \<leftarrow> clients s c;
     (resp, t) \<leftarrow> interpret_command depth True files (received e) 1024 (db s);
     Some (s\<lparr>db := t, clients := (clients s)(c \<mapsto> e\<lparr>response := resp, point := Serving\<rparr>)\<rparr>)
   }"

text \<open>\<^verbatim>\<open>thread_cleanup\<close> under the mutex of the list; \<^verbatim>\<open>client_destructor\<close>.\<close>

definition unlink_client :: "nat \<Rightarrow> server \<Rightarrow> server option" where
  "unlink_client c s = do {
     temp \<leftarrow> clients s c;
     case (cprev temp, cnext temp) of
       (Some p, Some n) \<Rightarrow> do {
         e \<leftarrow> clients s p;
         let cs = (clients s)(p \<mapsto> e\<lparr>cnext := Some n\<rparr>);
         f \<leftarrow> cs n;
         Some (s\<lparr>clients := cs(n \<mapsto> f\<lparr>cprev := Some p\<rparr>)\<rparr>)
       }
     | (None, Some n) \<Rightarrow> do {
         f \<leftarrow> clients s n;
         Some (s\<lparr>clients := (clients s)(n \<mapsto> f\<lparr>cprev := None\<rparr>), thread_list_head := Some n\<rparr>)
       }
     | (Some p, None) \<Rightarrow> do {
         e \<leftarrow> clients s p;
         Some (s\<lparr>clients := (clients s)(p \<mapsto> e\<lparr>cnext := None\<rparr>)\<rparr>)
       }
     | (None, None) \<Rightarrow> Some (s\<lparr>thread_list_head := None\<rparr>)
   }"

definition client_destructor :: "nat \<Rightarrow> server \<Rightarrow> server" where
  "client_destructor c s = s\<lparr>num_client_threads := num_client_threads s - 1, clients := (clients s)(c := None)\<rparr>"

text \<open>The two halves of \<^verbatim>\<open>delete_all\<close>, each under its own mutex.\<close>

partial_function (option) walk :: "(nat \<rightharpoonup> client) \<Rightarrow> nat option \<Rightarrow> nat list option" where
  "walk cs cur = (if cur = None then Some []
     else do { e \<leftarrow> cs (the cur); r \<leftarrow> walk cs (cnext e); Some (the cur # r) })"

definition delete_list :: "server \<Rightarrow> server option" where
  "delete_list s = do {
     as \<leftarrow> walk (clients s) (thread_list_head s);
     Some (s\<lparr>cancelled := cancelled s \<union> set as, thread_list_head := None\<rparr>)
   }"

definition delete_count :: "server \<Rightarrow> server" where
  "delete_count s = s\<lparr>num_client_threads := 0\<rparr>"

text \<open>
  What the main thread does with a buffer of input: print the database, stop the clients, release them. The
  file name goes up to the newline; without one the search runs out of the buffer.
\<close>

definition main_input :: "(string \<Rightarrow> bool) \<Rightarrow> char list \<Rightarrow> server \<Rightarrow> ((int \<times> (string option \<times> string) option) option \<times> server) option" where
  "main_input can_open input s = do {
     c \<leftarrow> rd input 0;
     d \<leftarrow> rd input 1;
     if c = CHR ''p'' then
       (if d = NUL \<or> d = newline then Some (Some (db_print can_open None (db s)), s)
        else if newline \<notin> set input then None
        else Some (Some (db_print can_open (Some (cstr (drop 2 (takeWhile (\<lambda>c. c \<noteq> newline) input)))) (db s)), s))
     else if c = CHR ''s'' then Some (None, client_control_stop s)
     else if c = CHR ''g'' then Some (None, client_control_release s)
     else Some (None, s)
   }"

section \<open>Events\<close>

datatype server_event =
    Connect nat string | Count nat | Insert nat | Serve nat bool | Pass nat | Execute nat | Cancel nat | Unlink nat | Destruct nat
  | Stop | Release | Signal_list | Signal_count | Main_eof | Main_list | Main_count | Main_check

definition at :: "nat \<Rightarrow> point \<Rightarrow> server \<Rightarrow> bool" where
  "at c p s \<longleftrightarrow> (\<exists>e. clients s c = Some e \<and> point e = p)"

lemma at_code [code]: "at c p s = (case clients s c of None \<Rightarrow> False | Some e \<Rightarrow> point e = p)"
  by (auto simp: at_def split: option.splits)

definition attempt :: "server option \<Rightarrow> server \<Rightarrow> server" where
  "attempt r s = (case r of None \<Rightarrow> s\<lparr>fault := True\<rparr> | Some t \<Rightarrow> t)"

text \<open>
  The state after an event, \<^const>\<open>None\<close> when the event is not possible or, for a command, when the
  command has no result. A cancelled thread ends where it
  blocks: reading from its client, or waiting while the clients are stopped. The listener and the signal
  thread are cancelled when the main thread ends its loop; a half-done \<^verbatim>\<open>delete_all\<close> is still completed.
\<close>

fun server_step :: "nat \<Rightarrow> (string \<Rightarrow> string option) \<Rightarrow> server_event \<Rightarrow> server \<Rightarrow> server option" where
  "server_step depth files ev s = (if fault s then None else (case ev of
     Connect c inp \<Rightarrow> if main_at s = Reading \<and> clients s c = None then Some (client_constructor c inp s) else None
   | Count c \<Rightarrow> if at c Started s then Some (goto c Counted (count_client s)) else None
   | Insert c \<Rightarrow> if at c Counted s then Some (goto c Serving (attempt (insert_client c s) s)) else None
   | Serve c w \<Rightarrow> if at c Serving s then Some (attempt (serve_client c w s) s) else None
   | Pass c \<Rightarrow> if at c Waiting s \<and> client_control_wait s then Some (goto c Executing s) else None
   | Execute c \<Rightarrow> if at c Executing s then execute_client depth files c s else None
   | Cancel c \<Rightarrow> if c \<in> cancelled s \<and> (at c Serving s \<or> at c Waiting s \<and> stopped s) then Some (goto c Cleaning s) else None
   | Unlink c \<Rightarrow> if at c Cleaning s then Some (goto c Destructing (attempt (unlink_client c s) s)) else None
   | Destruct c \<Rightarrow> if at c Destructing s then Some ((client_destructor c s)\<lparr>cancelled := cancelled s - {c}\<rparr>) else None
   | Stop \<Rightarrow> if main_at s = Reading then Some (client_control_stop s) else None
   | Release \<Rightarrow> if main_at s = Reading then Some (client_control_release s) else None
   | Signal_list \<Rightarrow> if main_at s = Reading \<and> \<not> sig_deleting s then Some ((attempt (delete_list s) s)\<lparr>sig_deleting := True\<rparr>) else None
   | Signal_count \<Rightarrow> if sig_deleting s then Some ((delete_count s)\<lparr>sig_deleting := False\<rparr>) else None
   | Main_eof \<Rightarrow> if main_at s = Reading then Some (s\<lparr>main_at := Ending\<rparr>) else None
   | Main_list \<Rightarrow> if main_at s = Ending then Some ((attempt (delete_list s) s)\<lparr>main_at := Ended_list\<rparr>) else None
   | Main_count \<Rightarrow> if main_at s = Ended_list then Some ((delete_count s)\<lparr>main_at := Ended_count\<rparr>) else None
   | Main_check \<Rightarrow> if main_at s = Ended_count \<and> num_client_threads s = 0 then Some (s\<lparr>main_at := Cleaned\<rparr>) else None))"

declare server_step.simps [simp del]

definition init_server :: server where
  "init_server = \<lparr>thread_list_head = None, clients = Map.empty, num_client_threads = 0, stopped = False, cancelled = {},
     sig_deleting = False, main_at = Reading, db = empty_db, fault = False\<rparr>"

definition run_server :: "nat \<Rightarrow> (string \<Rightarrow> string option) \<Rightarrow> server_event list \<Rightarrow> server \<Rightarrow> server option" where
  "run_server depth files = foldM (server_step depth files)"

end
