(* ===== verification/ServerCorrect.thy ===== *)
theory ServerCorrect
  imports Server
begin

text \<open>
  The server in all interleavings of its threads: the list of clients, their count and the database stay
  consistent until \<^verbatim>\<open>delete_all\<close> is called; and what waiting for the clients does at the end.
\<close>

section \<open>The list of clients\<close>

interpretation cl: linked cnext "\<lambda>p e. e\<lparr>cnext := p\<rparr>"
  by unfold_locales simp

primrec prevs :: "(nat \<rightharpoonup> client) \<Rightarrow> nat option \<Rightarrow> nat list \<Rightarrow> bool" where
  "prevs cs q [] \<longleftrightarrow> True"
| "prevs cs q (a # as) \<longleftrightarrow> (\<exists>e. cs a = Some e \<and> cprev e = q) \<and> prevs cs (Some a) as"

definition chain :: "(nat \<rightharpoonup> client) \<Rightarrow> nat option \<Rightarrow> nat list \<Rightarrow> bool" where
  "chain cs h as \<longleftrightarrow> cl.path cs h as None \<and> prevs cs None as \<and> distinct as"

definition last_opt :: "'a option \<Rightarrow> 'a list \<Rightarrow> 'a option" where
  "last_opt q xs = (if xs = [] then q else Some (last xs))"

lemma prevs_append: "prevs cs q (us @ vs) \<longleftrightarrow> prevs cs q us \<and> prevs cs (last_opt q us) vs"
  by (induction us arbitrary: q) (auto simp: last_opt_def)

lemma prevs_cong:
  "(\<And>a. a \<in> set as \<Longrightarrow> map_option cprev (cs' a) = map_option cprev (cs a)) \<Longrightarrow> prevs cs' q as = prevs cs q as"
proof (induction as arbitrary: q)
  case (Cons a as)
  have "(\<exists>e. cs' a = Some e \<and> cprev e = q) \<longleftrightarrow> (\<exists>e. cs a = Some e \<and> cprev e = q)"
    using Cons.prems [of a] by (cases "cs' a"; cases "cs a") auto
  then show ?case using Cons by simp
qed simp

lemma path_cong:
  "(\<And>a. a \<in> set as \<Longrightarrow> map_option cnext (cs' a) = map_option cnext (cs a)) \<Longrightarrow> cl.path cs' p as q = cl.path cs p as q"
proof (induction as arbitrary: p)
  case (Cons a as)
  have "cs' a = None \<longleftrightarrow> cs a = None" "\<And>e f. cs' a = Some e \<Longrightarrow> cs a = Some f \<Longrightarrow> cnext e = cnext f"
    using Cons.prems [of a] by (cases "cs' a"; cases "cs a"; simp)+
  then show ?case using Cons by (cases "cs' a"; cases "cs a") auto
qed simp

text \<open>The list does not depend on the other fields, nor on clients outside it.\<close>

lemma chain_cong:
  assumes "\<And>a. a \<in> set as \<Longrightarrow> map_option cnext (cs' a) = map_option cnext (cs a) \<and> map_option cprev (cs' a) = map_option cprev (cs a)"
  shows "chain cs' h as \<longleftrightarrow> chain cs h as"
  using path_cong [of as cs' cs] prevs_cong [of as cs' cs] assms by (simp add: chain_def)

lemma chain_insert:
  assumes c: "chain (clients s) (thread_list_head s) as" and n: "clients s c = Some e" "c \<notin> set as" "cprev e = None"
  obtains cs where "insert_client c s = Some (s\<lparr>thread_list_head := Some c, clients := cs\<rparr>)" "chain cs (Some c) (c # as)"
    "\<forall>a. map_option point (cs a) = map_option point (clients s a)" "dom cs = dom (clients s)" "\<forall>a. a \<notin> set (c # as) \<longrightarrow> cs a = clients s a"
proof (cases as)
  case Nil
  let ?cs = "(clients s)(c \<mapsto> e\<lparr>cnext := None\<rparr>)"
  have "thread_list_head s = None" using c Nil by (simp add: chain_def)
  then have "insert_client c s = Some (s\<lparr>thread_list_head := Some c, clients := ?cs\<rparr>)" using n by (simp add: insert_client_def)
  moreover have "chain ?cs (Some c) (c # as)" using n(3) Nil by (simp add: chain_def)
  moreover have "map_option point (?cs a) = map_option point (clients s a)" for a using n(1) by simp
  moreover have "dom ?cs = dom (clients s)" using n(1) by auto
  moreover have "\<forall>a. a \<notin> set (c # as) \<longrightarrow> ?cs a = clients s a" by simp
  ultimately show ?thesis using that [of ?cs] by blast
next
  case (Cons h bs)
  then have h: "thread_list_head s = Some h" "h \<noteq> c" using c n(2) by (auto simp: chain_def)
  obtain f where f: "clients s h = Some f" "cl.path (clients s) (cnext f) bs None" using c Cons by (auto simp: chain_def)
  let ?cs = "(clients s)(c \<mapsto> e\<lparr>cnext := Some h, cprev := None\<rparr>, h \<mapsto> f\<lparr>cprev := Some c\<rparr>)"
  have i: "insert_client c s = Some (s\<lparr>thread_list_head := Some c, clients := ?cs\<rparr>)"
    using h n(1) f(1) by (simp add: insert_client_def Let_def)
  have nb: "c \<notin> set bs" "h \<notin> set bs" "distinct bs" using c n(2) Cons by (auto simp: chain_def)
  have "cl.path ?cs (cnext f) bs None" using f(2) nb by (simp add: cl.path_frame)
  moreover have "prevs ?cs (Some h) bs"
  proof -
    have "prevs (clients s) (Some h) bs" using c Cons by (simp add: chain_def)
    then show ?thesis by (subst prevs_cong [of bs ?cs "clients s"]) (use nb in auto)
  qed
  ultimately have "chain ?cs (Some c) (c # as)" using Cons h(2) nb by (simp add: chain_def)
  moreover have "map_option point (?cs a) = map_option point (clients s a)" for a using n(1) f(1) by simp
  moreover have "dom ?cs = dom (clients s)" using n(1) f(1) by auto
  moreover have "\<forall>a. a \<notin> set (c # as) \<longrightarrow> ?cs a = clients s a" using Cons by simp
  ultimately show ?thesis using that [of ?cs] i by blast
qed

lemma chain_unlink:
  assumes ch: "chain (clients s) (thread_list_head s) (us @ c # vs)"
  obtains cs h where "unlink_client c s = Some (s\<lparr>thread_list_head := h, clients := cs\<rparr>)" "chain cs h (us @ vs)"
    "\<forall>a. map_option point (cs a) = map_option point (clients s a)" "dom cs = dom (clients s)" "\<forall>a. a \<notin> set (us @ vs) \<longrightarrow> cs a = clients s a"
proof -
  let ?cs = "clients s"
  have P: "cl.path ?cs (thread_list_head s) (us @ c # vs) None" and V: "prevs ?cs None (us @ c # vs)" and D: "distinct (us @ c # vs)"
    using ch by (auto simp: chain_def)
  obtain e where e: "?cs c = Some e" "cprev e = last_opt None us" "prevs ?cs (Some c) vs" "prevs ?cs None us"
    using V by (auto simp: prevs_append)
  have p: "cl.path ?cs (thread_list_head s) us (Some c)" "cl.path ?cs (cnext e) vs None" using P e(1) by (auto simp: cl.path_split)
  have n: "cnext e = (case vs of [] \<Rightarrow> None | v # _ \<Rightarrow> Some v)" using cl.path_head [OF p(2)] .
  define cs1 where "cs1 = (if us = [] then ?cs else ?cs(last us \<mapsto> (the (?cs (last us)))\<lparr>cnext := cnext e\<rparr>))"
  define cs2 where "cs2 = (case vs of [] \<Rightarrow> cs1 | v # _ \<Rightarrow> cs1(v \<mapsto> (the (cs1 v))\<lparr>cprev := last_opt None us\<rparr>))"
  define h where "h = (if us = [] then cnext e else thread_list_head s)"
  have dom: "set us \<subseteq> dom ?cs" "set vs \<subseteq> dom ?cs" using cl.path_dom [OF P] by auto
  have u: "us \<noteq> [] \<Longrightarrow> \<exists>f. ?cs (last us) = Some f" using dom(1) last_in_set by blast
  have cs1: "map_option cprev (cs1 a) = map_option cprev (?cs a)" "map_option point (cs1 a) = map_option point (?cs a)" "dom cs1 = dom ?cs" for a
    using u by (auto simp: cs1_def)
  have v: "vs \<noteq> [] \<Longrightarrow> \<exists>f. cs1 (hd vs) = Some f" using dom(2) cs1(3) by (cases vs) auto
  have cs2: "map_option cnext (cs2 a) = map_option cnext (cs1 a)" "map_option point (cs2 a) = map_option point (cs1 a)" "dom cs2 = dom cs1" for a
    using v by (auto simp: cs2_def split: list.splits)
  have un: "unlink_client c s = Some (s\<lparr>thread_list_head := h, clients := cs2\<rparr>)"
  proof -
    have h: "us = [] \<Longrightarrow> vs = [] \<Longrightarrow> thread_list_head s = Some c" using P by simp
    show ?thesis
    proof (cases "us = []")
      case True
      show ?thesis
      proof (cases vs)
        case Nil
        have "s\<lparr>clients := clients s\<rparr> = s" by simp
        then show ?thesis using True Nil e(1,2) n by (simp add: unlink_client_def cs1_def cs2_def h_def last_opt_def)
      next
        case (Cons x xs)
        then obtain f where "?cs x = Some f" using v True by (auto simp: cs1_def)
        then show ?thesis using True Cons e(1,2) n by (simp add: unlink_client_def cs1_def cs2_def h_def last_opt_def)
      qed
    next
      case False
      then obtain f where f: "?cs (last us) = Some f" using u by blast
      have same: "s\<lparr>thread_list_head := thread_list_head s\<rparr> = s" by simp
      show ?thesis
      proof (cases vs)
        case Nil
        then show ?thesis using False f e(1,2) n same by (simp add: unlink_client_def cs1_def cs2_def h_def last_opt_def)
      next
        case (Cons x xs)
        then obtain g where "cs1 x = Some g" using v by auto
        then show ?thesis using False Cons f e(1,2) n same by (simp add: unlink_client_def cs1_def cs2_def h_def last_opt_def Let_def)
      qed
    qed
  qed
  have "cl.path cs1 h (us @ vs) None"
  proof (cases us rule: rev_cases)
    case Nil
    then show ?thesis using p(2) by (simp add: cs1_def h_def)
  next
    case (snoc ws w)
    then obtain f where f: "?cs w = Some f" using dom(1) by auto
    have "cl.path ((?cs(w \<mapsto> f\<lparr>cnext := cnext e\<rparr>))(c := None)) (thread_list_head s) (ws @ w # vs) None"
      by (rule cl.path_unlink) (use P D e(1) f snoc in simp_all)
    moreover have "c \<notin> set (ws @ w # vs)" using D snoc by auto
    ultimately have "cl.path (?cs(w \<mapsto> f\<lparr>cnext := cnext e\<rparr>)) (thread_list_head s) (ws @ w # vs) None"
      using cl.path_frame [of c "ws @ w # vs" "?cs(w \<mapsto> f\<lparr>cnext := cnext e\<rparr>)" None] by blast
    then show ?thesis using snoc f by (simp add: cs1_def h_def)
  qed
  then have "cl.path cs2 h (us @ vs) None" using path_cong [of "us @ vs" cs2 cs1] cs2(1) by blast
  moreover have "prevs cs2 None (us @ vs)"
  proof -
    have hd: "a \<in> set us \<union> set (tl vs) \<Longrightarrow> map_option cprev (cs2 a) = map_option cprev (?cs a)" for a
      using cs1(1) [of a] D by (cases vs) (auto simp: cs2_def)
    have "prevs cs2 None us" using e(4) by (subst prevs_cong [of us cs2 ?cs]) (use hd in auto)
    moreover have "prevs cs2 (last_opt None us) vs"
    proof (cases vs)
      case (Cons v ws)
      have "prevs cs2 (Some v) ws" using e(3) Cons by (subst prevs_cong [of ws cs2 ?cs]) (use hd Cons in auto)
      then show ?thesis using Cons by (simp add: cs2_def)
    qed simp
    ultimately show ?thesis by (simp add: prevs_append)
  qed
  ultimately have "chain cs2 h (us @ vs)" using D by (simp add: chain_def)
  moreover have "map_option point (cs2 a) = map_option point (?cs a)" for a using cs1(2) cs2(2) by simp
  moreover have "dom cs2 = dom ?cs" using cs1(3) cs2(3) by simp
  moreover have "\<forall>a. a \<notin> set (us @ vs) \<longrightarrow> cs2 a = ?cs a"
    using last_in_set [of us] by (auto simp: cs1_def cs2_def split: list.split)
  ultimately show ?thesis using that [of cs2 h] un by blast
qed

section \<open>The invariant without deletion\<close>

definition pts :: "server \<Rightarrow> nat \<Rightarrow> point option" where
  "pts s c = map_option point (clients s c)"

definition orderly :: "server \<Rightarrow> nat list \<Rightarrow> bool" where
  "orderly s as \<longleftrightarrow> \<not> fault s \<and> chain (clients s) (thread_list_head s) as
     \<and> set as = {c. pts s c \<in> Some ` {Serving, Waiting, Executing, Cleaning}}
     \<and> (\<forall>c e. clients s c = Some e \<longrightarrow> point e \<in> {Started, Counted} \<longrightarrow> cprev e = None)
     \<and> num_client_threads s = int (card {c. pts s c \<notin> {None, Some Started}}) \<and> finite (dom (clients s)) \<and> db_ok (db s)"

lemma at_pts: "at c p s \<longleftrightarrow> pts s c = Some p"
  by (auto simp: at_def pts_def)

lemma finite_counted: "finite (dom (clients s)) \<Longrightarrow> finite {c. pts s c \<notin> {None, Some Started}}"
  by (rule finite_subset [of _ "dom (clients s)"]) (auto simp: pts_def)

lemma pts_goto: "clients s c \<noteq> None \<Longrightarrow> pts (goto c p s) = (pts s)(c \<mapsto> p)"
  by (auto simp: pts_def goto_def fun_eq_iff)

lemma goto_fields [simp]: "thread_list_head (goto c p s) = thread_list_head s" "num_client_threads (goto c p s) = num_client_threads s"
  "fault (goto c p s) = fault s" "db (goto c p s) = db s" "dom (clients (goto c p s)) = dom (clients s)"
  by (auto simp: goto_def split: if_splits)

lemma chain_goto: "chain (clients (goto c p s)) h as \<longleftrightarrow> chain (clients s) h as"
  by (rule chain_cong) (auto simp: goto_def option.map_comp comp_def)

lemma goto_prev: "clients (goto c p s) d = Some e \<Longrightarrow> \<exists>e'. clients s d = Some e' \<and> cprev e = cprev e' \<and> (d \<noteq> c \<longrightarrow> e = e')"
  by (auto simp: goto_def split: if_splits)

text \<open>Moving a client between points on the same side of the list keeps the invariant.\<close>

lemma orderly_goto:
  assumes o: "orderly s as" and c: "pts s c = Some p" and pq: "p \<in> {Serving, Waiting, Executing, Cleaning}" "q \<in> {Serving, Waiting, Executing, Cleaning}"
  shows "orderly (goto c q s) as"
proof -
  have ne: "clients s c \<noteq> None" using c by (auto simp: pts_def)
  have "{c. pts (goto c' q s) c \<in> Some ` {Serving, Waiting, Executing, Cleaning}} = {c. pts s c \<in> Some ` {Serving, Waiting, Executing, Cleaning}}"
    if "c' = c" for c' using pts_goto [OF ne, of q] c pq that by auto
  moreover have "{d. pts (goto c q s) d \<notin> {None, Some Started}} = {d. pts s d \<notin> {None, Some Started}}"
    using pts_goto [OF ne, of q] c pq by auto
  moreover have "cprev e = None" if "clients (goto c q s) d = Some e" "point e \<in> {Started, Counted}" for d e
  proof -
    have "d \<noteq> c" using that pq(2) by (auto simp: goto_def)
    then show ?thesis using o that by (auto simp: orderly_def goto_def)
  qed
  ultimately show ?thesis using o unfolding orderly_def chain_goto by simp
qed

text \<open>The same for steps that change a listed client in fields other than its links.\<close>

lemma orderly_update:
  assumes o: "orderly s as" and e: "clients s c = Some e" "point e \<in> {Serving, Waiting, Executing, Cleaning}"
    and f: "point f \<in> {Serving, Waiting, Executing, Cleaning}" "cprev f = cprev e" "cnext f = cnext e" and t: "db_ok t"
  shows "orderly (s\<lparr>db := t, clients := (clients s)(c \<mapsto> f)\<rparr>) as"
proof -
  let ?t = "s\<lparr>db := t, clients := (clients s)(c \<mapsto> f)\<rparr>"
  have p: "pts ?t = (pts s)(c \<mapsto> point f)" "pts s c = Some (point e)" using e(1) by (auto simp: pts_def fun_eq_iff)
  have "chain (clients ?t) (thread_list_head s) as" using o chain_cong [of as "clients ?t" "clients s"] e(1) f(2,3) by (auto simp: orderly_def)
  moreover have "{d. pts ?t d \<in> Some ` {Serving, Waiting, Executing, Cleaning}} = {d. pts s d \<in> Some ` {Serving, Waiting, Executing, Cleaning}}"
    using p e(2) f(1) by auto
  moreover have "{d. pts ?t d \<notin> {None, Some Started}} = {d. pts s d \<notin> {None, Some Started}}" using p e(2) f(1) by auto
  moreover have "cprev e' = None" if "clients ?t d = Some e'" "point e' \<in> {Started, Counted}" for d e'
    using that o f(1) by (auto simp: orderly_def split: if_splits)
  ultimately show ?thesis using o t by (simp add: orderly_def)
qed

lemma interpret_command_ok:
  "db_ok head \<Longrightarrow> interpret_command depth True files c len head = Some (resp, head') \<Longrightarrow> db_ok head'"
proof (induction depth arbitrary: c head resp head')
  case 0
  show ?case
  proof (cases "is_file c")
    case False
    then show ?thesis using db.request_refines [OF 0(1) parse_request_wf [of c], of len] 0(2) interpret_simple [OF False] by (auto split: if_splits)
  next
    case True
    then show ?thesis using 0 by (auto simp: is_file_def interpret_command.simps Let_def split: prod.splits if_splits option.splits)
  qed
next
  case (Suc depth)
  show ?case
  proof (cases "is_file c")
    case False
    then show ?thesis using db.request_refines [OF Suc.prems(1) parse_request_wf [of c], of len] Suc.prems(2) interpret_simple [OF False] by (auto split: if_splits)
  next
    case True
    have fold: "db_ok t'" if "db_ok t" "foldM (\<lambda>ibuf head. map_option snd (interpret_command depth True files ibuf len head)) ls t = Some t'" for ls t t'
      using that
    proof (induction ls arbitrary: t)
      case (Cons x ls)
      then obtain r u where u: "interpret_command depth True files x len t = Some (r, u)"
        "foldM (\<lambda>ibuf head. map_option snd (interpret_command depth True files ibuf len head)) ls u = Some t'"
        by (auto simp: bind_eq_Some_conv)
      then show ?case using Cons.IH [OF _ u(2)] Suc.IH [OF Cons.prems(1) u(1)] by blast
    qed simp
    show ?thesis using Suc.prems True fold
      by (subst (asm) interpret_command.simps) (auto simp: is_file_def Let_def split: prod.splits if_splits option.splits)
  qed
qed

lemma orderly_connect:
  assumes o: "orderly s as" and c: "clients s c = None"
  shows "orderly (client_constructor c inp s) as"
proof -
  let ?t = "client_constructor c inp s"
  have p: "pts ?t = (pts s)(c \<mapsto> Started)" "pts s c = None" using c by (auto simp: pts_def client_constructor_def fun_eq_iff)
  have n: "c \<notin> set as" using o p(2) by (auto simp: orderly_def)
  have "chain (clients ?t) (thread_list_head s) as"
    by (subst chain_cong [of as _ "clients s"]) (use o n in \<open>auto simp: orderly_def client_constructor_def\<close>)
  moreover have "{d. pts ?t d \<in> Some ` {Serving, Waiting, Executing, Cleaning}} = {d. pts s d \<in> Some ` {Serving, Waiting, Executing, Cleaning}}"
    using p by auto
  moreover have "{d. pts ?t d \<notin> {None, Some Started}} = {d. pts s d \<notin> {None, Some Started}}" using p by auto
  ultimately show ?thesis using o by (auto simp: orderly_def client_constructor_def)
qed

lemma orderly_count:
  assumes o: "orderly s as" and c: "pts s c = Some Started"
  shows "orderly (goto c Counted (count_client s)) as"
proof -
  let ?t = "goto c Counted (count_client s)"
  have ne: "clients (count_client s) c \<noteq> None" using c by (auto simp: pts_def count_client_def)
  have p: "pts ?t = (pts s)(c \<mapsto> Counted)" using pts_goto [OF ne] by (simp add: pts_def count_client_def fun_eq_iff)
  have "{d. pts ?t d \<notin> {None, Some Started}} = insert c {d. pts s d \<notin> {None, Some Started}}" using p by auto
  then have "card {d. pts ?t d \<notin> {None, Some Started}} = Suc (card {d. pts s d \<notin> {None, Some Started}})"
    using o c finite_counted [of s] by (simp add: orderly_def)
  moreover have "{d. pts ?t d \<in> Some ` {Serving, Waiting, Executing, Cleaning}} = {d. pts s d \<in> Some ` {Serving, Waiting, Executing, Cleaning}}"
    using p c by auto
  moreover have "cprev e = None" if "clients ?t d = Some e" "point e \<in> {Started, Counted}" for d e
    using that o c by (auto simp: orderly_def goto_def count_client_def pts_def split: if_splits)
  moreover have "chain (clients ?t) (thread_list_head ?t) as" using o unfolding chain_goto by (simp add: orderly_def count_client_def)
  ultimately show ?thesis using o by (simp add: orderly_def count_client_def)
qed

lemma orderly_insert:
  assumes o: "orderly s as" and c: "pts s c = Some Counted"
  shows "orderly (goto c Serving (attempt (insert_client c s) s)) (c # as)"
proof -
  obtain e where e: "clients s c = Some e" "point e = Counted" using c by (auto simp: pts_def)
  have n: "c \<notin> set as" "cprev e = None" using o c e by (auto simp: orderly_def)
  have ch: "chain (clients s) (thread_list_head s) as" using o by (simp add: orderly_def)
  obtain cs where cs: "insert_client c s = Some (s\<lparr>thread_list_head := Some c, clients := cs\<rparr>)" "chain cs (Some c) (c # as)"
    "\<forall>a. map_option point (cs a) = map_option point (clients s a)" "dom cs = dom (clients s)" "\<forall>a. a \<notin> set (c # as) \<longrightarrow> cs a = clients s a"
    by (rule chain_insert [OF ch e(1) n])
  define u where "u = s\<lparr>thread_list_head := Some c, clients := cs\<rparr>"
  have pu: "pts u = pts s" using cs(3) by (simp add: pts_def u_def fun_eq_iff)
  have ne: "clients u c \<noteq> None" using cs(4) e(1) by (auto simp: u_def)
  have p: "pts (goto c Serving u) = (pts s)(c \<mapsto> Serving)" using pts_goto [OF ne] pu by simp
  have "{d. pts (goto c Serving u) d \<in> Some ` {Serving, Waiting, Executing, Cleaning}} = insert c {d. pts s d \<in> Some ` {Serving, Waiting, Executing, Cleaning}}"
    using p by auto
  moreover have "{d. pts (goto c Serving u) d \<notin> {None, Some Started}} = {d. pts s d \<notin> {None, Some Started}}" using p c by auto
  moreover have "chain (clients (goto c Serving u)) (thread_list_head (goto c Serving u)) (c # as)" unfolding chain_goto using cs(2) by (simp add: u_def)
  moreover have "cprev f = None" if f: "clients (goto c Serving u) d = Some f" "point f \<in> {Started, Counted}" for d f
  proof -
    have d: "d \<noteq> c" "cs d = Some f" using f ne by (auto simp: goto_def u_def split: if_splits)
    have "pts s d = Some (point f)" using cs(3) d(2) by (metis pts_def option.simps(9))
    then have "d \<notin> set as" using o f(2) by (auto simp: orderly_def)
    then have "cs d = clients s d" using cs(5) d(1) by simp
    then show ?thesis using o f(2) d(2) by (auto simp: orderly_def)
  qed
  ultimately show ?thesis using o cs(1,4) by (simp add: orderly_def attempt_def u_def)
qed

lemma orderly_unlink:
  assumes o: "orderly s as" and c: "pts s c = Some Cleaning"
  shows "orderly (goto c Destructing (attempt (unlink_client c s) s)) (remove1 c as)"
proof -
  have "c \<in> set as" using o c by (auto simp: orderly_def)
  then obtain us vs where as: "as = us @ c # vs" by (meson split_list)
  have ch: "chain (clients s) (thread_list_head s) (us @ c # vs)" using o as by (simp add: orderly_def)
  then have d: "c \<notin> set (us @ vs)" "distinct (us @ c # vs)" by (auto simp: chain_def)
  have r: "remove1 c as = us @ vs" using d as by (simp add: remove1_append)
  obtain cs h where cs: "unlink_client c s = Some (s\<lparr>thread_list_head := h, clients := cs\<rparr>)" "chain cs h (us @ vs)"
    "\<forall>a. map_option point (cs a) = map_option point (clients s a)" "dom cs = dom (clients s)" "\<forall>a. a \<notin> set (us @ vs) \<longrightarrow> cs a = clients s a"
    by (rule chain_unlink [OF ch])
  define u where "u = s\<lparr>thread_list_head := h, clients := cs\<rparr>"
  have pu: "pts u = pts s" using cs(3) by (simp add: pts_def u_def fun_eq_iff)
  have ne: "clients u c \<noteq> None" using cs(4) c by (auto simp: u_def pts_def)
  have p: "pts (goto c Destructing u) = (pts s)(c \<mapsto> Destructing)" using pts_goto [OF ne] pu by simp
  have "{d. pts (goto c Destructing u) d \<in> Some ` {Serving, Waiting, Executing, Cleaning}} = {d. pts s d \<in> Some ` {Serving, Waiting, Executing, Cleaning}} - {c}"
    using p by auto
  moreover have "set (us @ vs) = set as - {c}" using d as by auto
  moreover have "{d. pts (goto c Destructing u) d \<notin> {None, Some Started}} = {d. pts s d \<notin> {None, Some Started}}" using p c by auto
  moreover have "chain (clients (goto c Destructing u)) (thread_list_head (goto c Destructing u)) (us @ vs)" unfolding chain_goto using cs(2) by (simp add: u_def)
  moreover have "cprev f = None" if f: "clients (goto c Destructing u) d = Some f" "point f \<in> {Started, Counted}" for d f
  proof -
    have dc: "d \<noteq> c" "cs d = Some f" using f ne by (auto simp: goto_def u_def split: if_splits)
    have "pts s d = Some (point f)" using cs(3) dc(2) by (metis pts_def option.simps(9))
    then have "d \<notin> set as" using o f(2) by (auto simp: orderly_def)
    then have "cs d = clients s d" using cs(5) as by simp
    then show ?thesis using o f(2) dc(2) by (auto simp: orderly_def)
  qed
  ultimately show ?thesis unfolding r using o cs(1,4) by (simp add: orderly_def attempt_def u_def)
qed

lemma orderly_destruct:
  assumes o: "orderly s as" and c: "pts s c = Some Destructing"
  shows "orderly ((client_destructor c s)\<lparr>cancelled := k\<rparr>) as"
proof -
  let ?t = "(client_destructor c s)\<lparr>cancelled := k\<rparr>"
  have p: "pts ?t = (pts s)(c := None)" by (auto simp: pts_def client_destructor_def fun_eq_iff)
  have "c \<notin> set as" using o c by (auto simp: orderly_def)
  then have "chain (clients ?t) (thread_list_head s) as"
    by (subst chain_cong [of as _ "clients s"]) (use o in \<open>auto simp: orderly_def client_destructor_def\<close>)
  moreover have "{d. pts ?t d \<in> Some ` {Serving, Waiting, Executing, Cleaning}} = {d. pts s d \<in> Some ` {Serving, Waiting, Executing, Cleaning}}"
    using p c by auto
  moreover have "int (card {d. pts ?t d \<notin> {None, Some Started}}) = num_client_threads s - 1"
  proof -
    have "{d. pts ?t d \<notin> {None, Some Started}} = {d. pts s d \<notin> {None, Some Started}} - {c}" using p by auto
    moreover have "c \<in> {d. pts s d \<notin> {None, Some Started}}" using c by simp
    moreover have f: "finite {d. pts s d \<notin> {None, Some Started}}" using o finite_counted by (simp add: orderly_def)
    ultimately have "card {d. pts s d \<notin> {None, Some Started}} = Suc (card {d. pts ?t d \<notin> {None, Some Started}})" by (metis card.remove)
    then show ?thesis using o by (simp add: orderly_def)
  qed
  ultimately show ?thesis using o by (auto simp: orderly_def client_destructor_def)
qed

text \<open>The events of the two halves of \<^verbatim>\<open>delete_all\<close> and of the end of the main thread.\<close>

fun deletes :: "server_event \<Rightarrow> bool" where
  "deletes Signal_list \<longleftrightarrow> True"
| "deletes Signal_count \<longleftrightarrow> True"
| "deletes Main_list \<longleftrightarrow> True"
| "deletes Main_count \<longleftrightarrow> True"
| "deletes Main_check \<longleftrightarrow> True"
| "deletes _ \<longleftrightarrow> False"

lemma orderly_same: "orderly s as \<Longrightarrow> clients t = clients s \<Longrightarrow> thread_list_head t = thread_list_head s \<Longrightarrow>
    num_client_threads t = num_client_threads s \<Longrightarrow> fault t = fault s \<Longrightarrow> db t = db s \<Longrightarrow> orderly t as"
  by (simp add: orderly_def pts_def)

lemma comm_serve_links: "comm_serve w e = (r, f) \<Longrightarrow> cprev f = cprev e \<and> cnext f = cnext e"
  by (auto simp: comm_serve_def comm_send_def comm_read_def split: if_splits option.splits)

lemma server_step_orderly:
  assumes o: "orderly s as" and e: "server_step depth files ev s = Some t" and d: "\<not> deletes ev"
  shows "\<exists>bs. orderly t bs"
proof -
  have nf: "\<not> fault s" and ok: "db_ok (db s)" using o by (auto simp: orderly_def)
  show ?thesis
  proof (cases ev)
    case (Connect c inp)
    then show ?thesis using e nf orderly_connect [OF o] by (auto simp: server_step.simps split: if_splits)
  next
    case (Count c)
    then show ?thesis using e nf orderly_count [OF o] by (auto simp: server_step.simps at_pts split: if_splits)
  next
    case (Insert c)
    then show ?thesis using e nf orderly_insert [OF o] by (auto simp: server_step.simps at_pts split: if_splits)
  next
    case (Serve c w)
    then have a: "pts s c = Some Serving" "t = attempt (serve_client c w s) s" using e nf by (auto simp: server_step.simps at_pts split: if_splits)
    then obtain f where f: "clients s c = Some f" "point f = Serving" by (auto simp: pts_def)
    obtain r g where g: "comm_serve w f = (r, g)" by (cases "comm_serve w f")
    let ?g = "g\<lparr>point := (if r = - 1 \<or> take 1 (received g) = [EOF_char] then Cleaning else Waiting)\<rparr>"
    have "t = s\<lparr>clients := (clients s)(c \<mapsto> ?g)\<rparr>" using a f g by (simp add: serve_client_def attempt_def)
    also have "\<dots> = s\<lparr>db := db s, clients := (clients s)(c \<mapsto> ?g)\<rparr>" by simp
    finally show ?thesis using orderly_update [OF o f(1), of ?g "db s"] f(2) comm_serve_links [OF g] ok by auto
  next
    case (Pass c)
    then show ?thesis using e nf orderly_goto [OF o] by (auto simp: server_step.simps at_pts split: if_splits)
  next
    case (Execute c)
    then have a: "pts s c = Some Executing" "execute_client depth files c s = Some t" using e nf by (auto simp: server_step.simps at_pts split: if_splits)
    then obtain f where f: "clients s c = Some f" "point f = Executing" by (auto simp: pts_def)
    obtain resp u where u: "interpret_command depth True files (received f) 1024 (db s) = Some (resp, u)"
      "t = s\<lparr>db := u, clients := (clients s)(c \<mapsto> f\<lparr>response := resp, point := Serving\<rparr>)\<rparr>"
      using a(2) f(1) by (auto simp: execute_client_def bind_eq_Some_conv)
    show ?thesis using orderly_update [OF o f(1), of "f\<lparr>response := resp, point := Serving\<rparr>" u] f(2) interpret_command_ok [OF ok u(1)] u(2) by auto
  next
    case (Cancel c)
    then show ?thesis using e nf orderly_goto [OF o] by (auto simp: server_step.simps at_pts split: if_splits)
  next
    case (Unlink c)
    then show ?thesis using e nf orderly_unlink [OF o] by (auto simp: server_step.simps at_pts split: if_splits)
  next
    case (Destruct c)
    then show ?thesis using e nf orderly_destruct [OF o] by (auto simp: server_step.simps at_pts split: if_splits)
  next
    case Stop
    then show ?thesis using e nf orderly_same [OF o, of t] by (auto simp: server_step.simps client_control_stop_def split: if_splits)
  next
    case Release
    then show ?thesis using e nf orderly_same [OF o, of t] by (auto simp: server_step.simps client_control_release_def split: if_splits)
  next
    case Main_eof
    then show ?thesis using e nf orderly_same [OF o, of t] by (auto simp: server_step.simps split: if_splits)
  qed (use d in simp_all)
qed

lemma init_orderly: "orderly init_server []"
  using empty_db_ok by (simp add: orderly_def init_server_def chain_def pts_def)

lemma run_orderly:
  "orderly s as \<Longrightarrow> run_server depth files evs s = Some t \<Longrightarrow> (\<forall>ev \<in> set evs. \<not> deletes ev) \<Longrightarrow> \<exists>bs. orderly t bs"
proof (induction evs arbitrary: s as)
  case (Cons ev evs)
  then obtain u where u: "server_step depth files ev s = Some u" "run_server depth files evs u = Some t"
    by (auto simp: run_server_def bind_eq_Some_conv)
  obtain bs where "orderly u bs" using server_step_orderly [OF Cons.prems(1) u(1)] Cons.prems(3) by auto
  then show ?case using Cons.IH u(2) Cons.prems(3) by auto
qed (auto simp: run_server_def)

lemma main_input_orderly: "orderly s as \<Longrightarrow> main_input can_open input s = Some (r, t) \<Longrightarrow> orderly t as"
  by (rule orderly_same [of s as t], assumption)
    (auto simp: main_input_def client_control_stop_def client_control_release_def bind_eq_Some_conv split: if_splits)

section \<open>The end of the server\<close>

text \<open>
  The main thread waits for the count: no thread is about to be counted or listed, and the count is minus
  the number of the clients in \<open>D\<close> that have ended.
\<close>

definition ending :: "nat set \<Rightarrow> server \<Rightarrow> bool" where
  "ending D s \<longleftrightarrow> main_at s \<in> {Ended_count, Cleaned} \<and> \<not> sig_deleting s \<and> dom (clients s) \<subseteq> D
     \<and> (\<forall>c. pts s c \<notin> {Some Started, Some Counted}) \<and> num_client_threads s = - int (card (D - dom (clients s)))"

lemma ending_points:
  assumes "ending D s" "dom (clients t) = dom (clients s)" "\<forall>c. pts t c \<notin> {Some Started, Some Counted}"
    "main_at t = main_at s" "sig_deleting t = sig_deleting s" "num_client_threads t = num_client_threads s"
  shows "ending D t"
  using assms by (simp add: ending_def)

lemma ending_goto:
  "ending D s \<Longrightarrow> q \<notin> {Started, Counted} \<Longrightarrow> ending D (goto c q s)"
  by (rule ending_points [of D s], assumption) (auto simp: ending_def pts_def goto_def split: if_splits)

lemma unlink_fields:
  "unlink_client c s = Some t \<Longrightarrow> dom (clients t) = dom (clients s) \<and> pts t = pts s \<and> main_at t = main_at s \<and> sig_deleting t = sig_deleting s
    \<and> num_client_threads t = num_client_threads s"
  by (auto simp: unlink_client_def pts_def bind_eq_Some_conv fun_eq_iff Let_def split: option.splits prod.splits if_splits)

lemma server_step_ending:
  assumes i: "ending D s" "finite D" and e: "server_step depth files ev s = Some t"
  shows "ending D t"
proof -
  have m: "main_at s \<noteq> Reading" "main_at s \<noteq> Ending" "main_at s \<noteq> Ended_list" "\<not> sig_deleting s" using i(1) by (auto simp: ending_def)
  have na: "\<not> at c Started s" "\<not> at c Counted s" for c using i(1) unfolding at_pts ending_def by simp_all
  have pc: "point f \<notin> {Started, Counted}" if "clients s c = Some f" for c f using i(1) that by (auto simp: ending_def pts_def)
  have nf: "\<not> fault s" using e by (auto simp: server_step.simps split: if_splits)
  have upd: "ending D (s\<lparr>db := d, clients := (clients s)(c \<mapsto> f)\<rparr>)" if "clients s c = Some g" "point f \<notin> {Started, Counted}" for d c f g
    by (rule ending_points [OF i(1)]) (use that i(1) in \<open>auto simp: ending_def pts_def\<close>)
  show ?thesis
  proof (cases ev)
    case (Serve c w)
    then have a: "at c Serving s" "t = attempt (serve_client c w s) s" using e nf by (auto simp: server_step.simps split: if_splits)
    then obtain f where f: "clients s c = Some f" by (auto simp: at_def)
    obtain r g where g: "comm_serve w f = (r, g)" by (cases "comm_serve w f")
    let ?g = "g\<lparr>point := (if r = - 1 \<or> take 1 (received g) = [EOF_char] then Cleaning else Waiting)\<rparr>"
    have "t = s\<lparr>db := db s, clients := (clients s)(c \<mapsto> ?g)\<rparr>" using a f g by (simp add: serve_client_def attempt_def)
    then show ?thesis using upd [OF f, of ?g "db s"] by auto
  next
    case (Pass c)
    then show ?thesis using e nf ending_goto [OF i(1)] by (auto simp: server_step.simps split: if_splits)
  next
    case (Execute c)
    then obtain f resp u where "clients s c = Some f" "t = s\<lparr>db := u, clients := (clients s)(c \<mapsto> f\<lparr>response := resp, point := Serving\<rparr>)\<rparr>"
      using e nf by (auto simp: server_step.simps execute_client_def bind_eq_Some_conv split: if_splits)
    then show ?thesis using upd by auto
  next
    case (Cancel c)
    then show ?thesis using e nf ending_goto [OF i(1)] by (auto simp: server_step.simps split: if_splits)
  next
    case (Unlink c)
    then have t: "t = goto c Destructing (attempt (unlink_client c s) s)" using e nf by (auto simp: server_step.simps split: if_splits)
    have "ending D (attempt (unlink_client c s) s)"
    proof (cases "unlink_client c s")
      case None
      show ?thesis by (rule ending_points [OF i(1)]) (use None i(1) in \<open>simp_all add: attempt_def ending_def pts_def\<close>)
    next
      case (Some u)
      show ?thesis by (rule ending_points [OF i(1)]) (use Some unlink_fields [OF Some] i(1) in \<open>simp_all add: attempt_def ending_def\<close>)
    qed
    then show ?thesis unfolding t by (rule ending_goto) simp
  next
    case (Destruct c)
    then have a: "at c Destructing s" "t = (client_destructor c s)\<lparr>cancelled := cancelled s - {c}\<rparr>" using e nf by (auto simp: server_step.simps split: if_splits)
    have c: "c \<in> dom (clients s)" using a(1) by (auto simp: at_def)
    then have "D - (dom (clients s) - {c}) = insert c (D - dom (clients s))" using i(1) by (auto simp: ending_def)
    then have "card (D - (dom (clients s) - {c})) = Suc (card (D - dom (clients s)))" using c i(2) by simp
    then show ?thesis using i(1) a(2) by (auto simp: ending_def client_destructor_def pts_def)
  next
    case Main_check
    then show ?thesis using e nf i(1) by (auto simp: server_step.simps ending_def pts_def split: if_splits)
  qed (use e m na nf in \<open>simp_all add: server_step.simps split: if_splits\<close>)
qed

lemma run_ending: "ending D s \<Longrightarrow> finite D \<Longrightarrow> run_server depth files evs s = Some t \<Longrightarrow> ending D t"
proof (induction evs arbitrary: s)
  case (Cons ev evs)
  then obtain u where u: "server_step depth files ev s = Some u" "run_server depth files evs u = Some t"
    by (auto simp: run_server_def bind_eq_Some_conv)
  show ?case using Cons.IH [OF server_step_ending [OF Cons.prems(1,2) u(1)] Cons.prems(2) u(2)] .
qed (simp add: run_server_def)

lemma walk_path: "cl.path cs cur as None \<Longrightarrow> walk cs cur = Some as"
proof (induction as arbitrary: cur)
  case Nil
  then show ?case by (subst walk.simps) auto
next
  case (Cons a as)
  then show ?case by (subst walk.simps) auto
qed

lemma shutdown_ending:
  assumes o: "orderly s as" and m: "main_at s = Ending" "\<not> sig_deleting s" and p: "\<forall>c. pts s c \<notin> {Some Started, Some Counted}"
    and r: "run_server depth files [Main_list, Main_count] s = Some t"
  shows "ending (dom (clients s)) t"
proof -
  have "walk (clients s) (thread_list_head s) = Some as" using o walk_path by (simp add: orderly_def chain_def)
  moreover have "\<not> fault s" using o by (simp add: orderly_def)
  ultimately have "t = s\<lparr>cancelled := cancelled s \<union> set as, thread_list_head := None, main_at := Ended_count, num_client_threads := 0\<rparr>"
    using r m by (cases s) (simp add: run_server_def server_step.simps delete_list_def attempt_def delete_count_def)
  then show ?thesis using m p by (simp add: ending_def pts_def)
qed

section \<open>An example\<close>

definition two_clients :: "server_event list" where
  "two_clients = [Connect 1 ''a x y'', Count 1, Insert 1, Connect 2 [], Serve 1 True, Pass 1, Count 2, Insert 2, Execute 1, Main_eof]"

lemmas server_run_simps = run_server_def init_server_def server_step.simps at_def client_constructor_def goto_def count_client_def
  insert_client_def attempt_def serve_client_def comm_serve_def comm_send_def comm_read_def fgets_def client_control_wait_def execute_client_def interpret_command.simps
  scan_word_def isspace_def db_add_def node_constructor_def snprintf_def empty_db_def pts_def Let_def

lemma two_clients_end:
  "\<exists>s t. run_server 0 Map.empty two_clients init_server = Some s
    \<and> run_server 0 Map.empty ([Main_list, Main_count] @ [Cancel 1, Unlink 1, Destruct 1, Cancel 2, Unlink 2, Destruct 2]) s = Some t
    \<and> clients t = Map.empty \<and> main_at t = Ended_count"
  by (simp add: two_clients_def server_run_simps delete_list_def delete_count_def walk.simps unlink_client_def client_destructor_def fun_eq_iff)

lemma two_clients_run:
  "\<exists>s. run_server 0 Map.empty two_clients init_server = Some s \<and> thread_list_head s = Some 2 \<and> num_client_threads s = 2 \<and> main_at s = Ending
    \<and> \<not> sig_deleting s \<and> pts s = [1 \<mapsto> Serving, 2 \<mapsto> Serving] \<and> \<not> stopped s"
  by (simp add: two_clients_def server_run_simps fun_eq_iff)

section \<open>Theorems\<close>

text \<open>
  C26. As long as \<^verbatim>\<open>delete_all\<close> is not called, in every interleaving of the threads no dangling pointer is
  followed, the list is a well-formed doubly linked list of exactly the clients between their insertion
  and their removal, the count is the number of client threads that have been counted and not destructed,
  and the database is a well-formed search tree.
\<close>

theorem server_run_orderly:
  assumes "run_server depth files evs init_server = Some s" "\<forall>ev \<in> set evs. \<not> deletes ev"
  shows "\<exists>as. orderly s as"
  using run_orderly [OF init_orderly assms] .

theorem server_run_orderly_witness:
  "\<exists>s as. run_server 0 Map.empty two_clients init_server = Some s \<and> orderly s as \<and> num_client_threads s = 2"
proof -
  obtain s where s: "run_server 0 Map.empty two_clients init_server = Some s" "num_client_threads s = 2" using two_clients_run by blast
  have "\<forall>ev \<in> set two_clients. \<not> deletes ev" by (simp add: two_clients_def)
  then show ?thesis using server_run_orderly [OF s(1)] s by blast
qed



end
