(* ===== verification/Client.thy ===== *)
theory Client
  imports ServerCorrect
begin

text \<open>
  The client, \<^verbatim>\<open>src/database/client.c\<close>, and its dialogue with the thread that serves it. The two processes
  are joined by a connection, one stream in each direction; the server thread is the one of \<open>Server\<close>, here
  with the two halves of \<^verbatim>\<open>comm_serve\<close> as steps of their own, since it blocks between them. The clients are
  not stopped. A read blocks until the stream has a line, as much as the buffer holds, or its end.
\<close>

section \<open>The two processes\<close>

abbreviation BUFSIZE :: nat where "BUFSIZE \<equiv> 1024"

definition fgets_into :: "nat \<Rightarrow> string \<Rightarrow> string" where
  "fgets_into n s = (let l = takeWhile (\<lambda>c. c \<noteq> newline) s in if length l < n - 1 then take (length l + 1) s else take (n - 1) s)"

definition can_return :: "nat \<Rightarrow> bool \<Rightarrow> string \<Rightarrow> bool" where
  "can_return n at_end s \<longleftrightarrow> at_end \<or> n - 1 \<le> length s \<or> newline \<in> set s"

datatype client_point = Asking | Awaiting | Exited int

datatype thread_point = Responding | Listening | Running | Gone

text \<open>
  \<open>infile\<close> is what is left of the script, \<open>qbuf\<close> the buffer of the query, \<open>printed\<close> what the client has
  printed of responses; \<open>conn\<close> holds the streams and the buffers of the server thread, \<open>base\<close> the database.
\<close>

record talk =
  infile :: string
  qbuf :: "char list"
  printed :: string
  asker :: client_point
  conn :: client
  serving :: thread_point
  base :: node

text \<open>One round of the loop in \<^verbatim>\<open>create_occurence\<close>: up to the answer, and the answer.\<close>

definition send_query :: "talk \<Rightarrow> talk" where
  "send_query t =
     (if infile t = [] then t\<lparr>qbuf := (qbuf t)[0 := EOF_char], asker := Exited 0,
          conn := (conn t)\<lparr>incoming := incoming (conn t) @ cstr ((qbuf t)[0 := EOF_char])\<rparr>\<rparr>
      else (let l = fgets_into BUFSIZE (infile t);
                t = t\<lparr>infile := drop (length l) (infile t), qbuf := l @ NUL # drop (length l + 1) (qbuf t)\<rparr> in
        if serving t = Gone then t\<lparr>asker := Exited 1\<rparr>
        else t\<lparr>asker := Awaiting, conn := (conn t)\<lparr>incoming := incoming (conn t) @ cstr (qbuf t)\<rparr>\<rparr>))"

definition print_response :: "talk \<Rightarrow> talk" where
  "print_response t =
     (if outgoing (conn t) = [] then t\<lparr>asker := Exited 1\<rparr>
      else (let l = fgets_into BUFSIZE (outgoing (conn t)) in
        t\<lparr>printed := printed t @ cstr l, asker := Asking,
          conn := (conn t)\<lparr>outgoing := drop (length l) (outgoing (conn t))\<rparr>\<rparr>))"

definition client_step :: "talk \<Rightarrow> talk option" where
  "client_step t = (case asker t of
       Asking \<Rightarrow> Some (send_query t)
     | Awaiting \<Rightarrow> if can_return BUFSIZE (serving t = Gone) (outgoing (conn t)) then Some (print_response t) else None
     | Exited _ \<Rightarrow> None)"

definition exited :: "talk \<Rightarrow> bool" where
  "exited t \<longleftrightarrow> (case asker t of Exited _ \<Rightarrow> True | _ \<Rightarrow> False)"

text \<open>The server thread: \<open>w\<close> says whether a response to a client that has exited is still accepted.\<close>

definition thread_step :: "nat \<Rightarrow> (string \<Rightarrow> string option) \<Rightarrow> bool \<Rightarrow> talk \<Rightarrow> talk option" where
  "thread_step depth files w t = (case serving t of
       Responding \<Rightarrow> (case comm_send (w \<or> \<not> exited t) (conn t) of
           None \<Rightarrow> Some (t\<lparr>serving := Gone\<rparr>)
         | Some e \<Rightarrow> Some (t\<lparr>conn := e, serving := Listening\<rparr>))
     | Listening \<Rightarrow>
         if can_return 256 (exited t) (incoming (conn t)) then
           (case comm_read (conn t) of
               None \<Rightarrow> Some (t\<lparr>serving := Gone\<rparr>)
             | Some e \<Rightarrow> Some (t\<lparr>conn := e, serving := (if take 1 (received e) = [EOF_char] then Gone else Running)\<rparr>))
         else None
     | Running \<Rightarrow> map_option (\<lambda>(resp, root). t\<lparr>base := root, conn := (conn t)\<lparr>response := resp\<rparr>, serving := Responding\<rparr>)
         (interpret_command depth True files (received (conn t)) 1024 (base t))
     | Gone \<Rightarrow> None)"

inductive talks :: "nat \<Rightarrow> (string \<Rightarrow> string option) \<Rightarrow> talk \<Rightarrow> talk \<Rightarrow> bool" for depth files where
  by_client: "client_step t = Some u \<Longrightarrow> talks depth files t u"
| by_thread: "thread_step depth files w t = Some u \<Longrightarrow> talks depth files t u"

text \<open>The beginning: \<open>junk\<close> is what the uninitialised query buffer holds.\<close>

definition init_talk :: "string \<Rightarrow> char list \<Rightarrow> node \<Rightarrow> talk" where
  "init_talk script junk root = \<lparr>infile = script, qbuf = junk, printed = [], asker = Asking,
     conn = \<lparr>cprev = None, cnext = None, incoming = [], outgoing = [], response = [], received = [], point = Serving\<rparr>,
     serving = Responding, base = root\<rparr>"

text \<open>On every run, whatever is scheduled, a state with \<open>P\<close> is reached.\<close>

inductive inevitably :: "('s \<Rightarrow> 's \<Rightarrow> bool) \<Rightarrow> ('s \<Rightarrow> bool) \<Rightarrow> 's \<Rightarrow> bool" for step P where
  now: "P s \<Longrightarrow> inevitably step P s"
| later: "\<exists>t. step s t \<Longrightarrow> (\<forall>t. step s t \<longrightarrow> inevitably step P t) \<Longrightarrow> inevitably step P s"

inductive_simps talks_iff: "talks depth files t u"

lemma inevitably_only: "(\<And>t. step s t \<longleftrightarrow> t = u) \<Longrightarrow> inevitably step P u \<Longrightarrow> inevitably step P s"
  by (rule inevitably.later) auto

section \<open>Lines\<close>

definition query_line :: "string \<Rightarrow> bool" where
  "query_line l \<longleftrightarrow> length l < 255 \<and> newline \<notin> set l \<and> NUL \<notin> set l \<and> take 1 l \<noteq> [EOF_char]"

lemma takeWhile_line: "newline \<notin> set l \<Longrightarrow> takeWhile (\<lambda>c. c \<noteq> newline) (l @ newline # r) = l"
  by (subst takeWhile_append2) auto

lemma fgets_into_line: "newline \<notin> set l \<Longrightarrow> Suc (length l) < n \<Longrightarrow> fgets_into n (l @ newline # r) = l @ [newline]"
  by (simp add: fgets_into_def takeWhile_line Let_def)

lemma fgets_is_into: "fgets = fgets_into 256"
  by (simp add: fgets_def fgets_into_def fun_eq_iff Let_def)

lemma cstr_plain [simp]: "NUL \<notin> set s \<Longrightarrow> cstr (s @ NUL # r) = s"
  by (induction s) auto

lemma cstr_id: "NUL \<notin> set s \<Longrightarrow> cstr s = s"
  by (induction s) auto

lemma cstr_line [simp]: "NUL \<notin> set l \<Longrightarrow> cstr (l @ newline # NUL # r) = l @ [newline]"
  by (induction l) auto

section \<open>Rounds\<close>

definition idle :: "talk \<Rightarrow> bool" where
  "idle t \<longleftrightarrow> asker t = Asking \<and> serving t = Listening \<and> incoming (conn t) = [] \<and> outgoing (conn t) = [] \<and> qbuf t \<noteq> []"

definition sendable :: "string \<Rightarrow> bool" where
  "sendable r \<longleftrightarrow> r \<noteq> [] \<and> newline \<notin> set r \<and> NUL \<notin> set r \<and> length r < 1023"

lemmas talk_steps = talks_iff client_step_def thread_step_def exited_def can_return_def

lemma newline_not_NUL [simp]: "newline \<noteq> NUL" "NUL \<noteq> newline"
  by (simp_all)

text \<open>A round: what a query line and its answer make of a state between rounds.\<close>

lemma round_eventually:
  assumes t: "idle t" "infile t = l @ newline # rest" "query_line l"
    and e: "interpret_command depth True files (l @ [newline]) 1024 (base t) = Some (resp, root)" "sendable resp"
    and P: "\<And>u. idle u \<Longrightarrow> infile u = rest \<Longrightarrow> printed u = printed t @ resp @ [newline] \<Longrightarrow> base u = root \<Longrightarrow> inevitably (talks depth files) P u"
  shows "inevitably (talks depth files) P t"
proof -
  let ?l = "l @ [newline]" and ?c = "conn t"
  let ?t1 = "t\<lparr>infile := rest, qbuf := ?l @ NUL # drop (length ?l + 1) (qbuf t), asker := Awaiting, conn := ?c\<lparr>incoming := ?l\<rparr>\<rparr>"
  let ?t2 = "?t1\<lparr>conn := ?c\<lparr>received := ?l, incoming := []\<rparr>, serving := Running\<rparr>"
  let ?t3 = "?t2\<lparr>base := root, conn := ?c\<lparr>received := ?l, incoming := [], response := resp\<rparr>, serving := Responding\<rparr>"
  let ?t4 = "?t3\<lparr>conn := ?c\<lparr>received := ?l, incoming := [], response := resp, outgoing := resp @ [newline]\<rparr>, serving := Listening\<rparr>"
  let ?t5 = "?t4\<lparr>conn := ?c\<lparr>received := ?l, incoming := [], response := resp, outgoing := []\<rparr>, printed := printed t @ resp @ [newline], asker := Asking\<rparr>"
  have l: "newline \<notin> set l" "NUL \<notin> set l" "length l < 255" "take 1 ?l \<noteq> [EOF_char]"
    using t(3) by (cases l; simp add: query_line_def)+
  have f: "fgets_into BUFSIZE (l @ newline # rest) = ?l" "fgets (?l) = ?l" using l fgets_into_line [of l 256 "[]"] by (simp_all add: fgets_into_line fgets_is_into)
  have s: "fgets_into BUFSIZE (resp @ [newline]) = resp @ [newline]" using e(2) fgets_into_line [of resp BUFSIZE "[]"] by (simp add: sendable_def)
  have s1: "talks depth files t u \<longleftrightarrow> u = ?t1" for u
    using t(1,2) f l by (auto simp: talk_steps idle_def send_query_def Let_def cstr_plain)
  have s2: "talks depth files ?t1 u \<longleftrightarrow> u = ?t2" for u
    using t(1) f l by (auto simp: talk_steps idle_def comm_read_def cstr_id)
  have s3: "talks depth files ?t2 u \<longleftrightarrow> u = ?t3" for u
    using t(1) e(1) by (auto simp: talk_steps idle_def)
  have s4: "talks depth files ?t3 u \<longleftrightarrow> u = ?t4" for u
    using t(1) e(2) by (auto simp: talk_steps idle_def comm_send_def sendable_def)
  have s5: "talks depth files ?t4 u \<longleftrightarrow> u = ?t5" for u
    using t(1) e(2) s by (auto simp: talk_steps idle_def print_response_def sendable_def cstr_id Let_def)
  have "inevitably (talks depth files) P ?t5"
    by (rule P) (use t(1) in \<open>simp_all add: idle_def\<close>)
  then have "inevitably (talks depth files) P ?t4" by (rule inevitably_only [of "talks depth files", OF s5])
  then have "inevitably (talks depth files) P ?t3" by (rule inevitably_only [of "talks depth files", OF s4])
  then have "inevitably (talks depth files) P ?t2" by (rule inevitably_only [of "talks depth files", OF s3])
  then have "inevitably (talks depth files) P ?t1" by (rule inevitably_only [of "talks depth files", OF s2])
  then show ?thesis by (rule inevitably_only [of "talks depth files", OF s1])
qed

lemma quit_eventually:
  assumes t: "idle t" "infile t = []"
    and P: "\<And>u. asker u = Exited 0 \<Longrightarrow> serving u = Gone \<Longrightarrow> printed u = printed t \<Longrightarrow> base u = base t \<Longrightarrow> P u"
  shows "inevitably (talks depth files) P t"
proof -
  let ?q = "(qbuf t)[0 := EOF_char]"
  let ?t1 = "t\<lparr>qbuf := ?q, asker := Exited 0, conn := (conn t)\<lparr>incoming := cstr ?q\<rparr>\<rparr>"
  obtain x where q: "cstr ?q = EOF_char # x" using t(1) by (cases "qbuf t") (auto simp: idle_def)
  have n: "fgets (EOF_char # x) \<noteq> []" by (simp add: fgets_def Let_def)
  have r: "take 1 (cstr (fgets (EOF_char # x))) = [EOF_char]" by (simp add: fgets_def Let_def)
  have "talks depth files t u \<longleftrightarrow> u = ?t1" for u
    using t by (auto simp: talk_steps idle_def send_query_def)
  moreover have "inevitably (talks depth files) P ?t1"
  proof (rule inevitably.later)
    show "\<exists>u. talks depth files ?t1 u" using t(1) q by (auto simp: talk_steps idle_def comm_read_def)
    show "\<forall>u. talks depth files ?t1 u \<longrightarrow> inevitably (talks depth files) P u"
      using t(1) q r by (auto simp: talk_steps idle_def comm_read_def intro!: inevitably.now P)
  qed
  ultimately show ?thesis by (rule inevitably_only)
qed

lemma inevitably_weaken:
  assumes "inevitably step P s" "\<And>s. P s \<Longrightarrow> Q s" shows "inevitably step Q s"
  using assms(1) by induction (auto intro: inevitably.intros assms(2))

section \<open>The answers\<close>

fun spec_dialogue :: "string list \<Rightarrow> (string \<rightharpoonup> string) \<Rightarrow> string \<times> (string \<rightharpoonup> string)" where
  "spec_dialogue [] m = ([], m)"
| "spec_dialogue (l # ls) m = (let (r, m) = spec_request 1024 (parse_request (l @ [newline])) m; (rs, m) = spec_dialogue ls m
     in (r @ newline # rs, m))"

definition plain :: "(string \<rightharpoonup> string) \<Rightarrow> bool" where
  "plain m \<longleftrightarrow> (\<forall>v \<in> ran m. newline \<notin> set v \<and> NUL \<notin> set v \<and> length v < 1023)"

lemma plain_answer: "plain m \<Longrightarrow> sendable (fst (spec_request 1024 r m))"
  by (cases r) (auto simp: sendable_def plain_def snprintf_def ill_formed_def Let_def ran_def split: option.splits)

lemma scan_word_chars: "scan_word s = (w, r) \<Longrightarrow> set w \<subseteq> {c \<in> set s. \<not> isspace c} \<and> set r \<subseteq> set s \<and> length w \<le> 255"
  by (auto simp: scan_word_def Let_def dest!: in_set_takeD in_set_dropD set_takeWhileD set_dropWhileD)

lemma plain_request:
  assumes "plain m" "NUL \<notin> set c"
  shows "plain (snd (spec_request 1024 (parse_request c) m))"
proof -
  obtain name rest where n: "scan_word (tl c) = (name, rest)" by (cases "scan_word (tl c)")
  obtain val x where v: "scan_word rest = (val, x)" by (cases "scan_word rest")
  have "set (tl c) \<subseteq> set c" by (cases c) auto
  then have "NUL \<notin> set val" "newline \<notin> set val" "length val < 1023"
    using scan_word_chars [OF n] scan_word_chars [OF v] assms(2) by (auto simp: isspace_def)
  then show ?thesis using assms(1) n v by (auto simp: parse_request_def plain_def ran_def Let_def split: if_splits)
qed

lemma command_answer:
  assumes "db_ok root" "\<not> is_file c" "interpret_command depth True files c 1024 root = Some (r, root')"
  shows "r = fst (spec_request 1024 (parse_request c) (contents root))" "db_ok root'"
    "contents root' = snd (spec_request 1024 (parse_request c) (contents root))"
proof -
  note e = db.request_refines [OF assms(1) parse_request_wf [of c], of 1024] interpret_simple [OF assms(2), of depth files 1024 root]
  show "r = fst (spec_request 1024 (parse_request c) (contents root))" "db_ok root'"
    "contents root' = snd (spec_request 1024 (parse_request c) (contents root))"
    using e assms(3) by (auto split: if_splits)
qed

abbreviation execute_lines :: "nat \<Rightarrow> (string \<Rightarrow> string option) \<Rightarrow> string list \<Rightarrow> node \<Rightarrow> node option" where
  "execute_lines depth files \<equiv> foldM (\<lambda>l root. map_option snd (interpret_command depth True files (l @ [newline]) 1024 root))"

lemma dialogue_eventually:
  assumes "idle t" "infile t = concat (map (\<lambda>l. l @ [newline]) ls)" "\<forall>l \<in> set ls. query_line l \<and> \<not> is_file (l @ [newline])"
    and "db_ok (base t)" "plain (contents (base t))" "execute_lines depth files ls (base t) = Some root"
    and "\<And>u. asker u = Exited 0 \<Longrightarrow> serving u = Gone \<Longrightarrow> printed u = printed t @ fst (spec_dialogue ls (contents (base t)))
      \<Longrightarrow> db_ok (base u) \<Longrightarrow> contents (base u) = snd (spec_dialogue ls (contents (base t))) \<Longrightarrow> P u"
  shows "inevitably (talks depth files) P t"
  using assms
proof (induction ls arbitrary: t)
  case Nil
  then show ?case by (intro quit_eventually) auto
next
  case (Cons l ls)
  let ?c = "l @ [newline]" and ?m = "contents (base t)"
  obtain r root1 where e: "interpret_command depth True files ?c 1024 (base t) = Some (r, root1)" "execute_lines depth files ls root1 = Some root"
    using Cons.prems(6) by (auto simp: bind_eq_Some_conv)
  have f: "\<not> is_file ?c" "query_line l" "NUL \<notin> set ?c" using Cons.prems(3) by (auto simp: query_line_def)
  note a = command_answer [OF Cons.prems(4) f(1) e(1)]
  have p: "sendable r" "plain (contents root1)" using plain_answer [OF Cons.prems(5)] plain_request [OF Cons.prems(5) f(3)] a by simp_all
  have d: "spec_dialogue (l # ls) ?m = (r @ newline # fst (spec_dialogue ls (contents root1)), snd (spec_dialogue ls (contents root1)))"
    using a by (simp add: Let_def split_beta)
  show ?case
  proof (rule round_eventually [OF Cons.prems(1) _ f(2) e(1) p(1)])
    show "infile t = l @ newline # concat (map (\<lambda>l. l @ [newline]) ls)" using Cons.prems(2) by simp
    fix u assume u: "idle u" "infile u = concat (map (\<lambda>l. l @ [newline]) ls)" "printed u = printed t @ r @ [newline]" "base u = root1"
    show "inevitably (talks depth files) P u"
      by (rule Cons.IH [OF u(1,2)]) (use Cons.prems(3,7) a(2) p(2) e(2) u d in auto)
  qed
qed

text \<open>Before the first round the thread has nothing to send; the client may be faster.\<close>

lemma send_query_fields:
  assumes "serving t = Responding" "asker t = Asking"
  shows "serving (send_query t) = Responding" "response (conn (send_query t)) = response (conn t)" "outgoing (conn (send_query t)) = outgoing (conn t)"
    "asker (send_query t) \<noteq> Asking" "send_query (t\<lparr>serving := Listening\<rparr>) = (send_query t)\<lparr>serving := Listening\<rparr>"
  using assms by (simp_all add: send_query_def Let_def)

lemma start_eventually:
  assumes s: "serving t = Responding" "response (conn t) = []" "outgoing (conn t) = []" "asker t = Asking"
    and P: "inevitably (talks depth files) P (t\<lparr>serving := Listening\<rparr>)" "\<not> P (t\<lparr>serving := Listening\<rparr>)"
  shows "inevitably (talks depth files) P t"
proof -
  let ?t = "t\<lparr>serving := Listening\<rparr>"
  have q: "talks depth files ?t (send_query ?t)" using s(4) by (simp add: talks_iff client_step_def)
  from P(1) have "inevitably (talks depth files) P (send_query ?t)" by cases (use q P(2) in blast)+
  moreover note f = send_query_fields [OF s(1,4)]
  moreover have "client_step (send_query t) = None"
    using f(1,3,4) s(3) by (cases "asker (send_query t)") (simp_all add: client_step_def can_return_def)
  moreover have "thread_step depth files w (send_query t) = Some (send_query ?t)" for w
    using s(2) f(1,2) unfolding f(5) by (simp add: thread_step_def comm_send_def)
  ultimately have "inevitably (talks depth files) P (send_query t)"
    by (intro inevitably_only [of "talks depth files" "send_query t" "send_query ?t"]) (simp_all add: talks_iff eq_commute)
  moreover have "client_step t = Some (send_query t)" "thread_step depth files w t = Some ?t" for w
    using s by (simp_all add: talk_steps comm_send_def)
  then have "talks depth files t u \<longleftrightarrow> u = send_query t \<or> u = ?t" for u by (auto simp: talks_iff)
  ultimately show ?thesis using P(1) by (intro inevitably.later) auto
qed


lemma example_executes: "execute_lines 0 Map.empty [''a x 1'', ''q x'', ''d x'', []] empty_db \<noteq> None"
  by (simp add: interpret_command.simps scan_word_def isspace_def db_add_def db_query_def db_remove_def node_constructor_def snprintf_def empty_db_def
      ill_formed_def Let_def)


text \<open>
  C29. A script whose last line has no newline (a partial line that the server cannot tell from the
  beginning of a longer one): the client sends it and waits for the answer, the server waits for the rest
  of the line, and neither ever moves again.
\<close>

theorem unterminated_line_deadlocks:
  assumes "l \<noteq> []" "length l < 255" "newline \<notin> set l" "NUL \<notin> set l"
  shows "inevitably (talks depth files) (\<lambda>t. asker t = Awaiting \<and> printed t = [] \<and> \<not> (\<exists>u. talks depth files t u)) (init_talk l junk root)"
proof (rule start_eventually)
  let ?t = "(init_talk l junk root)\<lparr>serving := Listening\<rparr>"
  let ?u = "?t\<lparr>infile := [], qbuf := l @ NUL # drop (length l + 1) junk, asker := Awaiting, conn := (conn ?t)\<lparr>incoming := l\<rparr>\<rparr>"
  have "takeWhile (\<lambda>c. c \<noteq> newline) l = l" using assms(3) by (auto simp: takeWhile_eq_all_conv)
  then have f: "fgets_into BUFSIZE l = l" using assms(2) by (simp add: fgets_into_def Let_def del: takeWhile_eq_all_conv)
  have "talks depth files ?t v \<longleftrightarrow> v = ?u" for v
    using assms f by (auto simp: talk_steps init_talk_def send_query_def Let_def)
  moreover have "\<not> talks depth files ?u v" for v using assms by (auto simp: talk_steps init_talk_def)
  then have "inevitably (talks depth files) (\<lambda>t. asker t = Awaiting \<and> printed t = [] \<and> \<not> (\<exists>u. talks depth files t u)) ?u"
    by (intro inevitably.now) (simp add: init_talk_def)
  ultimately show "inevitably (talks depth files) (\<lambda>t. asker t = Awaiting \<and> printed t = [] \<and> \<not> (\<exists>u. talks depth files t u)) ?t"
    by (rule inevitably_only)
qed (simp_all add: init_talk_def)

theorem unterminated_line_deadlocks_witness:
  "inevitably (talks 0 Map.empty) (\<lambda>t. asker t = Awaiting \<and> printed t = [] \<and> \<not> (\<exists>u. talks 0 Map.empty t u)) (init_talk ''q x'' [] empty_db)"
  by (rule unterminated_line_deadlocks) simp_all

end
