(* ===== verification/Network.thy ===== *)
theory Network
  imports Client
begin

text \<open>
  How client and server come together: \<^verbatim>\<open>get_socket\<close>, the beginning of \<^verbatim>\<open>create_occurence\<close> and \<^verbatim>\<open>main\<close> of \<^verbatim>\<open>src/database/client.c\<close>, the
  listener of \<^verbatim>\<open>src/database/comm.c\<close>, and the signal handler and \<^verbatim>\<open>main\<close> of \<^verbatim>\<open>src/database/server.c\<close>. The calls of the system
  answer with parameters; \<open>Inl\<close> is the status of an exit.
\<close>

section \<open>Connecting\<close>

text \<open>
  The loop of \<^verbatim>\<open>get_socket\<close> over the addresses that \<^verbatim>\<open>getaddrinfo\<close> has found, each with the results of \<^verbatim>\<open>socket\<close> and
  \<^verbatim>\<open>connect\<close>: the socket, if one connects, and the descriptors closed on the way.
\<close>

fun connect_loop :: "(int \<times> int) list \<Rightarrow> int option \<times> int list" where
  "connect_loop [] = (None, [])"
| "connect_loop ((sock, connected) # rs) =
     (if sock < 0 then connect_loop rs
      else if connected \<ge> 0 then (Some sock, [])
      else (let (r, closed) = connect_loop rs in (r, sock # closed)))"

definition get_socket :: "int \<Rightarrow> (int \<times> int) list \<Rightarrow> int \<times> int list" where
  "get_socket err result =
     (if err \<noteq> 0 then (- 1, [])
      else (case connect_loop result of (None, closed) \<Rightarrow> (- 1, closed) | (Some sock, closed) \<Rightarrow> (sock, closed)))"

text \<open>
  The socket returned is the first that connects; every other socket that was created is closed again.
\<close>

lemma connect_loop_first:
  "connect_loop rs = (case filter (\<lambda>(s, c). 0 \<le> s \<and> 0 \<le> c) rs of [] \<Rightarrow> None | (s, _) # _ \<Rightarrow> Some s,
     map fst (filter (\<lambda>(s, c). 0 \<le> s) (takeWhile (\<lambda>(s, c). \<not> (0 \<le> s \<and> 0 \<le> c)) rs)))"
  by (induction rs rule: connect_loop.induct) (auto split: prod.split)

lemma get_socket_no_leak:
  assumes "get_socket 0 rs = (r, closed)"
  shows "r = - 1 \<longleftrightarrow> \<not> (\<exists>(s, c) \<in> set rs. 0 \<le> s \<and> 0 \<le> c)"
    and "map fst (filter (\<lambda>(s, c). 0 \<le> s) (takeWhile (\<lambda>(s, c). \<not> (0 \<le> s \<and> 0 \<le> c)) rs)) = closed"
proof -
  show "r = - 1 \<longleftrightarrow> \<not> (\<exists>(s, c) \<in> set rs. 0 \<le> s \<and> 0 \<le> c)"
  proof (cases "filter (\<lambda>(s, c). 0 \<le> s \<and> 0 \<le> c) rs")
    case Nil
    then show ?thesis using assms by (auto simp: get_socket_def connect_loop_first filter_empty_conv)
  next
    case (Cons x xs)
    then have "x \<in> set (filter (\<lambda>(s, c). 0 \<le> s \<and> 0 \<le> c) rs)" by simp
    then obtain s c where "x = (s, c)" "0 \<le> s" "0 \<le> c" "(s, c) \<in> set rs" unfolding set_filter by blast
    then show ?thesis using assms Cons by (auto simp: get_socket_def connect_loop_first split: prod.splits)
  qed
  show "map fst (filter (\<lambda>(s, c). 0 \<le> s) (takeWhile (\<lambda>(s, c). \<not> (0 \<le> s \<and> 0 \<le> c)) rs)) = closed"
    using assms by (auto simp: get_socket_def connect_loop_first split: option.splits)
qed

section \<open>The client\<close>

text \<open>
  The child of \<^verbatim>\<open>create_occurence\<close> up to its loop: the script, or the standard input when there is none, and the connection to a
  server with the database \<open>root\<close>.
\<close>

definition start_client :: "(string \<Rightarrow> string option) \<Rightarrow> string \<Rightarrow> string option \<Rightarrow> int \<times> int list \<Rightarrow> char list \<Rightarrow> node \<Rightarrow> int + talk" where
  "start_client files stdin script sock junk root =
     (case (case script of None \<Rightarrow> Some stdin | Some f \<Rightarrow> files f) of
        None \<Rightarrow> Inl 1
      | Some text \<Rightarrow> if fst sock = - 1 then Inl 1 else Inr (init_talk text junk root))"

text \<open>The two loops of \<^verbatim>\<open>main\<close>: the results of \<^verbatim>\<open>fork\<close> and of \<^verbatim>\<open>wait\<close> come from functions of their number.\<close>

fun all_succeed :: "(nat \<Rightarrow> int) \<Rightarrow> nat \<Rightarrow> nat \<Rightarrow> bool" where
  "all_succeed result i 0 = True"
| "all_succeed result i (Suc n) = (result i \<noteq> - 1 \<and> all_succeed result (i + 1) n)"

record client_config =
  script :: "string option"
  occurences :: int

definition client_args :: "string list \<Rightarrow> (int + client_config) option" where
  "client_args argv =
     (if length argv \<noteq> 3 \<and> length argv \<noteq> 5 then Some (Inl 1)
      else if length argv = 5 then map_option (\<lambda>n. Inr \<lparr>script = Some (argv ! 3), occurences = n\<rparr>) (atoi (argv ! 4))
      else Some (Inr \<lparr>script = None, occurences = 1\<rparr>))"

definition client_main :: "(nat \<Rightarrow> int) \<Rightarrow> (nat \<Rightarrow> int) \<Rightarrow> string list \<Rightarrow> int option" where
  "client_main fork wait argv = do {
     r \<leftarrow> client_args argv;
     case r of Inl status \<Rightarrow> Some status
     | Inr cfg \<Rightarrow>
         Some (if \<not> all_succeed fork 0 (nat (occurences cfg)) then 1
               else if \<not> all_succeed wait 0 (nat (occurences cfg)) then 1 else 0)
   }"

lemma all_succeed_iff: "all_succeed result i n \<longleftrightarrow> (\<forall>k < n. result (i + k) \<noteq> - 1)"
proof (induction result i n rule: all_succeed.induct)
  case (2 result i n)
  have "(\<forall>k < Suc n. result (i + k) \<noteq> - 1) \<longleftrightarrow> result i \<noteq> - 1 \<and> (\<forall>k < n. result (i + 1 + k) \<noteq> - 1)"
    by (auto simp: less_Suc_eq_0_disj)
  then show ?case using 2 by simp
qed simp

lemma client_main_status:
  "length argv = 5 \<Longrightarrow> atoi (argv ! 4) = Some n \<Longrightarrow>
     client_main fork wait argv = Some (if \<forall>k < nat n. fork k \<noteq> - 1 \<and> wait k \<noteq> - 1 then 0 else 1)"
  by (auto simp: client_main_def client_args_def all_succeed_iff)

section \<open>The listener\<close>

datatype listen_output = Says_port int | Complains string | Established | Server_called "string option"

text \<open>
  The calls that set up the listening socket: the results of \<^verbatim>\<open>pthread_create\<close>, \<^verbatim>\<open>socket\<close>, \<^verbatim>\<open>bind\<close> and \<^verbatim>\<open>listen\<close>.
\<close>

definition start_listener :: "int \<Rightarrow> int \<Rightarrow> int \<Rightarrow> int \<Rightarrow> int \<Rightarrow> listen_output list \<times> (int + unit)" where
  "start_listener port created lsock bound listening =
     (if created < 0 then ([Complains ''pthead_create''], Inl 1)
      else if lsock < 0 then ([Says_port port, Complains ''socket''], Inl 1)
      else if bound < 0 then ([Says_port port, Complains ''bind''], Inl 1)
      else if listening < 0 then ([Says_port port, Complains ''listen''], Inl 1)
      else ([Says_port port], Inr ()))"

text \<open>
  One round of the loop: \<open>csock\<close> is what \<^verbatim>\<open>accept\<close> returns, \<open>stream\<close> what the stream that \<^verbatim>\<open>fdopen\<close> makes of it will deliver, \<^const>\<open>None\<close>
  when it returns \<^verbatim>\<open>NULL\<close>. A pointer is never less than 0, so the test behind \<^verbatim>\<open>fdopen\<close> does not see \<^verbatim>\<open>NULL\<close>.
\<close>

definition listener_round :: "int \<Rightarrow> string option \<Rightarrow> listen_output list" where
  "listener_round csock stream = (if csock < 0 then [Complains ''accept''] else []) @ [Established, Server_called stream]"

text \<open>A failed \<^verbatim>\<open>accept\<close>, for which \<^verbatim>\<open>fdopen\<close> returns \<^verbatim>\<open>NULL\<close>, starts a client thread on no stream.\<close>

lemma failed_accept_is_served: "listener_round (- 1) None = [Complains ''accept'', Established, Server_called None]"
  by (simp add: listener_round_def)

text \<open>Closing a stream, with the result of \<^verbatim>\<open>fclose\<close>.\<close>

definition comm_shutdown :: "int \<Rightarrow> listen_output list" where
  "comm_shutdown closed = (if closed < 0 then [Complains ''Error closing i/o stream:''] else [])"

definition connect_event :: "nat \<Rightarrow> listen_output \<Rightarrow> server_event list" where
  "connect_event new out = (case out of Server_called (Some inp) \<Rightarrow> [Connect new inp] | _ \<Rightarrow> [])"

section \<open>The signal handler\<close>

text \<open>
  The numbers of the three ways to change the signal mask differ between systems; the code passes the number of the
  signal instead, which is 2 everywhere.
\<close>

record platform =
  SIG_BLOCK :: int
  SIG_UNBLOCK :: int
  SIG_SETMASK :: int

definition linux :: platform where
  "linux = \<lparr>SIG_BLOCK = 0, SIG_UNBLOCK = 1, SIG_SETMASK = 2\<rparr>"

definition darwin :: platform where
  "darwin = \<lparr>SIG_BLOCK = 1, SIG_UNBLOCK = 2, SIG_SETMASK = 3\<rparr>"

abbreviation SIGINT_number :: int where "SIGINT_number \<equiv> 2"

definition pthread_sigmask :: "platform \<Rightarrow> int \<Rightarrow> int set \<Rightarrow> int set \<Rightarrow> int set option" where
  "pthread_sigmask pf how sigs blocked =
     (if how = SIG_BLOCK pf then Some (blocked \<union> sigs)
      else if how = SIG_UNBLOCK pf then Some (blocked - sigs)
      else if how = SIG_SETMASK pf then Some sigs
      else None)"

text \<open>The results of \<^verbatim>\<open>sigemptyset\<close>, \<^verbatim>\<open>sigaddset\<close> and \<^verbatim>\<open>pthread_create\<close> are parameters; the value is the mask of the main thread.\<close>

definition sig_handler_constructor :: "platform \<Rightarrow> int \<Rightarrow> int \<Rightarrow> int \<Rightarrow> int set \<Rightarrow> (string \<times> int) + int set" where
  "sig_handler_constructor pf emptied added created blocked =
     (if emptied \<noteq> 0 then Inl (''sigemptyset'', 1)
      else if added \<noteq> 0 then Inl (''sigaddset'', 1)
      else (case pthread_sigmask pf SIGINT_number {SIGINT_number} blocked of
          None \<Rightarrow> Inl (''pthread sigmask'', 1)
        | Some blocked \<Rightarrow> if created \<noteq> 0 then Inl (''pthread_create'', 1) else Inr blocked))"

lemma sigint_blocked_on_linux_only:
  "sig_handler_constructor linux 0 0 0 blocked = Inr {SIGINT_number}"
  "sig_handler_constructor darwin 0 0 0 blocked = Inr (blocked - {SIGINT_number})"
  by (simp_all add: sig_handler_constructor_def pthread_sigmask_def linux_def darwin_def)

section \<open>The main thread of the server\<close>

text \<open>
  The buffer keeps what a shorter read does not overwrite. Both an error and the end of the input end the loop.
\<close>

definition read_input :: "string \<Rightarrow> char list \<Rightarrow> char list" where
  "read_input text input = take 256 text @ drop (length (take 256 text)) input"

text \<open>What the main thread contributes to a run for one buffer of input.\<close>

definition input_event :: "char list \<Rightarrow> server_event list" where
  "input_event input = (if take 1 input = ''s'' then [Stop] else if take 1 input = ''g'' then [Release] else [])"

fun main_events :: "(int \<times> string) list \<Rightarrow> char list \<Rightarrow> server_event list" where
  "main_events [] input = []"
| "main_events ((got, text) # rs) input =
     (if got > 0 then input_event (read_input text input) @ main_events rs (read_input text input)
      else [Main_eof, Main_list, Main_count, Main_check])"

text \<open>The event for a buffer does what \<^const>\<open>main_input\<close> does.\<close>

lemma input_event_step:
  assumes "main_input can_open input s = Some (out, t)" "main_at s = Reading" "\<not> fault s"
  shows "run_server depth files (input_event input) s = Some t"
proof -
  obtain c d where c: "rd input 0 = Some c" "rd input 1 = Some d"
    using assms(1) by (auto simp: main_input_def split: bind_splits)
  then have "take 1 input = [c]" by (cases input) (auto simp: rd_def)
  then show ?thesis
    using assms c by (auto simp: main_input_def input_event_def run_server_def server_step.simps split: if_splits)
qed

definition server_main :: "platform \<Rightarrow> string list \<Rightarrow> int list \<Rightarrow> int list \<Rightarrow> (int \<times> string) list \<Rightarrow> (int + server_event list) option" where
  "server_main pf argv sig_results net_results reads =
     (if length argv \<noteq> 2 then Some (Inl 1)
      else do {
        port \<leftarrow> atoi (argv ! 1);
        emptied \<leftarrow> rd sig_results 0;
        added \<leftarrow> rd sig_results 1;
        created \<leftarrow> rd sig_results 2;
        thread \<leftarrow> rd net_results 0;
        case sig_handler_constructor pf emptied added created {} of
          Inl (_, status) \<Rightarrow> Some (Inl status)
        | Inr _ \<Rightarrow> if thread < 0 then Some (Inl 1) else Some (Inr (main_events reads (replicate 256 NUL)))
      })"

lemma walk_None: "walk cs None = Some []"
  by (subst walk.simps) simp



end
