(* ===== verification/PthreadOSX.thy ===== *)
theory PthreadOSX
  imports Prelude
begin

text \<open>
  Read-write locks and barriers for systems whose thread library has none, \<^verbatim>\<open>src/database/pthread_OSX.c\<close>.

  Every function runs under the mutex of its object, except while it waits on a condition variable; so
  it is a step up to the first wait, and a step for each time it wakes up and tests its condition
  again. A thread that waits may wake up without reason, and after a broadcast it does.
\<close>

section \<open>Barriers\<close>

record barrier =
  generation :: uint32
  count :: uint32
  number :: uint32

definition pthread_barrier_init :: "uint32 \<Rightarrow> barrier" where
  "pthread_barrier_init cnt = \<lparr>generation = 0, count = 0, number = cnt\<rparr>"

text \<open>
  \<^verbatim>\<open>pthread_barrier_wait\<close> up to the first wait: \<open>Inl\<close> gives the generation that the thread waits to see
  the end of; the last thread broadcasts, and \<open>Inr\<close> is its return value.
\<close>

abbreviation PTHREAD_BARRIER_SERIAL_THREAD :: int where "PTHREAD_BARRIER_SERIAL_THREAD \<equiv> 1"

definition barrier_enter :: "barrier \<Rightarrow> barrier \<times> (uint32 + int)" where
  "barrier_enter b = (let b = b\<lparr>count := count b + 1\<rparr> in
     if count b < number b then (b, Inl (generation b))
     else (b\<lparr>count := 0, generation := generation b + 1\<rparr>, Inr PTHREAD_BARRIER_SERIAL_THREAD))"

text \<open>Its loop after a wait: whether it returns, with 0.\<close>

definition barrier_recheck :: "uint32 \<Rightarrow> barrier \<Rightarrow> int option" where
  "barrier_recheck my_generation b = (if my_generation = generation b then None else Some 0)"

text \<open>
  The threads that use one barrier: each is outside, asleep in the wait, or awake and about to test its
  condition. \<open>entered\<close> and \<open>left\<close> count the calls and the returns of each thread.
\<close>

datatype waiting = Outside | Asleep uint32 | Awake uint32

record barrier_state =
  bar :: barrier
  thr :: "nat \<Rightarrow> waiting"
  entered :: "nat \<Rightarrow> nat"
  left :: "nat \<Rightarrow> nat"

definition broadcast :: "(nat \<Rightarrow> waiting) \<Rightarrow> nat \<Rightarrow> waiting" where
  "broadcast w i = (case w i of Asleep g \<Rightarrow> Awake g | x \<Rightarrow> x)"

inductive barrier_step :: "nat set \<Rightarrow> barrier_state \<Rightarrow> barrier_state \<Rightarrow> bool" for T where
  enter_wait: "i \<in> T \<Longrightarrow> thr s i = Outside \<Longrightarrow> barrier_enter (bar s) = (b, Inl g) \<Longrightarrow>
    barrier_step T s (s\<lparr>bar := b, thr := (thr s)(i := Asleep g), entered := (entered s)(i := entered s i + 1)\<rparr>)"
| enter_last: "i \<in> T \<Longrightarrow> thr s i = Outside \<Longrightarrow> barrier_enter (bar s) = (b, Inr r) \<Longrightarrow>
    barrier_step T s (s\<lparr>bar := b, thr := broadcast (thr s), entered := (entered s)(i := entered s i + 1), left := (left s)(i := left s i + 1)\<rparr>)"
| wake: "i \<in> T \<Longrightarrow> thr s i = Asleep g \<Longrightarrow> barrier_step T s (s\<lparr>thr := (thr s)(i := Awake g)\<rparr>)"
| again: "i \<in> T \<Longrightarrow> thr s i = Awake g \<Longrightarrow> barrier_recheck g (bar s) = None \<Longrightarrow> barrier_step T s (s\<lparr>thr := (thr s)(i := Asleep g)\<rparr>)"
| leave: "i \<in> T \<Longrightarrow> thr s i = Awake g \<Longrightarrow> barrier_recheck g (bar s) = Some r \<Longrightarrow>
    barrier_step T s (s\<lparr>thr := (thr s)(i := Outside), left := (left s)(i := left s i + 1)\<rparr>)"

inductive_cases barrier_stepE: "barrier_step T s t"

definition init_barrier :: "uint32 \<Rightarrow> barrier_state" where
  "init_barrier n = \<lparr>bar = pthread_barrier_init n, thr = (\<lambda>_. Outside), entered = (\<lambda>_. 0), left = (\<lambda>_. 0)\<rparr>"

abbreviation barrier_run :: "nat set \<Rightarrow> barrier_state \<Rightarrow> barrier_state \<Rightarrow> bool" where
  "barrier_run T \<equiv> (barrier_step T)\<^sup>*\<^sup>*"

subsection \<open>The invariant\<close>

text \<open>
  In generation \<open>k\<close> a thread has not come yet, has come and waits, or still has to notice the end of
  the generation before.
\<close>

definition thread_ok :: "nat \<Rightarrow> waiting \<Rightarrow> nat \<Rightarrow> nat \<Rightarrow> bool" where
  "thread_ok k w e l \<longleftrightarrow>
     w = Outside \<and> e = k \<and> l = k
   \<or> w \<in> {Asleep (of_nat k), Awake (of_nat k)} \<and> e = k + 1 \<and> l = k
   \<or> 0 < k \<and> w = Awake (of_nat (k - 1)) \<and> e = k \<and> l = k - 1"

definition barrier_inv :: "nat set \<Rightarrow> nat \<Rightarrow> barrier_state \<Rightarrow> bool" where
  "barrier_inv T k s \<longleftrightarrow> generation (bar s) = of_nat k \<and> number (bar s) = of_nat (card T)
     \<and> count (bar s) = of_nat (card {i \<in> T. entered s i = k + 1}) \<and> card {i \<in> T. entered s i = k + 1} < card T
     \<and> (\<forall>i \<in> T. thread_ok k (thr s i) (entered s i) (left s i))"

lemma next_generation: "of_nat (k - 1) \<noteq> (of_nat k :: uint32)" if "0 < k"
proof
  assume "of_nat (k - 1) = (of_nat k :: uint32)"
  then have "of_nat (k - 1) = (of_nat (k - 1) + 1 :: uint32)" using that by (metis Suc_pred' add.commute of_nat_Suc)
  then show False by simp
qed

lemma enter_cases:
  assumes "barrier_inv T k s" "card T < 2 ^ 32"
  defines "n \<equiv> card {i \<in> T. entered s i = k + 1}"
  shows "barrier_enter (bar s) = (if n + 1 < card T then ((bar s)\<lparr>count := of_nat (n + 1)\<rparr>, Inl (of_nat k))
    else ((bar s)\<lparr>count := 0, generation := of_nat (k + 1)\<rparr>, Inr 1))"
proof -
  have "n + 1 < 2 ^ 32" using assms(1,2) by (simp add: barrier_inv_def n_def)
  then have "unat (of_nat (n + 1) :: uint32) = n + 1" "unat (of_nat (card T) :: uint32) = card T"
    using assms(2) by (simp_all only: unat_of_nat) simp_all
  then have "of_nat (n + 1) < (of_nat (card T) :: uint32) \<longleftrightarrow> n + 1 < card T" by (metis word_less_nat_alt)
  then show ?thesis using assms(1) unfolding barrier_inv_def n_def [symmetric] by (simp add: barrier_enter_def Let_def add.commute)
qed

lemma barrier_step_inv:
  assumes i: "barrier_inv T k s" and f: "finite T" "card T < 2 ^ 32" and st: "barrier_step T s t"
  shows "\<exists>k'. barrier_inv T k' t"
  using st
proof (cases rule: barrier_step.cases)
  case (enter_wait i b g)
  let ?A = "{j \<in> T. entered s j = k + 1}"
  have e: "entered s i = k" "left s i = k" using i enter_wait by (auto simp: barrier_inv_def thread_ok_def)
  have A: "{j \<in> T. entered t j = k + 1} = insert i ?A" "i \<notin> ?A" using enter_wait e by auto
  then have c: "card {j \<in> T. entered t j = k + 1} = card ?A + 1" using f by simp
  have "card ?A + 1 < card T" "b = (bar s)\<lparr>count := of_nat (card ?A + 1)\<rparr>" "g = of_nat k"
    using enter_wait(4) enter_cases [OF i f(2)] by (auto split: if_splits)
  then have "barrier_inv T k t" using i c e enter_wait(1,2) unfolding barrier_inv_def by (auto simp: thread_ok_def)
  then show ?thesis ..
next
  case (enter_last i b r)
  let ?A = "{j \<in> T. entered s j = k + 1}"
  have e: "entered s i = k" "left s i = k" using i enter_last by (auto simp: barrier_inv_def thread_ok_def)
  have n: "\<not> card ?A + 1 < card T" "b = (bar s)\<lparr>count := 0, generation := of_nat (k + 1)\<rparr>"
    using enter_last(4) enter_cases [OF i f(2)] by (auto split: if_splits)
  have "?A \<subseteq> T - {i}" using e by auto
  moreover have "card (T - {i}) \<le> card ?A" using n(1) enter_last(2) f(1) by simp
  ultimately have A: "?A = T - {i}" using f(1) by (intro card_subset_eq) (auto intro: card_mono le_antisym)
  have o: "entered s j = k + 1 \<and> left s j = k \<and> thr s j \<in> {Asleep (of_nat k), Awake (of_nat k)}" if "j \<in> T" "j \<noteq> i" for j
  proof -
    have "entered s j = k + 1" using A that by auto
    moreover have "thread_ok k (thr s j) (entered s j) (left s j)" using i that by (simp add: barrier_inv_def)
    ultimately show ?thesis by (auto simp: thread_ok_def)
  qed
  have "thread_ok (k + 1) (thr t j) (entered t j) (left t j)" if "j \<in> T" for j
    using o [OF that] e enter_last(1,3) by (cases "j = i") (auto simp: thread_ok_def broadcast_def)
  moreover have "entered t j \<noteq> k + 1 + 1" if "j \<in> T" for j
    using o [OF that] e enter_last(1) by (cases "j = i") simp_all
  then have z: "{j \<in> T. entered t j = k + 1 + 1} = {}" by blast
  moreover have "0 < card T" using enter_last(2) f(1) by (auto simp: card_gt_0_iff)
  ultimately have "barrier_inv T (k + 1) t" using i n(2) enter_last(1) unfolding barrier_inv_def z by simp
  then show ?thesis ..
next
  case (wake i g)
  then have "barrier_inv T k t" using i by (auto simp: barrier_inv_def thread_ok_def)
  then show ?thesis ..
next
  case (again i g)
  then have "g = of_nat k" using i by (auto simp: barrier_inv_def barrier_recheck_def split: if_splits)
  then have "barrier_inv T k t" using again i next_generation by (auto simp: barrier_inv_def thread_ok_def)
  then show ?thesis ..
next
  case (leave i g r)
  then have "g \<noteq> of_nat k" using i by (auto simp: barrier_inv_def barrier_recheck_def split: if_splits)
  then have "barrier_inv T k t" using leave i by (auto simp: barrier_inv_def thread_ok_def)
  then show ?thesis ..
qed

lemma barrier_run_inv:
  assumes "barrier_run T s t" "barrier_inv T k s" "finite T" "card T < 2 ^ 32"
  shows "\<exists>k'. barrier_inv T k' t"
  using assms(1,2)
proof (induction arbitrary: k rule: converse_rtranclp_induct)
  case (step s u)
  then show ?case using barrier_step_inv [OF step.prems assms(3,4) step.hyps(1)] by blast
qed blast

lemma init_barrier_inv: "T \<noteq> {} \<Longrightarrow> finite T \<Longrightarrow> barrier_inv T 0 (init_barrier (of_nat (card T)))"
  by (auto simp: barrier_inv_def init_barrier_def pthread_barrier_init_def thread_ok_def card_gt_0_iff)

subsection \<open>Read-write locks\<close>

record rwlock =
  readers :: uint32
  writers :: uint32
  active_writers :: uint32

definition pthread_rwlock_init :: rwlock where
  "pthread_rwlock_init = \<lparr>readers = 0, writers = 0, active_writers = 0\<rparr>"

text \<open>
  The conditions name \<^verbatim>\<open>readers\<close> and \<^verbatim>\<open>writers\<close>, which are not declared; they are read here as the fields
  of the lock. \<^const>\<open>None\<close> is to wait.
\<close>

definition pthread_rwlock_rdlock :: "rwlock \<Rightarrow> rwlock option" where
  "pthread_rwlock_rdlock l = (if writers l \<noteq> 0 then None else Some (l\<lparr>readers := readers l + 1\<rparr>))"

definition pthread_rwlock_wrlock :: "rwlock \<Rightarrow> rwlock option" where
  "pthread_rwlock_wrlock l = (if readers l \<noteq> 0 \<and> writers l \<noteq> 0 then None else Some (l\<lparr>active_writers := active_writers l + 1\<rparr>))"

datatype wakes = No_one | One_writer | All_readers

definition pthread_rwlock_unlock :: "rwlock \<Rightarrow> rwlock \<times> wakes" where
  "pthread_rwlock_unlock l =
     (if active_writers l \<noteq> 0 then
        (let l = l\<lparr>writers := writers l - 1, active_writers := active_writers l - 1\<rparr> in
          (l, if writers l \<noteq> 0 then One_writer else All_readers))
      else (let l = l\<lparr>readers := readers l - 1\<rparr> in (l, if readers l = 0 then One_writer else No_one)))"

section \<open>Theorems\<close>

text \<open>
  C30. Any number of threads below 2 to the 32 that share a barrier made for them: on every run, no thread has
  returned from its n-th call before every thread has made its n-th call, and no thread is asleep
  once all of them have (the broadcast reaches everyone, wherever the generation counter wraps).
\<close>

theorem barrier_synchronises:
  assumes "finite T" "T \<noteq> {}" "card T < 2 ^ 32" "barrier_run T (init_barrier (of_nat (card T))) s" "i \<in> T" "j \<in> T"
  shows "left s i \<le> entered s j \<and> entered s j \<le> left s i + 2
    \<and> ((\<forall>j \<in> T. entered s i \<le> entered s j) \<longrightarrow> (\<nexists>g. thr s i = Asleep g))"
proof -
  obtain k where inv: "barrier_inv T k s"
    using barrier_run_inv [OF assms(4) init_barrier_inv assms(1,3)] assms(1,2) by blast
  then have t: "thread_ok k (thr s i) (entered s i) (left s i)" "thread_ok k (thr s j) (entered s j) (left s j)"
    using assms(5,6) by (simp_all add: barrier_inv_def)
  have "\<exists>j \<in> T. entered s j \<noteq> k + 1"
  proof (rule ccontr)
    assume "\<not> (\<exists>j \<in> T. entered s j \<noteq> k + 1)"
    then have "{j \<in> T. entered s j = k + 1} = T" by blast
    then show False using inv by (simp add: barrier_inv_def)
  qed
  then obtain m where m: "m \<in> T" "entered s m \<noteq> k + 1" by blast
  have "thread_ok k (thr s m) (entered s m) (left s m)" using inv m(1) by (simp add: barrier_inv_def)
  then have "entered s m = k" using m(2) by (auto simp: thread_ok_def)
  then have "\<nexists>g. thr s i = Asleep g" if "\<forall>j \<in> T. entered s i \<le> entered s j" using that m(1) t(1) by (force simp: thread_ok_def)
  then show ?thesis using t by (auto simp: thread_ok_def)
qed

theorem barrier_synchronises_witness:
  "\<exists>s. barrier_run {0, 1} (init_barrier 2) s \<and> left s 0 = 1 \<and> left s 0 \<le> entered s 1"
proof -
  let ?s = "init_barrier 2"
  let ?u = "?s\<lparr>bar := (bar ?s)\<lparr>count := 1\<rparr>, thr := (thr ?s)(0 := Asleep 0), entered := (entered ?s)(0 := 1)\<rparr>"
  let ?v = "?u\<lparr>bar := \<lparr>generation = 1, count = 0, number = 2\<rparr>, thr := broadcast (thr ?u), entered := (entered ?u)(1 := 1), left := (left ?u)(1 := 1)\<rparr>"
  let ?w = "?v\<lparr>thr := (thr ?v)(0 := Outside), left := (left ?v)(0 := 1)\<rparr>"
  have "barrier_step {0, 1} ?s ?u"
    using barrier_step.enter_wait [of 0 "{0, 1}" ?s "(bar ?s)\<lparr>count := 1\<rparr>" 0]
    by (simp add: init_barrier_def pthread_barrier_init_def barrier_enter_def)
  moreover have "barrier_step {0, 1} ?u ?v"
    using barrier_step.enter_last [of 1 "{0, 1}" ?u "\<lparr>generation = 1, count = 0, number = 2\<rparr>" 1]
    by (simp add: init_barrier_def pthread_barrier_init_def barrier_enter_def)
  moreover have "barrier_step {0, 1} ?v ?w"
    using barrier_step.leave [of 0 "{0, 1}" ?v 0 0]
    by (simp add: init_barrier_def pthread_barrier_init_def barrier_recheck_def broadcast_def)
  ultimately have r: "barrier_run {0, 1} ?s ?w" by (meson converse_rtranclp_into_rtranclp rtranclp.rtrancl_refl)
  then have "left ?w 0 \<le> entered ?w 1" using barrier_synchronises [of "{0, 1}" ?w 0 1] by simp
  then show ?thesis using r by (intro exI [of _ ?w]) simp
qed

text \<open>
  The read-write lock excludes nobody: no function ever counts a waiting writer, so as long as the
  count is 0 a writer is let in next to readers and to other writers; and the first writer that unlocks
  takes the count from 0 to the largest unsigned value, after which every reader waits.
\<close>

theorem rwlock_does_not_exclude:
  assumes "writers l = 0"
  shows "pthread_rwlock_wrlock l = Some (l\<lparr>active_writers := active_writers l + 1\<rparr>)
    \<and> pthread_rwlock_rdlock l = Some (l\<lparr>readers := readers l + 1\<rparr>)
    \<and> (active_writers l \<noteq> 0 \<longrightarrow> writers (fst (pthread_rwlock_unlock l)) = 2 ^ 32 - 1
      \<and> pthread_rwlock_rdlock (fst (pthread_rwlock_unlock l)) = None)"
  using assms by (simp add: pthread_rwlock_wrlock_def pthread_rwlock_rdlock_def pthread_rwlock_unlock_def Let_def)

theorem rwlock_does_not_exclude_witness:
  "pthread_rwlock_wrlock \<lparr>readers = 1, writers = 0, active_writers = 1\<rparr> = Some \<lparr>readers = 1, writers = 0, active_writers = 2\<rparr>
    \<and> pthread_rwlock_rdlock (fst (pthread_rwlock_unlock \<lparr>readers = 1, writers = 0, active_writers = 1\<rparr>)) = None"
  using rwlock_does_not_exclude [of "\<lparr>readers = 1, writers = 0, active_writers = 1\<rparr>"] by simp

end
