(* ===== verification/Spec2Isabelle.thy ===== *)
theory Spec2Isabelle
  imports BtestMain StringTests PolyMain Clock MazeSolver MdriverRun DatabaseTheorems ShellSession Shell1Session Network PthreadOSX
begin

text \<open>
  \<^bold>\<open>A verification library for a collection of systems programs in C.\<close>

  The repository holds several programs with the tools that test them: the puzzles of a data lab, a
  string library, a polynomial evaluator, a maze generator with its solver, a memory allocator, two shells and a
  networked database. They share no code; inside a project the parts work together, and the development follows
  that structure. This theory imports all others and is the map of them.

  \<^bold>\<open>Conventions.\<close> A C function is a function on the state it reads and writes. \<^const>\<open>None\<close> is undefined
  behaviour: an access outside an array, a signed overflow, a failed assertion, the use of a value that was never set;
  that an operation is safe is the theorem that its result is \<^const>\<open>Some\<close>. Where a loop may
  run for ever, \<^const>\<open>None\<close> is also the loop that does not return. An \<^verbatim>\<open>int\<close> is an
  \<^typ>\<open>int\<close> whose range \<^const>\<open>c_int\<close> tests at each operation that can overflow, or a word of 32 bits where the code
  works on bits; \<^verbatim>\<open>size_t\<close> is a number modulo two to the 64. A \<^verbatim>\<open>double\<close> is an element of a
  ring or an ordered field: rounding is not modelled. What the operating system and the C library answer (\<^verbatim>\<open>malloc\<close>,
  \<^verbatim>\<open>rand\<close>, \<^verbatim>\<open>fork\<close>, \<^verbatim>\<open>waitpid\<close>, files, clocks) is a parameter, so the theorems hold for all answers within their
  hypotheses; what a program writes or asks of the system is a list of outputs, actions or events. \<open>Prelude\<close> has these
  conventions, numbers as text, and the generic lemmas on words, lists and loops.

  \<^bold>\<open>Data lab, \<^verbatim>\<open>src/data\<close>.\<close>
  \<^item> \<open>Bits\<close>: the puzzles of \<^verbatim>\<open>bits.c\<close> and the references of \<^verbatim>\<open>tests.c\<close> on words, and that they agree.
  \<^item> \<open>Btest\<close>, \<open>BtestMain\<close>: the harness \<^verbatim>\<open>btest.c\<close> with its table \<^verbatim>\<open>decl.c\<close>, its options and \<^verbatim>\<open>main\<close>. The locales
    \<open>puzzle1\<close>, \<open>puzzle2\<close>, \<open>puzzle3\<close> are the contract between harness and puzzle, for each number of
    arguments: the solution agrees with the reference on the ranges of the table, so the harness finds no error
    whatever values it draws. Each puzzle is an interpretation, and the program with any options that fix
    no argument ends with full marks.
  \<^item> \<open>Viewers\<close>: \<^verbatim>\<open>ishow.c\<close> and \<^verbatim>\<open>fshow.c\<close>; what is shown can be read back, and the numbers that \<^verbatim>\<open>fshow\<close> assembles
    are ordered like their words.

  \<^bold>\<open>Strings and performance, \<^verbatim>\<open>src/stringsperf\<close>.\<close>
  \<^item> \<open>CStrings\<close>: \<^verbatim>\<open>strings.c\<close> on arrays of characters; \<^verbatim>\<open>strtok\<close> keeps its position in a static variable that is a field
    of the state. The functions against their specifications on terminated strings.
  \<^item> \<open>StringTests\<close>: the assertions of all tests of \<^verbatim>\<open>strings_tests.c\<close>, \<^verbatim>\<open>main\<close> with which test is run and timed, and that the library passes.
  \<^item> \<open>Seccomp\<close>: the filters of system calls in the two \<^verbatim>\<open>sec.h\<close>, as programs of the kernel's packet-filter machine. The locale \<open>allow_list\<close> is a filter that
    is put together from blocks, one for each allowed call; both filters are interpretations, and each lets through exactly its calls. The two test programs start by installing them.
  \<^item> \<open>Poly\<close>, \<open>PolyMain\<close>: \<^verbatim>\<open>poly.c\<close>, \<^verbatim>\<open>poly_naive.c\<close> and \<^verbatim>\<open>main.c\<close>. The unrolled evaluator equals the naive one for
    three of the five remainders of the degree; for these the program counts every test as correct.

  \<^bold>\<open>Maze, \<^verbatim>\<open>src/maze\<close>.\<close> \<open>MazeCommon\<close>, \<open>MazeGenerator\<close>, \<open>MazeSolver\<close>: the generator walks at random and
  writes a file, the solver reads the file, searches it and prints the path. The walk ends and makes a connected
  maze, the search decides reachability, the pruned path is a solution, and a file that the generator writes is
  read and solved.

  \<^bold>\<open>Allocator, \<^verbatim>\<open>src/malloc\<close>.\<close>
  \<^item> \<open>MemLib\<close>, \<open>Mm\<close>: the simulated memory \<^verbatim>\<open>memlib.c\<close> and every function of \<^verbatim>\<open>mm.c\<close> and \<^verbatim>\<open>mminline.h\<close>. The state is the break, the
    pointer to the free list and a store of words with the headers, footers and links.
  \<^item> \<open>MmInv\<close>, \<open>MmOps\<close>, \<open>MmFree\<close>, \<open>MmCorrect\<close>, \<open>MmTheorems\<close>: the invariant (the blocks fill the heap, headers equal
    footers, the free list is a ring through exactly the free blocks, no two free neighbours) and that every
    operation keeps it. The locale \<open>allocator\<close> is the contract of an allocator over payloads and their bytes;
    it is interpreted by \<^verbatim>\<open>mm_malloc\<close>, \<^verbatim>\<open>mm_free\<close> and \<^verbatim>\<open>mm_realloc\<close>.
  \<^item> \<open>Mdriver\<close>, \<open>MdriverCorrect\<close>, \<open>MdriverMain\<close>, \<open>MdriverOptions\<close>, \<open>MdriverRun\<close>: the driver \<^verbatim>\<open>mdriver.c\<close>: reading of traces, range lists, the three evaluations, the
    loops over the traces, options, table, and \<^verbatim>\<open>main\<close> with its messages and exit status. The driver is a client of the contract: it accepts the allocator on
    every sensible trace that fits the heap, the utilisation is between 0 and 1, the timed run makes the calls of the checked
    run, and the program, from the text of the trace files to the performance index, reports success.
  \<^item> \<open>Timing\<close>, \<open>Clock\<close>: \<^verbatim>\<open>clock.c\<close>, \<^verbatim>\<open>fcyc.c\<close>, \<^verbatim>\<open>ftimer.c\<close>, \<^verbatim>\<open>fsecs.c\<close>; the difference of two readings is exact across a carry, the
    best of K samples is the minimum, the compensated counter takes off what its calibration measured, and the cache is cleared within its bounds.

  \<^bold>\<open>Database, \<^verbatim>\<open>src/database\<close>.\<close>
  \<^item> \<open>Database\<close>: \<^verbatim>\<open>db.c\<close>. The tree is a datatype whose nodes remember the sizes of their buffers; every operation also returns the
    sequence of locks, unlocks, writes and destructions it performs.
  \<^item> \<open>DatabaseCorrect\<close>, \<open>DatabaseTheorems\<close>: the locale \<open>dictionary\<close> is the contract of the operations as operations on a finite map, interpreted by the
    tree; commands and command files refine it, keep the tree well-formed, and lock in a balanced way.
  \<^item> \<open>Server\<close>, \<open>ServerCorrect\<close>: \<^verbatim>\<open>server.c\<close> and \<^verbatim>\<open>comm_serve\<close> of \<^verbatim>\<open>comm.c\<close>. A client thread is at one of the points between the calls that other threads can
    see, and a step of the server is a step of one thread, so a run is any interleaving. The list of clients, their count and the
    database stay consistent in every run without \<^verbatim>\<open>delete_all\<close>.
  \<^item> \<open>Client\<close>: the client's loop in \<^verbatim>\<open>client.c\<close> beside its server thread, as a step relation on the pair; however they are scheduled, the client prints the
    answer of every line. \<open>Network\<close>: how the two come together, that is connecting, the listener, the signal mask and the two \<^verbatim>\<open>main\<close>; the end of
    the server destroys every node once. \<open>PthreadOSX\<close>: the barriers and read-write locks of \<^verbatim>\<open>pthread_OSX.c\<close>.

  \<^bold>\<open>Shells, \<^verbatim>\<open>src/shell_1\<close> and \<^verbatim>\<open>src/shell_2\<close>.\<close>
  \<^item> \<open>HeapList\<close>: linked lists in a store, as the locale \<open>linked\<close> over reading and writing the link of an element. It is interpreted twice: by the jobs of the second shell and by
    the clients of the server.
  \<^item> \<open>Jobs\<close>, \<open>JobsCorrect\<close>: \<^verbatim>\<open>jobs.c\<close>, and that any sequence of its calls refines the same calls on a sequence of jobs with an iterator.
  \<^item> \<open>ShellParse\<close>: the parsers of both shells, against a reading of the words of the line.
  \<^item> \<open>Shell\<close>, \<open>ShellCorrect\<close>, \<open>ShellMain\<close>: \<^verbatim>\<open>reap.c\<close>, \<^verbatim>\<open>executes.c\<close> and the shell's part of a round of \<^verbatim>\<open>sh.c\<close> in \<^verbatim>\<open>shell_2\<close>. A round keeps the job list and its numbering consistent.
  \<^item> \<open>Shell1\<close>, \<open>Shell1Correct\<close>, \<open>Shell1Session\<close>: \<^verbatim>\<open>shell_1/sh.c\<close> with its table of descriptors; a line runs the program it names on the files it names, and a
    session has the same table after every line.
  \<^item> \<open>ShellChild\<close>, \<open>ShellSession\<close>: the child of the second shell, with signals, process group and redirection, and the second shell as a whole: \<^verbatim>\<open>main\<close> and the
    loop, with the children it starts. Over any sensible inputs the session keeps the job list, the shell's own process and every child in order.

  \<^bold>\<open>Loops, fuel and bounds.\<close> Most loops are recursive functions with a termination proof. Loops along pointers and the parser's main loop are
  partial functions, and the theorems state that they return on well-formed lists and on terminated lines; on a line with an embedded null the parser
  is shown not to return. The maze walk and the search recur with a fuel that the theorems show to be enough: the number of rooms bounds the depth. The loops of the allocator along the free list and the heap have as fuel the
  number of words that the heap has room for (\<open>list_fuel\<close>), and the invariant shows that they end within it. The fuel of
  repeated \<^verbatim>\<open>strtok\<close> calls exceeds the number of tokens. Command files may name command files: \<open>depth\<close> bounds the nesting, and a file that names itself is not processed at any
  depth. The allocator's theorems ask that requests stay below the size where \<^verbatim>\<open>int\<close> arithmetic on sizes overflows, and the driver's that the trace fits the heap.

  \<^bold>\<open>Not modelled.\<close> What the system does behind a call: its answers are parameters. The prompt of the shells, which is compiled with a flag. The instructions that read cycle
  counters and the system's interval timer, whose readings are parameters. Rounding of \<^verbatim>\<open>double\<close> and decimal renderings of floating-point numbers; the messages of the harness for
  counter-examples and the texts of the usage messages. A run of the driver that ends in the middle of a malformed trace file or of a failed evaluation has no result. The
  counting of assertions in the string tests, whose source is not in the repository. \<^verbatim>\<open>poly_fast\<close> exists as an object file only and is a
  parameter. The Perl script that grades the data lab, and header files that only declare functions.
\<close>

end
